(* ===== verification/Prelude.thy ===== *)
theory Prelude
  imports Complex_Main "HOL-Library.Multiset"
begin

text \<open>
  Shared vocabulary of the development.

  \<^item> Go's building blocks that every package uses: iteration over a \<^verbatim>\<open>map\<close> (an order that
    lists every key once), \<^verbatim>\<open>rand.Intn\<close>, bounded channels, integers as \<^verbatim>\<open>int\<close>.
  \<^item> Executions of a labelled step relation, and two locales that turn "holds at the start, every
    step keeps it" into "holds in every execution".
  \<^item> Generic lemmas on lists, maps and filters used by several components.
\<close>

named_theorems go_simps \<open>evaluation of the Go building blocks\<close>
named_theorems map_order_intros \<open>facts about iteration orders of maps\<close>

section \<open>Iterating over a Go map\<close>

text \<open>
  \<^verbatim>\<open>for k := range m\<close> visits every key exactly once, in an order the language leaves open.
  The order is an argument of the operations that iterate: a list of keys that
  \<open>iterates\<close> the map.
\<close>

definition iterates :: "('k \<rightharpoonup> 'v) \<Rightarrow> 'k list \<Rightarrow> bool" where
  "iterates m ks \<longleftrightarrow> distinct ks \<and> set ks = dom m"

definition range_values :: "('k \<rightharpoonup> 'v) \<Rightarrow> 'k list \<Rightarrow> 'v list" where
  "range_values m ks = List.map_filter m ks"

lemma range_values_Nil [simp]: "range_values m [] = []"
  by (simp add: range_values_def map_filter_simps split: option.split)

lemma range_values_Cons [simp]:
  "range_values m (k # ks) =
     (case m k of None \<Rightarrow> range_values m ks | Some v \<Rightarrow> v # range_values m ks)"
  by (simp add: range_values_def map_filter_simps split: option.split)

lemma set_range_values: "set (range_values m ks) = {v. \<exists>k \<in> set ks. m k = Some v}"
  by (induction ks) (auto split: option.splits)

lemma set_range_values_iterates: "iterates m ks \<Longrightarrow> set (range_values m ks) = ran m"
  by (auto simp: set_range_values iterates_def ran_def dom_def)

lemma length_range_values: "set ks \<subseteq> dom m \<Longrightarrow> length (range_values m ks) = length ks"
  by (induction ks) (auto split: option.splits)

lemma iterates_distinct [map_order_intros]: "iterates m ks \<Longrightarrow> distinct ks"
  by (simp add: iterates_def)

lemma iterates_finite [map_order_intros]: "iterates m ks \<Longrightarrow> finite (dom m)"
  by (metis iterates_def List.finite_set)

lemma iterates_exists: "finite (dom m) \<Longrightarrow> \<exists>ks. iterates m ks"
  by (metis finite_distinct_list iterates_def)

text \<open>A value list whose entries carry their own key is, read back, the map it came from.\<close>

lemma map_key_range_values:
  assumes "\<forall>k v. m k = Some v \<longrightarrow> f v = k"
  shows "map f (range_values m ks) = filter (\<lambda>k. k \<in> dom m) ks"
  using assms by (induction ks) (auto split: option.splits)

lemma map_key_range_values_iterates:
  assumes "\<forall>k v. m k = Some v \<longrightarrow> f v = k" and "iterates m ks"
  shows "map f (range_values m ks) = ks"
proof -
  have "filter (\<lambda>k. k \<in> dom m) ks = ks"
    using assms(2) by (auto simp: iterates_def intro: filter_True)
  with map_key_range_values [OF assms(1)] show ?thesis by simp
qed

section \<open>Random choice\<close>

text \<open>
  \<^verbatim>\<open>rand.Intn(n)\<close> returns some number below \<open>n\<close>. The draw \<open>r\<close> is an argument of the
  operation; as \<open>r\<close> varies, \<open>intn r n\<close> takes exactly the values \<^verbatim>\<open>rand.Intn\<close> can return.
\<close>

definition intn :: "nat \<Rightarrow> nat \<Rightarrow> nat" where
  "intn r n = r mod n"

definition pick_random :: "nat \<Rightarrow> 'a list \<Rightarrow> 'a" where
  "pick_random r xs = xs ! intn r (length xs)"

lemma intn_less [simp]: "0 < n \<Longrightarrow> intn r n < n"
  by (simp add: intn_def)

lemma intn_onto: "i < n \<Longrightarrow> \<exists>r. intn r n = i"
  by (rule exI [of _ i]) (simp add: intn_def)

lemma pick_random_in [simp, intro]: "xs \<noteq> [] \<Longrightarrow> pick_random r xs \<in> set xs"
  by (simp add: pick_random_def)

lemma pick_random_onto: "x \<in> set xs \<Longrightarrow> \<exists>r. pick_random r xs = x"
  by (metis in_set_conv_nth intn_onto pick_random_def)

lemma pick_random_single [simp]: "pick_random r [x] = x"
  by (simp add: pick_random_def intn_def)

section \<open>Bounded channels\<close>

text \<open>
  A buffered channel is the list of its buffered values, oldest first. A send on a full channel
  does not return: the value \<open>None\<close>.
\<close>

definition chan_send :: "nat \<Rightarrow> 'a \<Rightarrow> 'a list \<Rightarrow> 'a list option" where
  "chan_send c x buf = (if length buf < c then Some (buf @ [x]) else None)"

fun chan_recv :: "'a list \<Rightarrow> ('a \<times> 'a list) option" where
  "chan_recv [] = None"
| "chan_recv (x # buf) = Some (x, buf)"

lemma chan_send_Some [simp]:
  "chan_send c x buf = Some buf' \<longleftrightarrow> length buf < c \<and> buf' = buf @ [x]"
  by (auto simp: chan_send_def)

lemma chan_send_None [simp]: "chan_send c x buf = None \<longleftrightarrow> c \<le> length buf"
  by (auto simp: chan_send_def)

lemma chan_recv_Some [simp]: "chan_recv buf = Some (x, rest) \<longleftrightarrow> buf = x # rest"
  by (cases buf) auto

lemma chan_recv_None [simp]: "chan_recv buf = None \<longleftrightarrow> buf = []"
  by (cases buf) auto

section \<open>Executions of a labelled step relation\<close>

inductive exec :: "('s \<Rightarrow> 'l \<Rightarrow> 's \<Rightarrow> bool) \<Rightarrow> 's \<Rightarrow> 'l list \<Rightarrow> 's \<Rightarrow> bool"
  for step :: "'s \<Rightarrow> 'l \<Rightarrow> 's \<Rightarrow> bool" and s :: 's where
  exec_nil [intro!]: "exec step s [] s"
| exec_snoc [intro]: "exec step s ls t \<Longrightarrow> step t l u \<Longrightarrow> exec step s (ls @ [l]) u"

inductive_cases exec_nilE [elim!]: "exec step s [] t"
inductive_cases exec_snocE: "exec step s (ls @ [l]) t"

lemma exec_append: "exec step t ls' u \<Longrightarrow> exec step s ls t \<Longrightarrow> exec step s (ls @ ls') u"
proof (induction rule: exec.induct)
  case exec_nil
  then show ?case by simp
next
  case (exec_snoc ls' v l u)
  then have "exec step s ((ls @ ls') @ [l]) u" by blast
  then show ?case by simp
qed

lemma exec_single [intro]: "step s l t \<Longrightarrow> exec step s [l] t"
  using exec_snoc [OF exec_nil] by fastforce

lemma exec_cons: "step s l t \<Longrightarrow> exec step t ls u \<Longrightarrow> exec step s (l # ls) u"
  using exec_append [OF _ exec_single] by fastforce

lemma exec_split: "exec step s (ls @ ls') u \<Longrightarrow> \<exists>t. exec step s ls t \<and> exec step t ls' u"
proof (induction ls' arbitrary: u rule: rev_induct)
  case (snoc l ls')
  then obtain v where "exec step s (ls @ ls') v" "step v l u" by (auto simp flip: append_assoc elim: exec_snocE)
  with snoc.IH show ?case by (meson exec_snoc)
qed auto

lemma exec_mono:
  "exec step s ls t \<Longrightarrow> (\<And>s l t. step s l t \<Longrightarrow> step' s l t) \<Longrightarrow> exec step' s ls t"
  by (induction rule: exec.induct) auto

lemma exec_Cons_iff: "exec step s (l # ls) u \<longleftrightarrow> (\<exists>t. step s l t \<and> exec step t ls u)"
proof
  assume "exec step s (l # ls) u"
  then have "exec step s ([l] @ ls) u" by simp
  from exec_split [OF this] obtain t where t: "exec step s ([] @ [l]) t" "exec step t ls u" by auto
  from t(1) have "step s l t" by (rule exec_snocE) auto
  with t(2) show "\<exists>t. step s l t \<and> exec step t ls u" by blast
qed (blast intro: exec_cons)

text \<open>A deterministic relation has one maximal execution from each state.\<close>

lemma maximal_exec_unique:
  assumes "\<And>s l t l' t'. step s l t \<Longrightarrow> step s l' t' \<Longrightarrow> l' = l \<and> t' = t"
    and "exec step s ls t" and "\<nexists>l u. step t l u" and "exec step s ls' t'" and "\<nexists>l u. step t' l u"
  shows "ls' = ls \<and> t' = t"
  using assms(2,4)
proof (induction ls arbitrary: s ls')
  case Nil
  then have "t = s" by auto
  with Nil(2) assms(3) show ?case by (cases ls') (auto simp: exec_Cons_iff)
next
  case (Cons l ls)
  then obtain u where u: "step s l u" "exec step u ls t" by (auto simp: exec_Cons_iff)
  then obtain l' ks where "ls' = l' # ks" using Cons.prems(2) assms(5) by (cases ls') auto
  then obtain u' where "step s l' u'" "exec step u' ks t'" using Cons.prems(2) by (auto simp: exec_Cons_iff)
  with assms(1) [OF u(1)] Cons.IH [OF u(2)] \<open>ls' = l' # ks\<close> show ?case by blast
qed

definition reachable :: "('s \<Rightarrow> bool) \<Rightarrow> ('s \<Rightarrow> 'l \<Rightarrow> 's \<Rightarrow> bool) \<Rightarrow> 's \<Rightarrow> bool" where
  "reachable init step t \<longleftrightarrow> (\<exists>s ls. init s \<and> exec step s ls t)"

lemma reachable_init: "init s \<Longrightarrow> reachable init step s"
  unfolding reachable_def by blast

lemma reachable_step: "reachable init step s \<Longrightarrow> step s l t \<Longrightarrow> reachable init step t"
  unfolding reachable_def by blast

lemma reachable_exec:
  "reachable init step s \<Longrightarrow> exec step s ls t \<Longrightarrow> reachable init step t"
  unfolding reachable_def using exec_append by fast

text \<open>
  A property of the trace and the state that the start has and every step keeps. The component
  theories interpret the two locales on their own step relations.
\<close>

locale trace_invariant =
  fixes init :: "'s \<Rightarrow> bool"
    and step :: "'s \<Rightarrow> 'l \<Rightarrow> 's \<Rightarrow> bool"
    and inv :: "'l list \<Rightarrow> 's \<Rightarrow> bool"
  assumes tinv_init: "init s \<Longrightarrow> inv [] s"
    and tinv_step: "inv ls s \<Longrightarrow> step s l t \<Longrightarrow> inv (ls @ [l]) t"
begin

lemma tinv_exec: "exec step s ls t \<Longrightarrow> init s \<Longrightarrow> inv ls t"
  by (induction rule: exec.induct) (auto intro: tinv_init tinv_step)

end

locale state_invariant =
  fixes init :: "'s \<Rightarrow> bool"
    and step :: "'s \<Rightarrow> 'l \<Rightarrow> 's \<Rightarrow> bool"
    and sinv :: "'s \<Rightarrow> bool"
  assumes sinv_init: "init s \<Longrightarrow> sinv s"
    and sinv_step: "sinv s \<Longrightarrow> step s l t \<Longrightarrow> sinv t"

sublocale state_invariant \<subseteq> trace: trace_invariant init step "\<lambda>_. sinv"
  by unfold_locales (auto intro: sinv_init sinv_step)

context state_invariant begin

lemma sinv_reachable: "reachable init step s \<Longrightarrow> sinv s"
  unfolding reachable_def using trace.tinv_exec by blast

lemma sinv_exec: "exec step s ls t \<Longrightarrow> sinv s \<Longrightarrow> sinv t"
  by (induction rule: exec.induct) (auto intro: sinv_step)

end

section \<open>Maps and lists\<close>

lemma restrict_map_UNIV [simp]: "m |` UNIV = m"
  by (auto simp: restrict_map_def)

lemma mset_rotate [simp]: "mset (rotate k xs) = mset xs"
proof (induction k)
  case 0
  then show ?case by simp
next
  case (Suc k)
  have "mset (rotate1 ys) = mset ys" for ys :: "'a list" by (cases ys) auto
  with Suc show ?case by simp
qed

lemma filter_snoc: "filter P xs = fs @ [x] \<Longrightarrow> \<exists>a b. xs = a @ x # b \<and> (\<forall>y \<in> set b. \<not> P y)"
proof (induction xs arbitrary: fs)
  case (Cons y xs)
  show ?case
  proof (cases "P y \<and> fs = []")
    case True
    with Cons.prems have "y = x" "filter P xs = []" by auto
    then show ?thesis by (intro exI [of _ "[]"] exI [of _ xs]) (simp add: filter_empty_conv)
  next
    case False
    then obtain fs' where "filter P xs = fs' @ [x]" using Cons.prems by (cases fs) (auto split: if_splits)
    with Cons.IH obtain a b where "xs = a @ x # b" "\<forall>z \<in> set b. \<not> P z" by blast
    then show ?thesis by (intro exI [of _ "y # a"] exI [of _ b]) simp
  qed
qed simp

section \<open>Counting entries of a list\<close>

text \<open>
  Goroutines are kept in a list that grows at its end and is updated in place; the invariants
  count those at given program points.
\<close>

definition count_if :: "('a \<Rightarrow> bool) \<Rightarrow> 'a list \<Rightarrow> nat" where
  "count_if P xs = length (filter P xs)"

lemma count_if_Nil [simp]: "count_if P [] = 0"
  by (simp add: count_if_def)

lemma count_if_Cons [simp]: "count_if P (x # xs) = (if P x then 1 else 0) + count_if P xs"
  by (simp add: count_if_def)

lemma count_if_append [simp]: "count_if P (xs @ ys) = count_if P xs + count_if P ys"
  by (simp add: count_if_def)

lemma count_if_update:
  assumes "i < length xs"
  shows "count_if P (xs[i := x]) + (if P (xs ! i) then 1 else 0)
       = count_if P xs + (if P x then 1 else 0)"
  using assms
proof (induction xs arbitrary: i)
  case Nil
  then show ?case by simp
next
  case (Cons a xs)
  show ?case
  proof (cases i)
    case 0
    then show ?thesis by simp
  next
    case (Suc j)
    with Cons.IH [of j] Cons.prems show ?thesis by (auto split: if_splits)
  qed
qed

lemma count_if_update_same:
  "i < length xs \<Longrightarrow> P (xs ! i) = P x \<Longrightarrow> count_if P (xs[i := x]) = count_if P xs"
  using count_if_update [of i xs P x] by (auto split: if_splits)

lemma count_if_update_gain:
  "i < length xs \<Longrightarrow> \<not> P (xs ! i) \<Longrightarrow> P x \<Longrightarrow> count_if P (xs[i := x]) = Suc (count_if P xs)"
  using count_if_update [of i xs P x] by simp

lemma count_if_update_loss:
  "i < length xs \<Longrightarrow> P (xs ! i) \<Longrightarrow> \<not> P x \<Longrightarrow> Suc (count_if P (xs[i := x])) = count_if P xs"
  using count_if_update [of i xs P x] by simp

lemma count_if_pos: "0 < count_if P xs \<longleftrightarrow> (\<exists>x \<in> set xs. P x)"
  by (auto simp: count_if_def filter_empty_conv)

lemma count_if_ge_1: "x \<in> set xs \<Longrightarrow> P x \<Longrightarrow> 1 \<le> count_if P xs"
  using count_if_pos [of P xs] by force

text \<open>Counting with one position singled out.\<close>

definition count_others :: "('a \<Rightarrow> bool) \<Rightarrow> nat \<Rightarrow> 'a list \<Rightarrow> nat" where
  "count_others P i xs = count_if P (take i xs @ drop (Suc i) xs)"

lemma count_if_split:
  "i < length xs \<Longrightarrow> count_if P xs = count_others P i xs + of_bool (P (xs ! i))"
  by (subst id_take_nth_drop [of i xs], simp) (simp add: count_others_def)

lemma count_if_split_update:
  "i < length xs \<Longrightarrow> count_if P (xs[i := x]) = count_others P i xs + of_bool (P x)"
  by (simp add: upd_conv_take_nth_drop count_others_def)

lemma count_if_mono: "(\<And>x. x \<in> set xs \<Longrightarrow> P x \<Longrightarrow> Q x) \<Longrightarrow> count_if P xs \<le> count_if Q xs"
  by (induction xs) auto

lemma count_if_zero: "count_if P xs = 0 \<longleftrightarrow> (\<forall>x \<in> set xs. \<not> P x)"
  by (simp add: count_if_def filter_empty_conv)

end
