(* ===== verification/Go_Runtime.thy ===== *)
theory Go_Runtime
  imports Prelude "HOL-Library.Word" "HOL-Library.Signed_Division"
begin

text \<open>
  What the program uses of Go's standard library and of gRPC's error values.

  \<^item> Instants are nanoseconds on the server's monotonic clock (\<open>time\<close>), durations are
    64-bit nanosecond counts: \<^verbatim>\<open>Time.Sub\<close> saturates, \<^verbatim>\<open>Duration.Seconds\<close>
    splits off the whole seconds with truncated division.
  \<^item> \<^verbatim>\<open>float64\<close> arithmetic is real arithmetic rounded after every operation. The rounding,
    \<^verbatim>\<open>math.Erfc\<close> and \<^verbatim>\<open>math.Log10\<close> are the fields of \<open>float_env\<close>, an argument of the
    numeric definitions; \<open>float_ok\<close> is the list of facts about them that the properties use.
    The values the program reaches (gaps between instants, sums of at most a window of them,
    their squares) are far from overflow, so no operation yields an infinity.
  \<^item> An \<^verbatim>\<open>error\<close> is what the program observes of it: the code that \<^verbatim>\<open>status.Code\<close> reports and
    the format with its arguments, unrendered.
\<close>

section \<open>Integers\<close>

type_synonym uint32 = "32 word"
type_synonym go_int64 = "64 word"

section \<open>Instants and durations\<close>

type_synonym time = int
type_synonym duration = int

definition max_duration :: duration where "max_duration = 2 ^ 63 - 1"
definition min_duration :: duration where "min_duration = - (2 ^ 63)"

definition time_after :: "time \<Rightarrow> time \<Rightarrow> bool" where
  "time_after t u \<longleftrightarrow> u < t"

definition time_sub :: "time \<Rightarrow> time \<Rightarrow> duration" where
  "time_sub t u = max min_duration (min max_duration (t - u))"

lemma time_sub_mono: "t \<le> t' \<Longrightarrow> time_sub t u \<le> time_sub t' u"
  by (auto simp: time_sub_def max_def min_def)

lemma time_sub_nonneg: "u \<le> t \<Longrightarrow> 0 \<le> time_sub t u"
  by (auto simp: time_sub_def max_duration_def max_def min_def)

lemma time_sub_range: "min_duration \<le> time_sub t u" "time_sub t u \<le> max_duration"
  by (auto simp: time_sub_def max_duration_def min_duration_def)

section \<open>Floating point\<close>

record float_env =
  fl_round :: "real \<Rightarrow> real"
  fl_erfc :: "real \<Rightarrow> real"
  fl_log10 :: "real \<Rightarrow> real"

text \<open>
  IEEE-754 rounding to nearest is monotone and leaves the representable numbers 0, 1, -1 and
  1/32 as they are. \<^verbatim>\<open>math.Erfc\<close> is antitone with values between 0 and 2 and \<^verbatim>\<open>math.Log10\<close> is
  monotone on positive numbers with \<open>log10 1 = 0\<close>.
\<close>

definition float_ok :: "float_env \<Rightarrow> bool" where
  "float_ok fe \<longleftrightarrow>
     mono (fl_round fe) \<and> fl_round fe 0 = 0 \<and> fl_round fe 1 = 1 \<and> fl_round fe (- 1) = - 1
     \<and> fl_round fe (1 / 32) = 1 / 32
     \<and> antimono (fl_erfc fe) \<and> (\<forall>x. 0 \<le> fl_erfc fe x \<and> fl_erfc fe x \<le> 2)
     \<and> (\<forall>x y. 0 < x \<longrightarrow> x \<le> y \<longrightarrow> fl_log10 fe x \<le> fl_log10 fe y) \<and> fl_log10 fe 1 = 0"

lemma float_okD:
  assumes "float_ok fe"
  shows "x \<le> y \<Longrightarrow> fl_round fe x \<le> fl_round fe y"
    and "fl_round fe 0 = 0" and "fl_round fe 1 = 1" and "fl_round fe (- 1) = - 1"
    and "fl_round fe (1 / 32) = 1 / 32"
    and "x \<le> y \<Longrightarrow> fl_erfc fe y \<le> fl_erfc fe x"
    and "0 \<le> fl_erfc fe x" and "fl_erfc fe x \<le> 2"
    and "0 < x \<Longrightarrow> x \<le> y \<Longrightarrow> fl_log10 fe x \<le> fl_log10 fe y"
    and "fl_log10 fe 1 = 0"
  using assms unfolding float_ok_def by (auto dest: monoD antimonoD)

lemma fl_round_nonneg: "float_ok fe \<Longrightarrow> 0 \<le> x \<Longrightarrow> 0 \<le> fl_round fe x"
  using float_okD(1) [of fe 0 x] float_okD(2) by fastforce

lemma fl_round_nonpos: "float_ok fe \<Longrightarrow> x \<le> 0 \<Longrightarrow> fl_round fe x \<le> 0"
  using float_okD(1) [of fe x 0] float_okD(2) by fastforce

lemma fl_round_le_1: "float_ok fe \<Longrightarrow> x \<le> 1 \<Longrightarrow> fl_round fe x \<le> 1"
  using float_okD(1) [of fe x 1] float_okD(3) by fastforce

lemma fl_round_ge_1: "float_ok fe \<Longrightarrow> 1 \<le> x \<Longrightarrow> 1 \<le> fl_round fe x"
  using float_okD(1) [of fe 1 x] float_okD(3) by fastforce

lemma fl_round_ge_m1: "float_ok fe \<Longrightarrow> - 1 \<le> x \<Longrightarrow> - 1 \<le> fl_round fe x"
  using float_okD(1) [of fe "- 1" x] float_okD(4) by fastforce

lemma fl_round_ge_dyadic: "float_ok fe \<Longrightarrow> 1 / 32 \<le> x \<Longrightarrow> 1 / 32 \<le> fl_round fe x"
  using float_okD(1) [of fe "1 / 32" x] float_okD(5) by fastforce

text \<open>
  \<^verbatim>\<open>func (d Duration) Seconds() float64 { sec := d / Second; nsec := d % Second;
  return float64(sec) + float64(nsec)/1e9 }\<close>
\<close>

definition ns_per_s :: int where "ns_per_s = 1000000000"

definition seconds :: "float_env \<Rightarrow> duration \<Rightarrow> real" where
  "seconds fe d =
     (let sec = d sdiv ns_per_s; nsec = d smod ns_per_s
      in fl_round fe (real_of_int sec + fl_round fe (real_of_int nsec / 1000000000)))"

lemma ns_per_s_pos: "0 < ns_per_s"
  by (simp add: ns_per_s_def)

lemma seconds_parts:
  "d sdiv ns_per_s = sgn d * (\<bar>d\<bar> div ns_per_s)" "d smod ns_per_s = sgn d * (\<bar>d\<bar> mod ns_per_s)"
  by (auto simp: signed_divide_int_def signed_modulo_int_def ns_per_s_def sgn_if
      minus_mult_div_eq_mod algebra_simps)

lemma nsec_bounds: "d smod ns_per_s \<le> 1000000000" "- 1000000000 \<le> d smod ns_per_s"
  using pos_mod_bound [OF ns_per_s_pos, of "\<bar>d\<bar>"] pos_mod_sign [OF ns_per_s_pos, of "\<bar>d\<bar>"]
  unfolding seconds_parts by (auto simp: sgn_if ns_per_s_def)

lemma sec_nsec_nonneg: "0 \<le> d \<Longrightarrow> 0 \<le> d sdiv ns_per_s" "0 \<le> d \<Longrightarrow> 0 \<le> d smod ns_per_s"
  unfolding seconds_parts using ns_per_s_pos by (auto simp: sgn_if pos_imp_zdiv_nonneg_iff)

lemma sec_nsec_nonpos: "d \<le> 0 \<Longrightarrow> d sdiv ns_per_s \<le> 0" "d \<le> 0 \<Longrightarrow> d smod ns_per_s \<le> 0"
  unfolding seconds_parts using ns_per_s_pos by (auto simp: sgn_if pos_imp_zdiv_nonneg_iff)

lemma sec_mono:
  assumes "d \<le> d'"
  shows "d sdiv ns_per_s \<le> d' sdiv ns_per_s"
proof -
  consider "0 \<le> d" | "d' \<le> 0" | "d \<le> 0" "0 \<le> d'" using assms by linarith
  then show ?thesis
  proof cases
    case 1
    then show ?thesis
      unfolding seconds_parts using assms ns_per_s_pos
      by (auto simp: sgn_if zdiv_mono1 pos_imp_zdiv_nonneg_iff)
  next
    case 2
    then have "\<bar>d'\<bar> div ns_per_s \<le> \<bar>d\<bar> div ns_per_s"
      using assms ns_per_s_pos by (intro zdiv_mono1) auto
    then show ?thesis
      unfolding seconds_parts using 2 assms ns_per_s_pos by (auto simp: sgn_if pos_imp_zdiv_nonneg_iff)
  next
    case 3
    then show ?thesis using sec_nsec_nonpos(1) [of d] sec_nsec_nonneg(1) [of d'] by linarith
  qed
qed

lemma seconds_zero [simp]: "float_ok fe \<Longrightarrow> seconds fe 0 = 0"
  by (simp add: seconds_def seconds_parts Let_def float_okD)

lemma seconds_nonneg:
  assumes "float_ok fe" and "0 \<le> d"
  shows "0 \<le> seconds fe d"
proof -
  have "0 \<le> fl_round fe (real_of_int (d smod ns_per_s) / 1000000000)"
    using assms sec_nsec_nonneg(2) [of d] by (intro fl_round_nonneg) auto
  then show ?thesis
    unfolding seconds_def Let_def using assms sec_nsec_nonneg(1) [of d]
    by (intro fl_round_nonneg) auto
qed

lemma seconds_mono:
  assumes ok: "float_ok fe" and le: "d \<le> d'"
  shows "seconds fe d \<le> seconds fe d'"
proof -
  let ?q = "\<lambda>d. d sdiv ns_per_s" and ?r = "\<lambda>d. d smod ns_per_s"
  let ?f = "\<lambda>d. fl_round fe (real_of_int (?r d) / 1000000000)"
  have f_le: "?f x \<le> 1" and f_ge: "- 1 \<le> ?f x" for x
    using nsec_bounds [of x] ok by (auto intro!: fl_round_le_1 fl_round_ge_m1)
  have f_nonneg: "0 \<le> x \<Longrightarrow> 0 \<le> ?f x" and f_nonpos: "x \<le> 0 \<Longrightarrow> ?f x \<le> 0" for x
    using ok sec_nsec_nonneg(2) [of x] sec_nsec_nonpos(2) [of x]
    by (auto intro!: fl_round_nonneg fl_round_nonpos)
  have q_mono: "?q d \<le> ?q d'"
    using le by (rule sec_mono)
  have "real_of_int (?q d) + ?f d \<le> real_of_int (?q d') + ?f d'"
  proof (cases "?q d = ?q d'")
    case True
    have "?r d \<le> ?r d'"
    proof -
      have "d = ns_per_s * ?q d + ?r d" "d' = ns_per_s * ?q d' + ?r d'"
        by (simp_all add: mult_sdiv_smod_eq)
      with True le show ?thesis by simp
    qed
    with True ok show ?thesis by (auto intro!: float_okD(1) divide_right_mono)
  next
    case False
    with q_mono have step: "?q d + 1 \<le> ?q d'" by simp
    consider "0 \<le> d" | "d \<le> 0" "d' \<le> 0" | "d \<le> 0" "0 \<le> d'" using le by linarith
    then show ?thesis
    proof cases
      case 1
      with le have "0 \<le> ?f d'" by (intro f_nonneg) simp
      moreover have "real_of_int (?q d) + 1 \<le> real_of_int (?q d')" using step by linarith
      ultimately show ?thesis using f_le [of d] by linarith
    next
      case 2
      have "?f d \<le> 0" using 2 by (intro f_nonpos) simp
      moreover have "real_of_int (?q d) + 1 \<le> real_of_int (?q d')" using step by linarith
      ultimately show ?thesis using f_ge [of d'] by linarith
    next
      case 3
      have "?f d \<le> 0" "0 \<le> ?f d'" using 3 by (auto intro: f_nonpos f_nonneg)
      moreover have "real_of_int (?q d) \<le> real_of_int (?q d')" using q_mono by simp
      ultimately show ?thesis by linarith
    qed
  qed
  then show ?thesis unfolding seconds_def Let_def by (intro float_okD(1) [OF ok])
qed

text \<open>
  One instance of the environment: exact arithmetic and logarithm, with a piecewise linear curve of
  the right shape for \<^verbatim>\<open>math.Erfc\<close>. It shows that the facts of \<open>float_ok\<close> can hold together and lets closed
  instances of the numeric properties compute.
\<close>

definition exact_env :: float_env where
  "exact_env = \<lparr>fl_round = (\<lambda>x. x), fl_erfc = (\<lambda>x. if x \<le> 0 then 1 else max 0 (1 - x)),
     fl_log10 = log 10\<rparr>"

lemma exact_env_sel [simp]:
  "fl_round exact_env = (\<lambda>x. x)" "fl_log10 exact_env = log 10"
  "x \<le> 0 \<Longrightarrow> fl_erfc exact_env x = 1" "1 \<le> x \<Longrightarrow> fl_erfc exact_env x = 0"
  by (auto simp: exact_env_def)

lemma exact_env_ok: "float_ok exact_env"
  by (auto simp: float_ok_def exact_env_def mono_def antimono_def)

section \<open>Errors\<close>

datatype grpc_code =
    OK | Canceled | Unknown | InvalidArgument | DeadlineExceeded | NotFound | AlreadyExists
  | PermissionDenied | ResourceExhausted | FailedPrecondition | Aborted | OutOfRange
  | Unimplemented | Internal | Unavailable | DataLoss | Unauthenticated | OtherCode uint32

datatype go_error = GoError (err_code: grpc_code) (err_format: string) (err_args: "fmt_arg list")
  and fmt_arg = ArgString string | ArgInt int | ArgErr go_error

text \<open>\<^verbatim>\<open>status.Code(err)\<close> of a call's error result, where \<^verbatim>\<open>nil\<close> is \<open>None\<close>.\<close>

definition status_code :: "go_error option \<Rightarrow> grpc_code" where
  "status_code e = (case e of None \<Rightarrow> OK | Some err \<Rightarrow> err_code err)"

lemma status_code_simps [simp]:
  "status_code None = OK" "status_code (Some e) = err_code e"
  by (auto simp: status_code_def)

text \<open>Why a context is done, and the error \<^verbatim>\<open>status.FromContextError(ctx.Err()).Err()\<close>.\<close>

datatype ctx_err = CtxCanceled | CtxDeadlineExceeded

fun from_context_error :: "ctx_err \<Rightarrow> go_error" where
  "from_context_error CtxCanceled = GoError Canceled ''context canceled'' []"
| "from_context_error CtxDeadlineExceeded = GoError DeadlineExceeded ''context deadline exceeded'' []"

end
