(* ===== verification/Fact_Store.thy ===== *)
theory Fact_Store
  imports Go_Runtime
begin

text \<open>
  The domain model of a worker (\<^verbatim>\<open>internal/registry/registry.go\<close>) and the interface of the fact
  store: what the control-plane server and the failure detector rely on when they register,
  deregister, heartbeat and list workers. The laws speak of the store only through its lookup map.
\<close>

section \<open>Types\<close>

datatype worker_state = StateAlive | StateSuspect | StateDead

text \<open>The Go type is an integer counted up by \<^verbatim>\<open>iota\<close>: the order of the states.\<close>

fun state_iota :: "worker_state \<Rightarrow> int" where
  "state_iota StateAlive = 0"
| "state_iota StateSuspect = 1"
| "state_iota StateDead = 2"

instantiation worker_state :: linorder
begin

definition less_eq_worker_state :: "worker_state \<Rightarrow> worker_state \<Rightarrow> bool" where
  "less_eq_worker_state s t \<longleftrightarrow> state_iota s \<le> state_iota t"

definition less_worker_state :: "worker_state \<Rightarrow> worker_state \<Rightarrow> bool" where
  "less_worker_state s t \<longleftrightarrow> state_iota s < state_iota t"

instance
proof
  fix s t :: worker_state
  show "s \<le> t \<Longrightarrow> t \<le> s \<Longrightarrow> s = t"
    by (cases s; cases t) (auto simp: less_eq_worker_state_def)
qed (auto simp: less_eq_worker_state_def less_worker_state_def)

end

lemma worker_state_le_simps [simp]:
  "StateAlive \<le> s" "s \<le> StateDead" "StateSuspect \<le> StateAlive \<longleftrightarrow> False"
  "StateDead \<le> StateSuspect \<longleftrightarrow> False" "StateDead \<le> StateAlive \<longleftrightarrow> False"
  by (cases s; simp add: less_eq_worker_state_def)+

record worker_info =
  ID :: string
  Addr :: string
  Capacity :: uint32
  Load :: real
  LastSeen :: time

text \<open>What \<^verbatim>\<open>Register\<close> stores: the struct literal leaves \<^verbatim>\<open>Load\<close> at its zero value.\<close>

definition fresh_info :: "string \<Rightarrow> string \<Rightarrow> uint32 \<Rightarrow> time \<Rightarrow> worker_info" where
  "fresh_info wid addr capacity now =
     \<lparr>ID = wid, Addr = addr, Capacity = capacity, Load = 0, LastSeen = now\<rparr>"

lemma fresh_info_sel [simp]:
  "ID (fresh_info i a c t) = i" "Addr (fresh_info i a c t) = a"
  "Capacity (fresh_info i a c t) = c" "Load (fresh_info i a c t) = 0"
  "LastSeen (fresh_info i a c t) = t"
  by (simp_all add: fresh_info_def)

section \<open>The interface\<close>

locale fact_store =
  fixes put :: "string \<Rightarrow> string \<Rightarrow> uint32 \<Rightarrow> time \<Rightarrow> 's \<Rightarrow> 's"
    and remove :: "string \<Rightarrow> 's \<Rightarrow> bool \<times> 's"
    and beat :: "string \<Rightarrow> real \<Rightarrow> time \<Rightarrow> 's \<Rightarrow> bool \<times> 's"
    and snapshot :: "string list \<Rightarrow> 's \<Rightarrow> worker_info list"
    and lookup :: "'s \<Rightarrow> string \<rightharpoonup> worker_info"
    and wf :: "'s \<Rightarrow> bool"
  assumes lookup_put: "lookup (put wid addr c now s) = (lookup s)(wid \<mapsto> fresh_info wid addr c now)"
    and remove_fst: "fst (remove wid s) \<longleftrightarrow> wid \<in> dom (lookup s)"
    and lookup_remove: "lookup (snd (remove wid s)) = (lookup s)(wid := None)"
    and beat_fst: "fst (beat wid l now s) \<longleftrightarrow> wid \<in> dom (lookup s)"
    and lookup_beat: "lookup (snd (beat wid l now s)) =
       (case lookup s wid of None \<Rightarrow> lookup s
        | Some w \<Rightarrow> (lookup s)(wid \<mapsto> w\<lparr>Load := l, LastSeen := now\<rparr>))"
    and snapshot_values: "snapshot ks s = range_values (lookup s) ks"
    and wf_ids: "wf s \<Longrightarrow> lookup s wid = Some w \<Longrightarrow> ID w = wid"
    and wf_put: "wf s \<Longrightarrow> wf (put wid addr c now s)"
    and wf_remove: "wf s \<Longrightarrow> wf (snd (remove wid s))"
    and wf_beat: "wf s \<Longrightarrow> wf (snd (beat wid l now s))"
begin

text \<open>A snapshot lists every registered worker once, under its own id.\<close>

lemma snapshot_ids: "wf s \<Longrightarrow> iterates (lookup s) ks \<Longrightarrow> map ID (snapshot ks s) = ks"
  by (simp add: snapshot_values map_key_range_values_iterates wf_ids)

lemma snapshot_distinct: "wf s \<Longrightarrow> iterates (lookup s) ks \<Longrightarrow> distinct (map ID (snapshot ks s))"
  by (simp add: snapshot_ids iterates_distinct)

lemma snapshot_mem:
  "wf s \<Longrightarrow> iterates (lookup s) ks \<Longrightarrow> w \<in> set (snapshot ks s) \<longleftrightarrow> lookup s (ID w) = Some w"
  by (auto simp: snapshot_values set_range_values_iterates ran_def dest: wf_ids)

text \<open>Removing is idempotent; a heartbeat never brings a removed worker back.\<close>

lemma remove_twice:
  "fst (remove wid (snd (remove wid s))) = False"
  "lookup (snd (remove wid (snd (remove wid s)))) = lookup (snd (remove wid s))"
  by (auto simp: remove_fst lookup_remove)

lemma beat_dom: "dom (lookup (snd (beat wid l now s))) = dom (lookup s)"
  by (auto simp: lookup_beat split: option.splits if_splits)

lemma beat_after_remove:
  "fst (beat wid l now (snd (remove wid s))) = False"
  "lookup (snd (beat wid l now (snd (remove wid s)))) = lookup (snd (remove wid s))"
  by (auto simp: beat_fst lookup_remove lookup_beat)

lemma beat_after_put: "fst (beat wid l now (put wid addr c t s))"
  by (simp add: beat_fst lookup_put)

text \<open>Evicting a list of workers, in order.\<close>

lemma lookup_evict:
  "lookup (fold (\<lambda>wid s. snd (remove wid s)) ids s) = lookup s |` (- set ids)"
  by (induction ids arbitrary: s)
     (auto simp: lookup_remove restrict_map_def fun_eq_iff)

lemma wf_evict: "wf s \<Longrightarrow> wf (fold (\<lambda>wid s. snd (remove wid s)) ids s)"
  by (induction ids arbitrary: s) (auto intro: wf_remove)

end

end
