(* ===== verification/Registry.thy ===== *)
theory Registry
  imports Fact_Store
begin

text \<open>
  The worker registry (\<^verbatim>\<open>internal/registry/registry.go\<close>): a mutex-guarded map from worker ids to
  worker records. Every method takes the mutex for its whole body, so each is one atomic step on
  the record \<open>worker_registry\<close>. The server's clock at the call is the argument \<open>now\<close>, and the
  order in which \<^verbatim>\<open>ListWorkers\<close> walks the map is the argument \<open>ks\<close>.
\<close>

record worker_registry =
  workers :: "string \<rightharpoonup> worker_info"

definition NewWorkerRegistry :: worker_registry where
  "NewWorkerRegistry = \<lparr>workers = Map.empty\<rparr>"

definition Register :: "string \<Rightarrow> string \<Rightarrow> uint32 \<Rightarrow> time \<Rightarrow> worker_registry \<Rightarrow> worker_registry" where
  "Register wid addr capacity now r =
     r\<lparr>workers := (workers r)(wid \<mapsto>
        \<lparr>ID = wid, Addr = addr, Capacity = capacity, Load = 0, LastSeen = now\<rparr>)\<rparr>"

definition Deregister :: "string \<Rightarrow> worker_registry \<Rightarrow> bool \<times> worker_registry" where
  "Deregister wid r =
     (let existed = (workers r wid \<noteq> None)
      in (existed, r\<lparr>workers := (workers r)(wid := None)\<rparr>))"

definition Heartbeat :: "string \<Rightarrow> real \<Rightarrow> time \<Rightarrow> worker_registry \<Rightarrow> bool \<times> worker_registry" where
  "Heartbeat wid load now r =
     (case workers r wid of
        Some w \<Rightarrow> (True, r\<lparr>workers := (workers r)(wid \<mapsto> w\<lparr>Load := load, LastSeen := now\<rparr>)\<rparr>)
      | None \<Rightarrow> (False, r))"

definition ListWorkers :: "string list \<Rightarrow> worker_registry \<Rightarrow> worker_info list" where
  "ListWorkers ks r = range_values (workers r) ks"

text \<open>
  Well-formedness: finitely many workers, each stored under its own id.
\<close>

definition reg_wf :: "worker_registry \<Rightarrow> bool" where
  "reg_wf r \<longleftrightarrow> finite (dom (workers r)) \<and> (\<forall>wid w. workers r wid = Some w \<longrightarrow> ID w = wid)"

lemma reg_wf_new [simp]: "reg_wf NewWorkerRegistry"
  by (simp add: reg_wf_def NewWorkerRegistry_def)

lemma reg_wf_iterates: "reg_wf r \<Longrightarrow> \<exists>ks. iterates (workers r) ks"
  by (simp add: reg_wf_def iterates_exists)

lemma workers_Register [simp]:
  "workers (Register wid addr c now r) = (workers r)(wid \<mapsto> fresh_info wid addr c now)"
  by (simp add: Register_def fresh_info_def)

lemma Deregister_eq:
  "Deregister wid r = (wid \<in> dom (workers r), r\<lparr>workers := (workers r)(wid := None)\<rparr>)"
  by (auto simp: Deregister_def)

lemma workers_Deregister [simp]: "workers (snd (Deregister wid r)) = (workers r)(wid := None)"
  by (simp add: Deregister_eq)

lemma fst_Deregister [simp]: "fst (Deregister wid r) \<longleftrightarrow> wid \<in> dom (workers r)"
  by (simp add: Deregister_eq)

lemma Heartbeat_known:
  "workers r wid = Some w \<Longrightarrow>
     Heartbeat wid l now r = (True, r\<lparr>workers := (workers r)(wid \<mapsto> w\<lparr>Load := l, LastSeen := now\<rparr>)\<rparr>)"
  by (simp add: Heartbeat_def)

lemma Heartbeat_unknown: "workers r wid = None \<Longrightarrow> Heartbeat wid l now r = (False, r)"
  by (simp add: Heartbeat_def)

interpretation reg: fact_store Register Deregister Heartbeat ListWorkers workers reg_wf
  by unfold_locales
     (auto simp: Heartbeat_def ListWorkers_def reg_wf_def split: option.splits if_splits)

text \<open>The registry's invariants in the form the detector and the server use.\<close>

lemmas reg_wf_ops [simp, intro] = reg.wf_put reg.wf_remove reg.wf_beat

lemma ListWorkers_ids:
  "reg_wf r \<Longrightarrow> iterates (workers r) ks \<Longrightarrow> map ID (ListWorkers ks r) = ks"
  by (rule reg.snapshot_ids)

end
