(* ===== verification/Wire.thy ===== *)
theory Wire
  imports Go_Runtime
begin

text \<open>
  The protobuf messages (\<^verbatim>\<open>gen/inference/v1/inference.pb.go\<close>): one record per message, a field per
  proto field. A message the handlers receive is never \<^verbatim>\<open>nil\<close>, so its getters are the record's
  selectors; the one nested message, \<^verbatim>\<open>HeartbeatRequest.load\<close>, may be absent, and its getters are
  the \<^verbatim>\<open>nil\<close>-safe ones. The bookkeeping fields protobuf adds (\<^verbatim>\<open>state\<close>, \<^verbatim>\<open>unknownFields\<close>,
  \<^verbatim>\<open>sizeCache\<close>) carry no data of the program.
\<close>

record inference_request =
  req_RequestId :: string
  req_Prompt :: string
  req_MaxTokens :: uint32

record inference_response =
  resp_RequestId :: string
  resp_Output :: string
  resp_WorkerId :: string

record worker_load =
  ActiveRequests :: uint32

record register_request =
  reg_WorkerId :: string
  reg_Address :: string
  reg_Capacity :: uint32

record register_response =
  HeartbeatIntervalMs :: go_int64

record heartbeat_request =
  hb_WorkerId :: string
  hb_Load :: "worker_load option"

text \<open>The wire's \<^verbatim>\<open>WorkerInfo\<close>: what the gateway needs to route.\<close>

record wire_worker =
  wi_WorkerId :: string
  wi_Address :: string

record deregister_request =
  dereg_WorkerId :: string

record list_workers_response =
  lw_Workers :: "wire_worker list"

definition GetActiveRequests :: "worker_load option \<Rightarrow> uint32" where
  "GetActiveRequests x = (case x of Some l \<Rightarrow> ActiveRequests l | None \<Rightarrow> 0)"

lemma GetActiveRequests_simps [simp]:
  "GetActiveRequests None = 0" "GetActiveRequests (Some l) = ActiveRequests l"
  by (auto simp: GetActiveRequests_def)

end
