(* ===== verification/Server.thy ===== *)
theory Server
  imports Registry Wire
begin

text \<open>
  The control plane's gRPC service (\<^verbatim>\<open>internal/controlplane/server.go\<close>): it translates wire
  messages to registry calls and back. A handler returns a response or a \<^verbatim>\<open>status\<close> error together
  with the registry after the call. Logging is left out.
\<close>

definition heartbeatIntervalMs :: go_int64 where
  "heartbeatIntervalMs = 1000"

definition srv_Register ::
  "time \<Rightarrow> register_request \<Rightarrow> worker_registry \<Rightarrow> (go_error + register_response) \<times> worker_registry" where
  "srv_Register now req r =
     (Inr \<lparr>HeartbeatIntervalMs = heartbeatIntervalMs\<rparr>,
      Register (reg_WorkerId req) (reg_Address req) (reg_Capacity req) now r)"

definition to_wire :: "worker_info \<Rightarrow> wire_worker" where
  "to_wire w = \<lparr>wi_WorkerId = ID w, wi_Address = Addr w\<rparr>"

definition srv_ListWorkers :: "string list \<Rightarrow> worker_registry \<Rightarrow> go_error + list_workers_response" where
  "srv_ListWorkers ks r = Inr \<lparr>lw_Workers = map to_wire (ListWorkers ks r)\<rparr>"

definition srv_Heartbeat ::
  "time \<Rightarrow> heartbeat_request \<Rightarrow> worker_registry \<Rightarrow> (go_error + unit) \<times> worker_registry" where
  "srv_Heartbeat now req r =
     (let load = real (unat (GetActiveRequests (hb_Load req)));
          (found, r') = Heartbeat (hb_WorkerId req) load now r
      in if \<not> found
         then (Inl (GoError NotFound ''unknown worker_id %q; re-register'' [ArgString (hb_WorkerId req)]), r')
         else (Inr (), r'))"

definition srv_Deregister ::
  "deregister_request \<Rightarrow> worker_registry \<Rightarrow> (go_error + unit) \<times> worker_registry" where
  "srv_Deregister req r = (Inr (), snd (Deregister (dereg_WorkerId req) r))"

lemma to_wire_sel [simp]: "wi_WorkerId (to_wire w) = ID w" "wi_Address (to_wire w) = Addr w"
  by (simp_all add: to_wire_def)

lemma srv_Heartbeat_unknown:
  "workers r (hb_WorkerId req) = None \<Longrightarrow>
     srv_Heartbeat now req r =
       (Inl (GoError NotFound ''unknown worker_id %q; re-register'' [ArgString (hb_WorkerId req)]), r)"
  by (simp add: srv_Heartbeat_def Heartbeat_unknown)

lemma srv_Heartbeat_known:
  "workers r (hb_WorkerId req) = Some w \<Longrightarrow>
     srv_Heartbeat now req r =
       (Inr (), r\<lparr>workers := (workers r)(hb_WorkerId req \<mapsto>
          w\<lparr>Load := real (unat (GetActiveRequests (hb_Load req))), LastSeen := now\<rparr>)\<rparr>)"
  by (simp add: srv_Heartbeat_def Heartbeat_known)

lemma srv_Heartbeat_code:
  "status_code (case fst (srv_Heartbeat now req r) of Inl e \<Rightarrow> Some e | Inr _ \<Rightarrow> None)
     = (if hb_WorkerId req \<in> dom (workers r) then OK else NotFound)"
  by (auto simp: srv_Heartbeat_unknown srv_Heartbeat_known dom_def
      split: option.splits sum.splits)

lemma snd_srv_Heartbeat:
  "snd (srv_Heartbeat now req r) =
     snd (Heartbeat (hb_WorkerId req) (real (unat (GetActiveRequests (hb_Load req)))) now r)"
  by (simp add: srv_Heartbeat_def Let_def split: prod.split)

lemma srv_wf [simp, intro]:
  "reg_wf r \<Longrightarrow> reg_wf (snd (srv_Register now rq r))"
  "reg_wf r \<Longrightarrow> reg_wf (snd (srv_Heartbeat now hq r))"
  "reg_wf r \<Longrightarrow> reg_wf (snd (srv_Deregister dq r))"
  by (auto simp: srv_Register_def snd_srv_Heartbeat srv_Deregister_def)

text \<open>The ids on the wire are the ids registered, each once.\<close>

lemma srv_ListWorkers_ids:
  assumes "reg_wf r" and "iterates (workers r) ks"
  shows "srv_ListWorkers ks r = Inr \<lparr>lw_Workers = map to_wire (ListWorkers ks r)\<rparr>"
    and "map wi_WorkerId (map to_wire (ListWorkers ks r)) = ks"
  using ListWorkers_ids [OF assms] by (simp_all add: srv_ListWorkers_def comp_def)

section \<open>Properties\<close>

definition ex_reg_request :: register_request where
  "ex_reg_request = \<lparr>reg_WorkerId = ''w1'', reg_Address = ''host:1'', reg_Capacity = 10\<rparr>"

text \<open>
  C36. What is registered is listed: after \<^verbatim>\<open>Register\<close>, \<^verbatim>\<open>ListWorkers\<close> returns the worker's id with the address it
  registered, and every registered id exactly once, whatever order the walk of the map takes. A second
  registration of the same id replaces the address.
\<close>

theorem registered_is_listed:
  assumes "reg_wf r" and "r' = snd (srv_Register now req r)" and "iterates (workers r') ks"
  shows "\<exists>ws. srv_ListWorkers ks r' = Inr \<lparr>lw_Workers = ws\<rparr>
     \<and> \<lparr>wi_WorkerId = reg_WorkerId req, wi_Address = reg_Address req\<rparr> \<in> set ws
     \<and> distinct (map wi_WorkerId ws)
     \<and> wi_WorkerId ` set ws = insert (reg_WorkerId req) (dom (workers r))"
proof -
  have wf: "reg_wf r'" using assms(1,2) by simp
  have w: "workers r' = (workers r)(reg_WorkerId req \<mapsto>
      fresh_info (reg_WorkerId req) (reg_Address req) (reg_Capacity req) now)"
    using assms(2) by (simp add: srv_Register_def)
  let ?i = "fresh_info (reg_WorkerId req) (reg_Address req) (reg_Capacity req) now"
  let ?ws = "map to_wire (ListWorkers ks r')"
  have ids: "map wi_WorkerId ?ws = ks" by (rule srv_ListWorkers_ids(2) [OF wf assms(3)])
  have "?i \<in> set (ListWorkers ks r')" using reg.snapshot_mem [OF wf assms(3), of ?i] w by simp
  then have "to_wire ?i \<in> set ?ws" by simp
  moreover have "to_wire ?i = \<lparr>wi_WorkerId = reg_WorkerId req, wi_Address = reg_Address req\<rparr>"
    by (simp add: to_wire_def)
  moreover have "distinct (map wi_WorkerId ?ws)" using ids assms(3) by (simp only: iterates_distinct)
  moreover have "wi_WorkerId ` set ?ws = insert (reg_WorkerId req) (dom (workers r))"
  proof -
    have "wi_WorkerId ` set ?ws = set (map wi_WorkerId ?ws)" by (simp only: list.set_map)
    also have "\<dots> = dom (workers r')" unfolding ids using assms(3) by (simp add: iterates_def)
    finally show ?thesis by (simp add: w)
  qed
  ultimately show ?thesis unfolding srv_ListWorkers_def by metis
qed

theorem registered_is_listed_witness:
  "\<exists>ws. srv_ListWorkers [''w1''] (snd (srv_Register 5 ex_reg_request NewWorkerRegistry)) = Inr \<lparr>lw_Workers = ws\<rparr>
     \<and> \<lparr>wi_WorkerId = ''w1'', wi_Address = ''host:1''\<rparr> \<in> set ws"
  using registered_is_listed [OF reg_wf_new refl, of 5 ex_reg_request "[''w1'']"]
  by (auto simp: srv_Register_def NewWorkerRegistry_def ex_reg_request_def iterates_def)

text \<open>
  The contract of \<^verbatim>\<open>Heartbeat\<close>: an unknown worker gets \<^verbatim>\<open>NotFound\<close> and the registry stays as it is, so a
  heartbeat never brings an evicted worker back; a known one gets \<^verbatim>\<open>OK\<close>, its load and last-seen are
  replaced, its identity, address and capacity and every other worker stay.
\<close>

lemma heartbeat_contract:
  "(case srv_Heartbeat now req r of
      (Inl e, r') \<Rightarrow> hb_WorkerId req \<notin> dom (workers r) \<and> err_code e = NotFound \<and> r' = r
    | (Inr u, r') \<Rightarrow> (\<exists>w. workers r (hb_WorkerId req) = Some w
        \<and> workers r' = (workers r)(hb_WorkerId req \<mapsto>
            \<lparr>ID = ID w, Addr = Addr w, Capacity = Capacity w,
             Load = real (unat (GetActiveRequests (hb_Load req))), LastSeen = now\<rparr>)))"
proof (cases "workers r (hb_WorkerId req)")
  case None
  then show ?thesis by (simp add: srv_Heartbeat_unknown dom_def)
next
  case (Some w)
  then show ?thesis by (simp add: srv_Heartbeat_known) (cases w, simp)
qed

text \<open>
  \<^verbatim>\<open>Deregister\<close> is idempotent and final: it succeeds for known and unknown ids alike, a second one
  changes nothing more, the id is gone from the listing, every other worker stays, and the next
  heartbeat of that id is told to register again.
\<close>

lemma deregister_contract:
  "(let r' = snd (srv_Deregister dq r)
    in fst (srv_Deregister dq r) = Inr ()
     \<and> workers r' = (workers r)(dereg_WorkerId dq := None)
     \<and> srv_Deregister dq r' = (Inr (), r')
     \<and> (\<exists>e. srv_Heartbeat now \<lparr>hb_WorkerId = dereg_WorkerId dq, hb_Load = load\<rparr> r' = (Inl e, r')
          \<and> err_code e = NotFound))"
  by (simp add: srv_Deregister_def Deregister_eq Let_def srv_Heartbeat_unknown)

end
