(* ===== verification/Sliding_Window.thy ===== *)
theory Sliding_Window
  imports Go_Runtime "HOL-Library.Monad_Syntax"
begin

text \<open>
  The ring buffer of inter-arrival samples (\<^verbatim>\<open>slidingWindow\<close> in
  \<^verbatim>\<open>internal/detector/detector.go\<close>) and its contract: a window is the list of its latest
  samples, cut to its capacity. \<^verbatim>\<open>None\<close> is a run-time panic for the operations that construct or
  write, and the float value NaN for the ones that compute (0/0 on an empty window).
\<close>

section \<open>The contract\<close>

locale sample_window =
  fixes add :: "real \<Rightarrow> 'w \<Rightarrow> 'w option"
    and samples :: "'w \<Rightarrow> real list"
    and capacity :: "'w \<Rightarrow> nat"
    and wf :: "'w \<Rightarrow> bool"
  assumes add_ok: "wf w \<Longrightarrow> \<exists>w'. add x w = Some w' \<and> wf w' \<and> capacity w' = capacity w
       \<and> samples w' = take (capacity w) (x # samples w)"
    and samples_bounded: "wf w \<Longrightarrow> length (samples w) \<le> capacity w"
begin

fun add_all :: "real list \<Rightarrow> 'w \<Rightarrow> 'w option" where
  "add_all [] w = Some w"
| "add_all (x # xs) w = Option.bind (add x w) (add_all xs)"

text \<open>Whatever is pushed, the window holds the latest samples and nothing else.\<close>

lemma add_all_samples:
  "wf w \<Longrightarrow> \<exists>w'. add_all xs w = Some w' \<and> wf w' \<and> capacity w' = capacity w
     \<and> samples w' = take (capacity w) (rev xs @ samples w)"
proof (induction xs arbitrary: w)
  case Nil
  then show ?case using samples_bounded [of w] by simp
next
  case (Cons x xs)
  obtain w1 where w1: "add x w = Some w1" "wf w1" "capacity w1 = capacity w"
      "samples w1 = take (capacity w) (x # samples w)"
    using add_ok [OF Cons.prems, of x] by blast
  obtain w2 where "add_all xs w1 = Some w2" "wf w2" "capacity w2 = capacity w1"
      "samples w2 = take (capacity w1) (rev xs @ samples w1)"
    using Cons.IH [OF w1(2)] by blast
  moreover have "take (capacity w) (rev xs @ take (capacity w) (x # samples w))
      = take (capacity w) (rev (x # xs) @ samples w)"
    by (simp add: min_def)
  ultimately show ?case using w1 by (auto simp del: take_append)
qed

end

section \<open>The ring buffer\<close>

record sliding_window =
  win_buf :: "real list"
  win_head :: nat
  win_n :: nat

definition newSlidingWindow :: "int \<Rightarrow> sliding_window option" where
  "newSlidingWindow c =
     (if c < 0 then None
      else Some \<lparr>win_buf = replicate (nat c) 0, win_head = 0, win_n = 0\<rparr>)"

definition win_push :: "real \<Rightarrow> sliding_window \<Rightarrow> sliding_window option" where
  "win_push sample w =
     (if win_head w < length (win_buf w)
      then Some (w\<lparr>win_buf := (win_buf w)[win_head w := sample],
                   win_head := (win_head w + 1) mod length (win_buf w),
                   win_n := (if win_n w < length (win_buf w) then win_n w + 1 else win_n w)\<rparr>)
      else None)"

definition win_count :: "sliding_window \<Rightarrow> nat" where
  "win_count w = win_n w"

definition win_mean :: "float_env \<Rightarrow> sliding_window \<Rightarrow> real option" where
  "win_mean fe w =
     (let sum = foldl (\<lambda>sum i. fl_round fe (sum + win_buf w ! i)) 0 [0..<win_n w]
      in if win_n w = 0 then None else Some (fl_round fe (sum / real (win_n w))))"

definition win_variance :: "float_env \<Rightarrow> sliding_window \<Rightarrow> real option" where
  "win_variance fe w =
     (case win_mean fe w of
        None \<Rightarrow> None
      | Some m \<Rightarrow>
          (let ss = foldl (\<lambda>ss i. let d = fl_round fe (win_buf w ! i - m)
                                  in fl_round fe (ss + fl_round fe (d * d))) 0 [0..<win_n w]
           in Some (fl_round fe (ss / real (win_n w)))))"

text \<open>
  Well-formedness: the buffer is not empty, the write position is in it, and while the window is
  filling the write position is the number of samples.
\<close>

definition win_wf :: "sliding_window \<Rightarrow> bool" where
  "win_wf w \<longleftrightarrow> win_head w < length (win_buf w) \<and> win_n w \<le> length (win_buf w)
     \<and> (win_n w < length (win_buf w) \<longrightarrow> win_head w = win_n w)"

definition win_capacity :: "sliding_window \<Rightarrow> nat" where
  "win_capacity w = length (win_buf w)"

text \<open>The samples a window holds, latest first.\<close>

definition win_samples :: "sliding_window \<Rightarrow> real list" where
  "win_samples w =
     rev (if win_n w < length (win_buf w) then take (win_n w) (win_buf w)
          else rotate (win_head w) (win_buf w))"

lemma newSlidingWindow_ok:
  assumes "0 < c"
  shows "\<exists>w. newSlidingWindow c = Some w \<and> win_wf w \<and> win_capacity w = nat c \<and> win_samples w = []
     \<and> win_n w = 0"
  using assms by (simp add: newSlidingWindow_def win_wf_def win_capacity_def win_samples_def)

lemma length_win_samples: "win_wf w \<Longrightarrow> length (win_samples w) = win_n w"
  by (auto simp: win_samples_def win_wf_def)

lemma win_push_filling:
  assumes "win_wf w" and "win_n w < length (win_buf w)" and "win_push x w = Some w'"
  shows "win_samples w' = x # win_samples w"
proof -
  let ?b = "win_buf w" and ?n = "win_n w"
  have h: "win_head w = ?n" using assms by (simp add: win_wf_def)
  have upd: "take (Suc ?n) (?b[?n := x]) = take ?n ?b @ [x]"
    using assms(2) by (simp add: take_Suc_conv_app_nth)
  show ?thesis
  proof (cases "Suc ?n < length ?b")
    case True
    then show ?thesis using assms h upd by (auto simp: win_push_def win_samples_def)
  next
    case False
    then have "Suc ?n = length ?b" using assms(2) by simp
    then have "?b[?n := x] = take ?n ?b @ [x]" using upd by (metis length_list_update order_refl take_all)
    then show ?thesis
      using assms h \<open>Suc ?n = length ?b\<close> by (auto simp: win_push_def win_samples_def)
  qed
qed

lemma win_push_full:
  assumes "win_wf w" and "win_n w = length (win_buf w)" and "win_push x w = Some w'"
  shows "win_samples w' = x # butlast (win_samples w)"
proof -
  let ?b = "win_buf w" and ?h = "win_head w"
  have h: "?h < length ?b" using assms by (simp add: win_wf_def)
  have "rotate (Suc ?h) (?b[?h := x]) = rotate1 (rotate ?h (?b[?h := x]))" by simp
  also have "rotate ?h (?b[?h := x]) = x # drop (Suc ?h) ?b @ take ?h ?b"
  proof -
    have "drop ?h (?b[?h := x]) = x # drop (Suc ?h) ?b"
      using h by (metis Cons_nth_drop_Suc drop_update_cancel length_list_update lessI nth_list_update_eq)
    with h show ?thesis by (simp add: rotate_drop_take)
  qed
  also have "rotate1 (x # drop (Suc ?h) ?b @ take ?h ?b) = drop (Suc ?h) ?b @ take ?h ?b @ [x]"
    by simp
  finally have new: "rotate (Suc ?h) (?b[?h := x]) = drop (Suc ?h) ?b @ take ?h ?b @ [x]" .
  have "rotate ?h ?b = ?b ! ?h # drop (Suc ?h) ?b @ take ?h ?b"
    using h by (simp add: rotate_drop_take Cons_nth_drop_Suc)
  then have old: "win_samples w = rev (drop (Suc ?h) ?b @ take ?h ?b) @ [?b ! ?h]"
    using assms(2) by (simp add: win_samples_def)
  have "rotate (Suc ?h mod length ?b) (?b[?h := x]) = rotate (Suc ?h) (?b[?h := x])"
    using rotate_conv_mod [of "Suc ?h" "?b[?h := x]"] by (metis length_list_update)
  then have "win_samples w' = rev (rotate (Suc ?h) (?b[?h := x]))"
    using assms h by (auto simp: win_push_def win_samples_def)
  with new old show ?thesis by (simp add: butlast_append)
qed

lemma win_push_ok:
  assumes "win_wf w"
  shows "\<exists>w'. win_push x w = Some w' \<and> win_wf w' \<and> win_capacity w' = win_capacity w
     \<and> win_samples w' = take (win_capacity w) (x # win_samples w)"
proof -
  obtain w' where w': "win_push x w = Some w'"
    using assms by (auto simp: win_push_def win_wf_def)
  have pos: "0 < length (win_buf w)" using assms by (auto simp: win_wf_def)
  have wf': "win_wf w'" and cap: "win_capacity w' = win_capacity w"
    using assms w' mod_less_divisor [OF pos]
    by (auto simp: win_push_def win_wf_def win_capacity_def split: if_splits)
  have "win_samples w' = take (win_capacity w) (x # win_samples w)"
  proof (cases "win_n w < length (win_buf w)")
    case True
    then show ?thesis
      using win_push_filling [OF assms True w'] length_win_samples [OF assms]
      by (simp add: win_capacity_def)
  next
    case False
    then have full: "win_n w = length (win_buf w)" using assms by (simp add: win_wf_def)
    then obtain c where c: "length (win_buf w) = Suc c" "length (win_samples w) = Suc c"
      using assms length_win_samples [OF assms] by (cases "length (win_buf w)") (auto simp: win_wf_def)
    then show ?thesis
      using win_push_full [OF assms full w'] by (simp add: win_capacity_def butlast_conv_take)
  qed
  with w' wf' cap show ?thesis by blast
qed

interpretation window: sample_window win_push win_samples win_capacity win_wf
proof unfold_locales
  fix w :: sliding_window
  assume "win_wf w"
  then show "length (win_samples w) \<le> win_capacity w"
    by (simp add: length_win_samples) (simp add: win_wf_def win_capacity_def)
qed (rule win_push_ok)

lemma win_push_n:
  "win_wf w \<Longrightarrow> win_push x w = Some w' \<Longrightarrow> win_n w' = min (win_capacity w) (Suc (win_n w))"
  by (auto simp: win_push_def win_wf_def win_capacity_def min_def split: if_splits)

section \<open>Mean and variance\<close>

text \<open>
  The valid samples occupy the first \<open>win_n\<close> slots, in some order; sums over the slots are sums
  over the samples when no rounding takes place.
\<close>

lemma mset_win_samples: "win_wf w \<Longrightarrow> mset (take (win_n w) (win_buf w)) = mset (win_samples w)"
  by (auto simp: win_samples_def win_wf_def)

lemma foldl_sum_nth:
  "k \<le> length xs \<Longrightarrow> foldl (\<lambda>s i. s + f (xs ! i)) (0::real) [0..<k] = sum_list (map f (take k xs))"
  by (induction k) (auto simp: take_Suc_conv_app_nth)

lemma sum_slots_samples:
  assumes "win_wf w"
  shows "sum_list (map f (take (win_n w) (win_buf w))) = sum_list (map f (win_samples w) :: real list)"
proof -
  have "mset (map f (take (win_n w) (win_buf w))) = mset (map f (win_samples w))"
    using mset_win_samples [OF assms] by simp
  then show ?thesis by (metis sum_mset_sum_list)
qed

lemma win_mean_exact:
  assumes "fl_round fe = (\<lambda>x. x)" and "win_wf w" and "0 < win_n w"
  shows "win_mean fe w = Some (sum_list (win_samples w) / real (length (win_samples w)))"
  using assms foldl_sum_nth [of "win_n w" "win_buf w" "\<lambda>x. x"] sum_slots_samples [of w "\<lambda>x. x"]
  by (simp add: win_mean_def length_win_samples win_wf_def)

lemma win_variance_exact:
  assumes "fl_round fe = (\<lambda>x. x)" and "win_wf w" and "0 < win_n w"
  defines "m \<equiv> sum_list (win_samples w) / real (length (win_samples w))"
  shows "win_variance fe w
     = Some (sum_list (map (\<lambda>x. (x - m)\<^sup>2) (win_samples w)) / real (length (win_samples w)))"
  using assms foldl_sum_nth [of "win_n w" "win_buf w" "\<lambda>x. (x - m) * (x - m)"]
    sum_slots_samples [of w "\<lambda>x. (x - m) * (x - m)"] win_mean_exact [of fe w]
  by (simp add: win_variance_def length_win_samples win_wf_def power2_eq_square Let_def)

text \<open>Under rounding the variance is still never negative, and neither is NaN with a sample in.\<close>

lemma foldl_round_nonneg:
  assumes "float_ok fe" and "0 \<le> s"
  shows "0 \<le> foldl (\<lambda>ss i. let d = g i in fl_round fe (ss + fl_round fe (d * d))) s is"
  using assms(2)
proof (induction "is" arbitrary: s)
  case Nil
  then show ?case by simp
next
  case (Cons i "is")
  have "0 \<le> fl_round fe (s + fl_round fe (g i * g i))"
    using assms(1) Cons.prems by (intro fl_round_nonneg) (auto intro!: add_nonneg_nonneg fl_round_nonneg)
  from Cons.IH [OF this] show ?case by (simp add: Let_def)
qed

lemma win_variance_nonneg:
  assumes "float_ok fe" and "0 < win_n w"
  shows "\<exists>v. win_variance fe w = Some v \<and> 0 \<le> v"
proof -
  obtain m where m: "win_mean fe w = Some m" using assms(2) by (simp add: win_mean_def)
  let ?ss = "foldl (\<lambda>ss i. let d = fl_round fe (win_buf w ! i - m)
                in fl_round fe (ss + fl_round fe (d * d))) 0 [0..<win_n w]"
  have "0 \<le> ?ss"
    using foldl_round_nonneg [OF assms(1), of 0 "\<lambda>i. fl_round fe (win_buf w ! i - m)"] by simp
  then have "0 \<le> fl_round fe (?ss / real (win_n w))"
    using assms(1) by (intro fl_round_nonneg) auto
  with m show ?thesis by (simp add: win_variance_def)
qed

lemma win_mean_Some: "0 < win_n w \<Longrightarrow> \<exists>m. win_mean fe w = Some m"
  by (simp add: win_mean_def)

lemma window_keeps_latest_aux:
  assumes "0 < c" and "newSlidingWindow c = Some w0" and "window.add_all xs w0 = Some w"
  shows "win_samples w = take (nat c) (rev xs)" and "win_wf w"
proof -
  have w0: "win_wf w0" "win_capacity w0 = nat c" "win_samples w0 = []"
    using newSlidingWindow_ok [OF assms(1)] assms(2) by auto
  show "win_samples w = take (nat c) (rev xs)" "win_wf w"
    using window.add_all_samples [OF w0(1), of xs] w0(2,3) assms(3) by auto
qed

section \<open>Properties\<close>

text \<open>
  The ring buffer is a window on the latest samples: after any pushes into a new window of
  capacity \<open>c\<close>, no push has panicked, and it holds the last \<open>c\<close> samples, latest first, and counts them.
\<close>

lemma window_keeps_latest:
  assumes "0 < c"
  shows "\<exists>w0 w. newSlidingWindow c = Some w0 \<and> window.add_all xs w0 = Some w
     \<and> win_samples w = take (nat c) (rev xs) \<and> win_count w = min (nat c) (length xs) \<and> win_wf w"
proof -
  obtain w0 where w0: "newSlidingWindow c = Some w0" "win_wf w0"
    using newSlidingWindow_ok [OF assms] by blast
  obtain w where w: "window.add_all xs w0 = Some w" using window.add_all_samples [OF w0(2)] by blast
  note aux = window_keeps_latest_aux [OF assms w0(1) w]
  have "win_count w = min (nat c) (length xs)"
    using length_win_samples [OF aux(2)] aux(1) by (simp add: win_count_def)
  with w0(1) w aux show ?thesis by blast
qed

lemma window_keeps_latest_witness:
  "\<exists>w0 w. newSlidingWindow 3 = Some w0 \<and> window.add_all [1, 2, 3, 4, 5] w0 = Some w
     \<and> win_samples w = [5, 4, 3] \<and> win_count w = 3 \<and> win_wf w"
  using window_keeps_latest [of 3 "[1, 2, 3, 4, 5]"]
  by (simp add: eval_nat_numeral)

text \<open>
  Mean and variance are the statistics of exactly those samples: without rounding, after any pushes
  into a new window, \<^verbatim>\<open>mean\<close> is the average of the last \<open>c\<close> samples and \<^verbatim>\<open>variance\<close> the average squared
  distance from it; the scrambled order of a wrapped buffer does not matter.
\<close>

lemma window_statistics:
  assumes "fl_round fe = (\<lambda>x. x)" and "0 < c" and "xs \<noteq> []"
    and "newSlidingWindow c = Some w0" and "window.add_all xs w0 = Some w"
    and "latest = take (nat c) (rev xs)" and "m = sum_list latest / real (length latest)"
  shows "win_mean fe w = Some m
     \<and> win_variance fe w = Some (sum_list (map (\<lambda>x. (x - m)\<^sup>2) latest) / real (length latest))"
proof -
  have w: "win_samples w = latest" "win_wf w"
    using window_keeps_latest_aux [OF assms(2,4,5)] assms(6) by auto
  have "latest \<noteq> []" using assms(2,3,6) by simp
  then have "0 < win_n w" using length_win_samples [OF w(2)] w(1) by (metis length_greater_0_conv)
  then show ?thesis
    using win_mean_exact [OF assms(1) w(2)] win_variance_exact [OF assms(1) w(2)] w(1) assms(7) by simp
qed

lemma window_statistics_witness:
  "\<exists>w. win_mean exact_env w = Some 4 \<and> win_variance exact_env w = Some (2 / 3)"
proof -
  obtain w0 where w0: "newSlidingWindow 3 = Some w0" "win_wf w0"
    using newSlidingWindow_ok [of 3] by auto
  obtain w where w: "window.add_all [1, 2, 3, 4, 5] w0 = Some w"
    using window.add_all_samples [OF w0(2)] by blast
  have "fl_round exact_env = (\<lambda>x. x)" by simp
  from window_statistics [OF this _ _ w0(1) w refl refl] have "win_mean exact_env w = Some 4"
      "win_variance exact_env w = Some (2 / 3)"
    by (simp_all add: power2_eq_square eval_nat_numeral)
  then show ?thesis by blast
qed

text \<open>
  Rounding cannot break the standard deviation: on a window with a sample, under any rounding that is
  monotone and exact at zero, the mean exists and the variance is a number that is not negative, so
  \<^verbatim>\<open>math.Sqrt\<close> of it is never NaN.
\<close>

lemma variance_never_nan:
  assumes "float_ok fe" and "0 < win_n w"
  shows "\<exists>m v. win_mean fe w = Some m \<and> win_variance fe w = Some v \<and> 0 \<le> v"
  using win_variance_nonneg [OF assms] win_mean_Some [OF assms(2), of fe] by blast

end
