(* ===== verification/Detector.thy ===== *)
theory Detector
  imports Registry Sliding_Window
begin

text \<open>
  The phi-accrual failure detector (\<^verbatim>\<open>internal/detector/detector.go\<close>): the suspicion score of one
  worker, the ALIVE/SUSPECT/DEAD state machine, and one sweep \<^verbatim>\<open>scanOnce\<close> in its three phases
  (snapshot of the registry, judgement under the detector's lock, eviction and events outside it).
  This theory has the sweep as a function; \<open>Control_Plane\<close> interleaves its phases with the RPCs.

  \<open>None\<close> as the result of a scan is a run-time panic of the scanner; \<open>None\<close> as a score is NaN,
  whose comparisons are all false.
\<close>

section \<open>Data\<close>

definition maxPhi :: real where "maxPhi = 20"

definition minStdDevSeconds :: "float_env \<Rightarrow> real" where
  "minStdDevSeconds fe = fl_round fe (1 / 20)"

record config =
  PollInterval :: duration
  WindowSize :: int
  PhiSuspect :: real
  PhiDead :: real

record detector_entry =
  entry_state :: worker_state
  window :: sliding_window
  lastApplied :: time

record dead_event =
  WorkerID :: string
  At :: time

record detector =
  cfg :: config
  entries :: "string \<rightharpoonup> detector_entry"
  events :: "dead_event list"

definition events_capacity :: nat where "events_capacity = 64"

definition NewDetector :: "config \<Rightarrow> detector" where
  "NewDetector c = \<lparr>cfg = c, entries = Map.empty, events = []\<rparr>"

section \<open>The suspicion score\<close>

definition phi_of :: "float_env \<Rightarrow> real \<Rightarrow> real \<Rightarrow> real \<Rightarrow> real" where
  "phi_of fe t mean stdDev =
     (let z = fl_round fe (fl_round fe (t - mean) / fl_round fe (stdDev * fl_round fe (sqrt 2)));
          pLater = fl_round fe (1 / 2 * fl_erfc fe z)
      in if pLater \<le> 0 then maxPhi
         else (let phi = - fl_log10 fe pLater in if phi > maxPhi then maxPhi else phi))"

definition entry_phi :: "float_env \<Rightarrow> detector_entry \<Rightarrow> time \<Rightarrow> real option" where
  "entry_phi fe e now =
     (if win_count (window e) < 2 then Some 0
      else (let t = seconds fe (time_sub now (lastApplied e)) in
        do { mean \<leftarrow> win_mean fe (window e);
             variance \<leftarrow> win_variance fe (window e);
             let s = fl_round fe (sqrt variance);
                 stdDev = (if s < minStdDevSeconds fe then minStdDevSeconds fe else s)
             in Some (phi_of fe t mean stdDev) }))"

lemma phi_of_range:
  assumes "float_ok fe"
  shows "0 \<le> phi_of fe t m s" and "phi_of fe t m s \<le> maxPhi"
proof -
  define z where "z = fl_round fe (fl_round fe (t - m) / fl_round fe (s * fl_round fe (sqrt 2)))"
  define p where "p = fl_round fe (1 / 2 * fl_erfc fe z)"
  have eq: "phi_of fe t m s = (if p \<le> 0 then maxPhi else min maxPhi (- fl_log10 fe p))"
    by (auto simp: phi_of_def p_def z_def Let_def min_def)
  have "p \<le> 1"
    unfolding p_def using assms float_okD(8) [OF assms, of z] by (intro fl_round_le_1) auto
  then have "0 < p \<Longrightarrow> 0 \<le> - fl_log10 fe p"
    using float_okD(9) [OF assms, of p 1] float_okD(10) [OF assms] by simp
  then show "0 \<le> phi_of fe t m s" by (auto simp: eq maxPhi_def)
  show "phi_of fe t m s \<le> maxPhi" by (auto simp: eq maxPhi_def)
qed

lemma phi_divisor_pos:
  assumes ok: "float_ok fe" and floor: "minStdDevSeconds fe \<le> s"
  shows "0 < fl_round fe (s * fl_round fe (sqrt 2))"
proof -
  have "1 / 32 \<le> minStdDevSeconds fe"
    unfolding minStdDevSeconds_def using ok by (intro fl_round_ge_dyadic) auto
  moreover have "1 \<le> fl_round fe (sqrt 2)" using ok by (intro fl_round_ge_1) auto
  ultimately have "1 / 32 * 1 \<le> s * fl_round fe (sqrt 2)" using floor by (intro mult_mono) auto
  then show ?thesis using fl_round_ge_dyadic [OF ok] by fastforce
qed

text \<open>With a standard deviation at or above the floor, the score grows with the silence.\<close>

lemma phi_of_mono:
  assumes ok: "float_ok fe" and floor: "minStdDevSeconds fe \<le> s" and le: "t \<le> t'"
  shows "phi_of fe t m s \<le> phi_of fe t' m s"
proof -
  define d where "d = fl_round fe (s * fl_round fe (sqrt 2))"
  define z where "z = (\<lambda>t. fl_round fe (fl_round fe (t - m) / d))"
  define p where "p = (\<lambda>t. fl_round fe (1 / 2 * fl_erfc fe (z t)))"
  have eq: "phi_of fe u m s = (if p u \<le> 0 then maxPhi else min maxPhi (- fl_log10 fe (p u)))" for u
    by (auto simp: phi_of_def p_def z_def d_def Let_def min_def)
  have "0 < d" unfolding d_def by (rule phi_divisor_pos [OF ok floor])
  then have "z t \<le> z t'"
    unfolding z_def using ok le by (intro float_okD(1) divide_right_mono) auto
  then have "p t' \<le> p t"
    unfolding p_def using ok by (intro float_okD(1) mult_left_mono) (auto intro: float_okD(6))
  moreover from this have "0 < p t' \<Longrightarrow> fl_log10 fe (p t') \<le> fl_log10 fe (p t)"
    by (intro float_okD(9) [OF ok])
  ultimately show ?thesis by (auto simp: eq)
qed

lemma entry_phi_warm:
  assumes ok: "float_ok fe" and warm: "2 \<le> win_n (window e)"
  obtains m s where "minStdDevSeconds fe \<le> s"
    and "\<And>now. entry_phi fe e now = Some (phi_of fe (seconds fe (time_sub now (lastApplied e))) m s)"
proof -
  obtain m where m: "win_mean fe (window e) = Some m"
    using win_mean_Some [of "window e"] warm by auto
  obtain v where v: "win_variance fe (window e) = Some v"
    using win_variance_nonneg [OF ok, of "window e"] warm by auto
  let ?s = "max (minStdDevSeconds fe) (fl_round fe (sqrt v))"
  have "entry_phi fe e now = Some (phi_of fe (seconds fe (time_sub now (lastApplied e))) m ?s)" for now
    using m v warm by (auto simp: entry_phi_def win_count_def Let_def max_def)
  with that [of ?s m] show thesis by auto
qed

lemma entry_phi_cold [simp]: "win_n (window e) < 2 \<Longrightarrow> entry_phi fe e now = Some 0"
  by (simp add: entry_phi_def win_count_def)

section \<open>The state machine\<close>

definition fl_gt :: "real option \<Rightarrow> real \<Rightarrow> bool" where
  "fl_gt p x \<longleftrightarrow> (case p of None \<Rightarrow> False | Some v \<Rightarrow> v > x)"

definition fl_le :: "real option \<Rightarrow> real \<Rightarrow> bool" where
  "fl_le p x \<longleftrightarrow> (case p of None \<Rightarrow> False | Some v \<Rightarrow> v \<le> x)"

lemma fl_cmp_simps [simp]: "fl_gt (Some v) x \<longleftrightarrow> x < v" "fl_le (Some v) x \<longleftrightarrow> v \<le> x"
  "\<not> fl_gt None x" "\<not> fl_le None x"
  by (auto simp: fl_gt_def fl_le_def)

fun next_state :: "config \<Rightarrow> worker_state \<Rightarrow> real option \<Rightarrow> worker_state" where
  "next_state c StateAlive phi =
     (if fl_gt phi (PhiDead c) then StateDead
      else if fl_gt phi (PhiSuspect c) then StateSuspect else StateAlive)"
| "next_state c StateSuspect phi =
     (if fl_gt phi (PhiDead c) then StateDead
      else if fl_le phi (PhiSuspect c) then StateAlive else StateSuspect)"
| "next_state c StateDead phi = StateDead"

lemma next_state_dead_iff:
  "next_state c st phi = StateDead \<longleftrightarrow> st = StateDead \<or> fl_gt phi (PhiDead c)"
  by (cases st) auto

text \<open>
  The next state of a worker that is not dead depends on its score alone, and grows with it.
\<close>

lemma next_state_score:
  assumes "st \<noteq> StateDead"
  shows "next_state c st (Some v) =
     (if PhiDead c < v then StateDead else if PhiSuspect c < v then StateSuspect else StateAlive)"
  using assms by (cases st) auto

lemma next_state_mono:
  "st \<noteq> StateDead \<Longrightarrow> v \<le> v' \<Longrightarrow> next_state c st (Some v) \<le> next_state c st (Some v')"
  by (auto simp: next_state_score)

section \<open>One sweep\<close>

text \<open>Phase 2, the body of the loop: a new arrival is folded in, then the worker is judged.\<close>

definition fold_arrival :: "float_env \<Rightarrow> worker_info \<Rightarrow> detector_entry \<Rightarrow> detector_entry option" where
  "fold_arrival fe w e =
     (if time_after (LastSeen w) (lastApplied e)
      then (let gap = seconds fe (time_sub (LastSeen w) (lastApplied e)) in
        do { win \<leftarrow> win_push gap (window e);
             Some (e\<lparr>window := win, lastApplied := LastSeen w\<rparr>) })
      else Some e)"

record scan_acc =
  acc_entries :: "string \<rightharpoonup> detector_entry"
  acc_seen :: "string set"
  acc_deaths :: "dead_event list"

definition scan_worker ::
  "float_env \<Rightarrow> config \<Rightarrow> time \<Rightarrow> worker_info \<Rightarrow> scan_acc \<Rightarrow> scan_acc option" where
  "scan_worker fe c now w a =
     (let a1 = a\<lparr>acc_seen := insert (ID w) (acc_seen a)\<rparr> in
      case acc_entries a1 (ID w) of
        None \<Rightarrow>
          do { win \<leftarrow> newSlidingWindow (WindowSize c);
               Some (a1\<lparr>acc_entries := (acc_entries a1)(ID w \<mapsto>
                 \<lparr>entry_state = StateAlive, window = win, lastApplied = LastSeen w\<rparr>)\<rparr>) }
      | Some e \<Rightarrow>
          do { e1 \<leftarrow> fold_arrival fe w e;
               let phi = entry_phi fe e1 now;
                   e2 = e1\<lparr>entry_state := next_state c (entry_state e1) phi\<rparr>;
                   a2 = a1\<lparr>acc_entries := (acc_entries a1)(ID w \<mapsto> e2)\<rparr>
               in Some (if entry_state e2 = StateDead
                        then a2\<lparr>acc_deaths := acc_deaths a2 @ [\<lparr>WorkerID = ID w, At = now\<rparr>],
                                acc_entries := (acc_entries a2)(ID w := None)\<rparr>
                        else a2) })"

fun scan_loop ::
  "float_env \<Rightarrow> config \<Rightarrow> time \<Rightarrow> worker_info list \<Rightarrow> scan_acc \<Rightarrow> scan_acc option" where
  "scan_loop fe c now [] a = Some a"
| "scan_loop fe c now (w # ws) a = Option.bind (scan_worker fe c now w a) (scan_loop fe c now ws)"

text \<open>Phase 2 with the reaping of entries whose worker is no longer registered.\<close>

definition scan_judge ::
  "float_env \<Rightarrow> config \<Rightarrow> time \<Rightarrow> worker_info list \<Rightarrow> (string \<rightharpoonup> detector_entry)
     \<Rightarrow> ((string \<rightharpoonup> detector_entry) \<times> dead_event list) option" where
  "scan_judge fe c now snapshot ents =
     do { a \<leftarrow> scan_loop fe c now snapshot \<lparr>acc_entries = ents, acc_seen = {}, acc_deaths = []\<rparr>;
          Some (acc_entries a |` acc_seen a, acc_deaths a) }"

text \<open>
  Phase 3: evict, then send. The third component holds the events not delivered yet: it is not
  empty when the channel is full, and then the scanner blocks on its first event, whose worker
  is already evicted.
\<close>

fun scan_emit ::
  "dead_event list \<Rightarrow> worker_registry \<Rightarrow> dead_event list
     \<Rightarrow> worker_registry \<times> dead_event list \<times> dead_event list" where
  "scan_emit [] r ch = (r, ch, [])"
| "scan_emit (ev # evs) r ch =
     (let r' = snd (Deregister (WorkerID ev) r)
      in case chan_send events_capacity ev ch of
           None \<Rightarrow> (r', ch, ev # evs)
         | Some ch' \<Rightarrow> scan_emit evs r' ch')"

definition scanOnce ::
  "float_env \<Rightarrow> time \<Rightarrow> string list \<Rightarrow> worker_registry \<Rightarrow> detector
     \<Rightarrow> (worker_registry \<times> detector \<times> dead_event list) option" where
  "scanOnce fe now ks r d =
     (let snapshot = ListWorkers ks r in
      do { (ents, deaths) \<leftarrow> scan_judge fe (cfg d) now snapshot (entries d);
           let (r', ch, pending) = scan_emit deaths r (events d)
           in Some (r', d\<lparr>entries := ents, events := ch\<rparr>, pending) })"

section \<open>What a sweep does to one worker\<close>

text \<open>
  The specification of phase 2: what becomes of the entry of one registered worker, on its own.
  The result is the new entry, or \<open>None\<close> inside when the worker is declared dead.
\<close>

definition judge ::
  "float_env \<Rightarrow> config \<Rightarrow> time \<Rightarrow> worker_info \<Rightarrow> detector_entry option
     \<Rightarrow> detector_entry option option" where
  "judge fe c now w old =
     (case old of
        None \<Rightarrow> map_option (\<lambda>win. Some \<lparr>entry_state = StateAlive, window = win, lastApplied = LastSeen w\<rparr>)
                  (newSlidingWindow (WindowSize c))
      | Some e \<Rightarrow> map_option (\<lambda>e1. let st = next_state c (entry_state e1) (entry_phi fe e1 now)
                  in if st = StateDead then None else Some (e1\<lparr>entry_state := st\<rparr>))
                  (fold_arrival fe w e))"

definition entry_wf :: "config \<Rightarrow> detector_entry \<Rightarrow> bool" where
  "entry_wf c e \<longleftrightarrow> win_wf (window e) \<and> win_capacity (window e) = nat (WindowSize c)
     \<and> entry_state e \<noteq> StateDead"

definition entries_wf :: "config \<Rightarrow> (string \<rightharpoonup> detector_entry) \<Rightarrow> bool" where
  "entries_wf c ents \<longleftrightarrow> (\<forall>wid e. ents wid = Some e \<longrightarrow> entry_wf c e)"

lemma entries_wf_empty [simp]: "entries_wf c Map.empty"
  by (simp add: entries_wf_def)

lemma entries_wfD: "entries_wf c ents \<Longrightarrow> ents wid = Some e \<Longrightarrow> entry_wf c e"
  by (simp add: entries_wf_def)

lemma fold_arrival_ok:
  assumes "entry_wf c e"
  shows "\<exists>e1. fold_arrival fe w e = Some e1 \<and> entry_wf c e1 \<and> entry_state e1 = entry_state e
     \<and> lastApplied e1 = max (lastApplied e) (LastSeen w)"
proof (cases "time_after (LastSeen w) (lastApplied e)")
  case True
  let ?gap = "seconds fe (time_sub (LastSeen w) (lastApplied e))"
  obtain win where win: "win_push ?gap (window e) = Some win" "win_wf win"
      "win_capacity win = win_capacity (window e)"
    using assms win_push_ok [of "window e" ?gap] by (auto simp: entry_wf_def)
  with True assms show ?thesis
    by (auto simp: fold_arrival_def entry_wf_def time_after_def Let_def max_def)
next
  case False
  with assms show ?thesis by (auto simp: fold_arrival_def time_after_def max_def)
qed

lemma judge_ok:
  assumes "0 < WindowSize c" and "\<And>e. old = Some e \<Longrightarrow> entry_wf c e"
  shows "\<exists>v. judge fe c now w old = Some v \<and> (\<forall>e'. v = Some e' \<longrightarrow> entry_wf c e')"
proof (cases old)
  case None
  then show ?thesis
    using newSlidingWindow_ok [OF assms(1)] by (auto simp: judge_def entry_wf_def)
next
  case (Some e)
  with assms(2) obtain e1 where "fold_arrival fe w e = Some e1" "entry_wf c e1"
    using fold_arrival_ok by blast
  with Some show ?thesis by (auto simp: judge_def entry_wf_def Let_def)
qed

lemma scan_worker_judge:
  "scan_worker fe c now w a = map_option (\<lambda>v. \<lparr>acc_entries = (acc_entries a)(ID w := v),
       acc_seen = insert (ID w) (acc_seen a),
       acc_deaths = acc_deaths a @ (if v = None then [\<lparr>WorkerID = ID w, At = now\<rparr>] else [])\<rparr>)
     (judge fe c now w (acc_entries a (ID w)))"
  by (auto simp: scan_worker_def judge_def Let_def option.map_comp comp_def
      split: option.splits bind_splits)

text \<open>
  The verdict on a worker of the snapshot, and the loop as a whole: with distinct ids, every
  worker is judged on the entry it had before the sweep.
\<close>

definition verdict ::
  "float_env \<Rightarrow> config \<Rightarrow> time \<Rightarrow> (string \<rightharpoonup> detector_entry) \<Rightarrow> worker_info \<Rightarrow> detector_entry option" where
  "verdict fe c now ents w = Option.bind (judge fe c now w (ents (ID w))) (\<lambda>v. v)"

definition dies ::
  "float_env \<Rightarrow> config \<Rightarrow> time \<Rightarrow> (string \<rightharpoonup> detector_entry) \<Rightarrow> worker_info \<Rightarrow> bool" where
  "dies fe c now ents w \<longleftrightarrow> judge fe c now w (ents (ID w)) = Some None"

lemma scan_loop_spec:
  assumes "0 < WindowSize c" and "entries_wf c (acc_entries a)" and "distinct (map ID ws)"
  shows "\<exists>a'. scan_loop fe c now ws a = Some a'
     \<and> acc_seen a' = acc_seen a \<union> ID ` set ws
     \<and> acc_deaths a' = acc_deaths a
          @ map (\<lambda>w. \<lparr>WorkerID = ID w, At = now\<rparr>) (filter (dies fe c now (acc_entries a)) ws)
     \<and> acc_entries a' = (\<lambda>wid. case map_of (map (\<lambda>w. (ID w, w)) ws) wid of
          None \<Rightarrow> acc_entries a wid | Some w \<Rightarrow> verdict fe c now (acc_entries a) w)
     \<and> entries_wf c (acc_entries a')"
  using assms(2,3)
proof (induction ws arbitrary: a)
  case Nil
  then show ?case by (simp add: fun_eq_iff)
next
  case (Cons w ws)
  obtain v where v: "judge fe c now w (acc_entries a (ID w)) = Some v"
      and v_wf: "\<And>e'. v = Some e' \<Longrightarrow> entry_wf c e'"
    using judge_ok [OF assms(1)] entries_wfD [OF Cons.prems(1)] by metis
  define a1 where "a1 = \<lparr>acc_entries = (acc_entries a)(ID w := v),
      acc_seen = insert (ID w) (acc_seen a),
      acc_deaths = acc_deaths a @ (if v = None then [\<lparr>WorkerID = ID w, At = now\<rparr>] else [])\<rparr>"
  have step: "scan_worker fe c now w a = Some a1" by (simp add: scan_worker_judge v a1_def)
  have "entries_wf c (acc_entries a1)"
    using Cons.prems(1) v_wf by (auto simp: entries_wf_def a1_def)
  moreover have "distinct (map ID ws)" using Cons.prems(2) by simp
  ultimately obtain a' where a': "scan_loop fe c now ws a1 = Some a'"
      "acc_seen a' = acc_seen a1 \<union> ID ` set ws"
      "acc_deaths a' = acc_deaths a1
          @ map (\<lambda>w. \<lparr>WorkerID = ID w, At = now\<rparr>) (filter (dies fe c now (acc_entries a1)) ws)"
      "acc_entries a' = (\<lambda>wid. case map_of (map (\<lambda>w. (ID w, w)) ws) wid of
          None \<Rightarrow> acc_entries a1 wid | Some w \<Rightarrow> verdict fe c now (acc_entries a1) w)"
      "entries_wf c (acc_entries a')"
    using Cons.IH by blast
  have other: "acc_entries a1 (ID u) = acc_entries a (ID u)" if "u \<in> set ws" for u
  proof -
    have "ID u \<in> ID ` set ws" using that by simp
    then have "ID u \<noteq> ID w" using Cons.prems(2) by auto
    then show ?thesis by (simp add: a1_def)
  qed
  then have same: "dies fe c now (acc_entries a1) u = dies fe c now (acc_entries a) u"
      "verdict fe c now (acc_entries a1) u = verdict fe c now (acc_entries a) u" if "u \<in> set ws" for u
    using that by (auto simp: dies_def verdict_def)
  have fresh: "map_of (map (\<lambda>w. (ID w, w)) ws) (ID w) = None"
    using Cons.prems(2) by (force simp: map_of_eq_None_iff)
  have "filter (dies fe c now (acc_entries a1)) ws = filter (dies fe c now (acc_entries a)) ws"
    using same(1) by (simp cong: filter_cong)
  moreover have "acc_entries a' = (\<lambda>wid. case map_of (map (\<lambda>w. (ID w, w)) (w # ws)) wid of
          None \<Rightarrow> acc_entries a wid | Some w \<Rightarrow> verdict fe c now (acc_entries a) w)"
  proof
    fix wid
    show "acc_entries a' wid = (case map_of (map (\<lambda>w. (ID w, w)) (w # ws)) wid of
          None \<Rightarrow> acc_entries a wid | Some w \<Rightarrow> verdict fe c now (acc_entries a) w)"
    proof (cases "wid = ID w")
      case True
      then show ?thesis using fresh v by (simp add: a'(4) a1_def verdict_def)
    next
      case False
      then show ?thesis
        using same(2) by (auto simp: a'(4) a1_def split: option.splits dest!: map_of_SomeD)
    qed
  qed
  moreover have "dies fe c now (acc_entries a) w \<longleftrightarrow> v = None"
    using v by (simp add: dies_def)
  ultimately show ?case
    using step a' by (simp add: a1_def)
qed

text \<open>
  Phase 2 on a snapshot of a well-formed registry: entry by entry, whatever the order of the walk.
\<close>

lemma map_of_ListWorkers:
  assumes "reg_wf r" and "iterates (workers r) ks"
  shows "map_of (map (\<lambda>w. (ID w, w)) (ListWorkers ks r)) = workers r"
proof
  fix wid
  have dist: "distinct (map fst (map (\<lambda>w. (ID w, w)) (ListWorkers ks r)))"
    using reg.snapshot_distinct [OF assms] by (simp add: comp_def)
  show "map_of (map (\<lambda>w. (ID w, w)) (ListWorkers ks r)) wid = workers r wid"
  proof (cases "workers r wid")
    case None
    then have "wid \<notin> set (map ID (ListWorkers ks r))"
      using ListWorkers_ids [OF assms] assms(2) by (auto simp: iterates_def)
    with None show ?thesis by (force simp: map_of_eq_None_iff)
  next
    case (Some w)
    then have "ID w = wid" using assms(1) by (simp add: reg_wf_def)
    with Some have "(wid, w) \<in> set (map (\<lambda>w. (ID w, w)) (ListWorkers ks r))"
      using reg.snapshot_mem [OF assms, of w] by force
    with Some dist show ?thesis by (auto intro: map_of_is_SomeI simp del: set_map)
  qed
qed

lemma scan_judge_snapshot:
  assumes "0 < WindowSize c" and "entries_wf c ents" and "distinct (map ID ws)"
  shows "\<exists>ents'. scan_judge fe c now ws ents
       = Some (ents', map (\<lambda>w. \<lparr>WorkerID = ID w, At = now\<rparr>) (filter (dies fe c now ents) ws))
     \<and> ents' = (\<lambda>wid. Option.bind (map_of (map (\<lambda>w. (ID w, w)) ws) wid) (verdict fe c now ents))
     \<and> entries_wf c ents'"
proof -
  let ?a = "\<lparr>acc_entries = ents, acc_seen = {}, acc_deaths = []\<rparr>"
  let ?m = "map_of (map (\<lambda>w. (ID w, w)) ws)"
  obtain a' where a': "scan_loop fe c now ws ?a = Some a'" "acc_seen a' = ID ` set ws"
      "acc_deaths a' = map (\<lambda>w. \<lparr>WorkerID = ID w, At = now\<rparr>) (filter (dies fe c now ents) ws)"
      "acc_entries a' = (\<lambda>wid. case ?m wid of
          None \<Rightarrow> ents wid | Some w \<Rightarrow> verdict fe c now ents w)"
      "entries_wf c (acc_entries a')"
    using scan_loop_spec [of c ?a ws fe now, unfolded scan_acc.select_convs] assms by auto
  have seen: "ID ` set ws = dom ?m"
    by (simp add: dom_map_of_conv_image_fst image_image)
  have "acc_entries a' |` acc_seen a' = (\<lambda>wid. Option.bind (?m wid) (verdict fe c now ents))"
    unfolding a'(2,4) seen by (auto simp: fun_eq_iff restrict_map_def dom_def split: option.splits)
  moreover have "entries_wf c (acc_entries a' |` acc_seen a')"
    using a'(5) by (auto simp: entries_wf_def restrict_map_def split: if_splits)
  ultimately show ?thesis using a' by (simp add: scan_judge_def)
qed

lemma scan_judge_spec:
  assumes "0 < WindowSize c" and "entries_wf c ents" and "reg_wf r" and "iterates (workers r) ks"
  shows "\<exists>ents'. scan_judge fe c now (ListWorkers ks r) ents
       = Some (ents', map (\<lambda>w. \<lparr>WorkerID = ID w, At = now\<rparr>) (filter (dies fe c now ents) (ListWorkers ks r)))
     \<and> ents' = (\<lambda>wid. Option.bind (workers r wid) (verdict fe c now ents))
     \<and> entries_wf c ents'"
  using scan_judge_snapshot [OF assms(1,2) reg.snapshot_distinct [OF assms(3,4)]]
  by (simp add: map_of_ListWorkers [OF assms(3,4)])

section \<open>Eviction and events\<close>

text \<open>
  The events go out in order until the channel is full. Every worker whose event was sent is
  evicted, and so is the worker of the event the scanner blocks on.
\<close>

lemma scan_emit_spec:
  assumes "scan_emit evs r ch = (r', ch', pending)" and "length ch \<le> events_capacity"
  shows "\<exists>sent. evs = sent @ pending \<and> ch' = ch @ sent \<and> length ch' \<le> events_capacity
     \<and> (pending \<noteq> [] \<longrightarrow> length ch' = events_capacity)
     \<and> workers r' = workers r |` (- (WorkerID ` set (sent @ take 1 pending)))"
  using assms
proof (induction evs arbitrary: r ch)
  case Nil
  then show ?case by simp
next
  case (Cons ev evs)
  show ?case
  proof (cases "length ch < events_capacity")
    case True
    then have rest: "scan_emit evs (snd (Deregister (WorkerID ev) r)) (ch @ [ev]) = (r', ch', pending)"
      using Cons.prems(1) by (simp add: Let_def chan_send_def)
    have "length (ch @ [ev]) \<le> events_capacity" using True by simp
    from Cons.IH [OF rest this] obtain sent where sent: "evs = sent @ pending"
        "ch' = (ch @ [ev]) @ sent" "length ch' \<le> events_capacity"
        "pending \<noteq> [] \<longrightarrow> length ch' = events_capacity"
        "workers r' = workers (snd (Deregister (WorkerID ev) r))
           |` (- (WorkerID ` set (sent @ take 1 pending)))"
      by blast
    have "workers r' = workers r |` (- (WorkerID ` set ((ev # sent) @ take 1 pending)))"
      unfolding sent(5) by (auto simp: restrict_map_def fun_eq_iff)
    with sent(1-4) show ?thesis by (intro exI [of _ "ev # sent"]) auto
  next
    case False
    then show ?thesis
      using Cons.prems by (auto simp: Let_def chan_send_def restrict_map_def fun_eq_iff)
  qed
qed

lemma scan_emit_unblocked:
  assumes "length ch + length evs \<le> events_capacity"
  shows "scan_emit evs r ch = (r\<lparr>workers := workers r |` (- (WorkerID ` set evs))\<rparr>, ch @ evs, [])"
proof -
  obtain r' ch' pending where e: "scan_emit evs r ch = (r', ch', pending)" by (metis prod_cases3)
  from scan_emit_spec [OF this] assms obtain sent where sent: "evs = sent @ pending" "ch' = ch @ sent"
      "pending \<noteq> [] \<longrightarrow> length ch' = events_capacity"
      "workers r' = workers r |` (- (WorkerID ` set (sent @ take 1 pending)))"
    by auto
  then have "pending = []" using assms by (cases pending) auto
  with e sent show ?thesis by simp
qed

text \<open>Whether a worker dies in a sweep, spelled out.\<close>

lemma dies_iff:
  "dies fe c now ents w \<longleftrightarrow> (\<exists>e e1. ents (ID w) = Some e \<and> fold_arrival fe w e = Some e1
     \<and> next_state c (entry_state e1) (entry_phi fe e1 now) = StateDead)"
  by (auto simp: dies_def judge_def Let_def split: option.splits if_splits)

lemma fold_arrival_silent: "LastSeen w \<le> lastApplied e \<Longrightarrow> fold_arrival fe w e = Some e"
  by (simp add: fold_arrival_def time_after_def)

text \<open>A worker with fewer than two samples and no news since: the cold-start guard keeps it ALIVE.\<close>

lemma cold_verdict:
  assumes "0 \<le> PhiSuspect c" and "0 \<le> PhiDead c"
    and "ents (ID w) = Some e" and "entry_wf c e"
    and "win_n (window e) < 2" and "LastSeen w \<le> lastApplied e"
  shows "verdict fe c now ents w = Some (e\<lparr>entry_state := StateAlive\<rparr>)" and "\<not> dies fe c now ents w"
  using assms by (cases "entry_state e";
    auto simp: verdict_def dies_def judge_def fold_arrival_silent entry_wf_def Let_def)+

section \<open>A concrete worker\<close>

text \<open>
  The state the closed instances below run on: one worker that beat once a second, last at instant
  0, in a window of three samples, and the thresholds of \<^verbatim>\<open>cmd/controlplane/main.go\<close>.
\<close>

definition ex_config :: config where
  "ex_config = \<lparr>PollInterval = 500000000, WindowSize = 3, PhiSuspect = 1, PhiDead = 8\<rparr>"

definition ex_entry :: detector_entry where
  "ex_entry = \<lparr>entry_state = StateAlive, window = \<lparr>win_buf = [1, 1, 0], win_head = 2, win_n = 2\<rparr>,
     lastApplied = 0\<rparr>"

definition ex_cold_entry :: detector_entry where
  "ex_cold_entry = \<lparr>entry_state = StateAlive,
     window = \<lparr>win_buf = [1, 0, 0], win_head = 1, win_n = 1\<rparr>, lastApplied = 0\<rparr>"

definition ex_reg :: worker_registry where
  "ex_reg = Register ''w1'' ''h:1'' 10 0 NewWorkerRegistry"

definition ex_worker :: worker_info where
  "ex_worker = fresh_info ''w1'' ''h:1'' 10 0"

definition ex_ents :: "string \<rightharpoonup> detector_entry" where
  "ex_ents = [''w1'' \<mapsto> ex_entry]"

lemma ex_entry_sel [simp]: "win_n (window ex_entry) = 2" "lastApplied ex_entry = 0"
  "entry_state ex_entry = StateAlive"
  by (simp_all add: ex_entry_def)

lemma ex_config_sel [simp]: "WindowSize ex_config = 3" "PhiSuspect ex_config = 1" "PhiDead ex_config = 8"
  by (simp_all add: ex_config_def)

lemma ex_worker_sel [simp]: "ID ex_worker = ''w1''" "LastSeen ex_worker = 0"
  by (simp_all add: ex_worker_def)

lemma ex_entry_wf [simp]: "entry_wf ex_config ex_entry" "entry_wf ex_config ex_cold_entry"
  "entries_wf ex_config ex_ents"
  by (auto simp: entry_wf_def entries_wf_def ex_ents_def ex_entry_def ex_cold_entry_def win_wf_def
      win_capacity_def)

lemma ex_reg_wf [simp]: "reg_wf ex_reg" "iterates (workers ex_reg) [''w1'']"
  "workers ex_reg = [''w1'' \<mapsto> ex_worker]" "ListWorkers [''w1''] ex_reg = [ex_worker]"
  by (auto simp: ex_reg_def reg_wf_def iterates_def NewWorkerRegistry_def ex_worker_def ListWorkers_def)

lemma ex_ents_sel [simp]: "ex_ents ''w1'' = Some ex_entry"
  by (simp add: ex_ents_def)

lemma ex_iterates [simp]: "iterates [''w1'' \<mapsto> ex_worker] [''w1'']"
  using ex_reg_wf(2,3) by simp

lemma ex_cold_entry_sel [simp]: "win_n (window ex_cold_entry) = 1" "lastApplied ex_cold_entry = 0"
  by (simp_all add: ex_cold_entry_def)

lemma ex_mean: "win_mean exact_env (window ex_entry) = Some 1"
  by (simp add: win_mean_def ex_entry_def upt_rec numeral_2_eq_2)

lemma ex_phi:
  "entry_phi exact_env ex_entry now
     = Some (phi_of exact_env (seconds exact_env (time_sub now 0)) 1 (1 / 20))"
  by (simp add: entry_phi_def win_count_def ex_mean win_variance_def)
     (simp add: ex_entry_def minStdDevSeconds_def upt_rec numeral_2_eq_2 Let_def)

text \<open>Ten seconds of silence from a worker that beats every second: the score is at its cap.\<close>

lemma ex_phi_dead: "entry_phi exact_env ex_entry 10000000000 = Some 20"
proof -
  have "seconds exact_env (time_sub 10000000000 0) = 10"
    by (simp add: seconds_def seconds_parts time_sub_def max_duration_def
        min_duration_def ns_per_s_def)
  moreover have "1 \<le> 9 / (1 / 20 * sqrt (2::real))"
  proof -
    have "sqrt 2 \<le> (2::real)" by (rule real_le_lsqrt) auto
    then have "1 / 20 * sqrt (2::real) \<le> 9" "0 < 1 / 20 * sqrt (2::real)" by auto
    then show ?thesis by (simp only: le_divide_eq) simp
  qed
  ultimately show ?thesis by (simp only: ex_phi phi_of_def) (simp add: maxPhi_def Let_def)
qed

lemma ex_dies: "dies exact_env ex_config 10000000000 ex_ents ex_worker"
  by (simp add: dies_iff fold_arrival_silent ex_phi_dead)

lemma ex_scan: "scan_judge exact_env ex_config 10000000000 [ex_worker] ex_ents
    = Some (Map.empty, [\<lparr>WorkerID = ''w1'', At = 10000000000\<rparr>])"
proof -
  have "judge exact_env ex_config 10000000000 ex_worker (ex_ents ''w1'') = Some None"
    using ex_dies by (simp add: dies_def)
  then show ?thesis
    by (simp add: scan_judge_def scan_worker_judge restrict_map_def ex_ents_def fun_eq_iff)
qed

text \<open>The events of a sweep, by their worker; there is one per worker.\<close>

lemma dying_ids:
  assumes "reg_wf r" and "iterates (workers r) ks"
  shows "WorkerID ` set (map (\<lambda>w. \<lparr>WorkerID = ID w, At = now\<rparr>) (filter P (ListWorkers ks r)))
    = {wid. \<exists>w. workers r wid = Some w \<and> P w}"
proof -
  let ?deaths = "map (\<lambda>w. \<lparr>WorkerID = ID w, At = now\<rparr>) (filter P (ListWorkers ks r))"
  have "wid \<in> WorkerID ` set ?deaths \<longleftrightarrow> (\<exists>w \<in> set (ListWorkers ks r). P w \<and> ID w = wid)" for wid
    by (auto simp: image_iff)
  also have "\<dots> wid \<longleftrightarrow> (\<exists>w. workers r wid = Some w \<and> P w)" for wid
    using reg.snapshot_mem [OF assms] assms(1) by (metis reg.wf_ids)
  finally show ?thesis by blast
qed

lemma dying_count:
  assumes "reg_wf r" and "iterates (workers r) ks"
  shows "length (filter P (ListWorkers ks r)) = card {wid. \<exists>w. workers r wid = Some w \<and> P w}"
proof -
  let ?f = "filter P (ListWorkers ks r)"
  have "distinct (map ID ?f)" using reg.snapshot_distinct [OF assms] by (rule distinct_map_filter)
  then have "length ?f = card (ID ` set ?f)" by (metis distinct_card length_map list.set_map)
  also have "ID ` set ?f = {wid. \<exists>w. workers r wid = Some w \<and> P w}"
    using dying_ids [OF assms, where P = P] by (simp add: image_image)
  finally show ?thesis .
qed

lemma scanOnce_ok:
  assumes "0 < WindowSize (cfg d)" and "entries_wf (cfg d) (entries d)" and "reg_wf r"
    and "iterates (workers r) ks"
    and "length (events d) + card (dom (workers r)) \<le> events_capacity"
  shows "\<exists>r' d' deaths. scanOnce fe now ks r d = Some (r', d', []) \<and> events d' = events d @ deaths
     \<and> workers r' = workers r |` (- (WorkerID ` set deaths))
     \<and> entries d' = (\<lambda>wid. Option.bind (workers r wid) (verdict fe (cfg d) now (entries d)))
     \<and> WorkerID ` set deaths = {wid. \<exists>w. workers r wid = Some w \<and> dies fe (cfg d) now (entries d) w}"
proof -
  let ?ws = "ListWorkers ks r"
  let ?deaths = "map (\<lambda>w. \<lparr>WorkerID = ID w, At = now\<rparr>) (filter (dies fe (cfg d) now (entries d)) ?ws)"
  have j: "scan_judge fe (cfg d) now ?ws (entries d)
      = Some (\<lambda>wid. Option.bind (workers r wid) (verdict fe (cfg d) now (entries d)), ?deaths)"
    using scan_judge_spec [OF assms(1-4)] by blast
  have "length ?ws = card (dom (workers r))"
    using ListWorkers_ids [OF assms(3,4)] assms(4)
    by (metis distinct_card iterates_def length_map)
  then have "length ?deaths \<le> card (dom (workers r))"
    using length_filter_le [of "dies fe (cfg d) now (entries d)" ?ws] by simp
  with assms(5) have "length (events d) + length ?deaths \<le> events_capacity" by linarith
  from scan_emit_unblocked [OF this, of r] j
  have "scanOnce fe now ks r d = Some (r\<lparr>workers := workers r |` (- (WorkerID ` set ?deaths))\<rparr>,
      d\<lparr>entries := \<lambda>wid. Option.bind (workers r wid) (verdict fe (cfg d) now (entries d)),
        events := events d @ ?deaths\<rparr>, [])"
    by (simp add: scanOnce_def)
  moreover have "WorkerID ` set ?deaths
      = {wid. \<exists>w. workers r wid = Some w \<and> dies fe (cfg d) now (entries d) w}"
    by (rule dying_ids [OF assms(3,4)])
  ultimately show ?thesis by force
qed

section \<open>Properties\<close>

text \<open>
  The suspicion score is always a number between 0 and \<^verbatim>\<open>maxPhi\<close>: it is never NaN and never
  infinite, whatever the window holds, whatever the instant and under any rounding.
\<close>

lemma phi_in_range:
  assumes "float_ok fe"
  shows "\<exists>v. entry_phi fe e now = Some v \<and> 0 \<le> v \<and> v \<le> maxPhi"
proof (cases "win_n (window e) < 2")
  case True
  then show ?thesis by (simp add: maxPhi_def)
next
  case False
  then obtain m s where "entry_phi fe e now = Some (phi_of fe (seconds fe (time_sub now (lastApplied e))) m s)"
    using entry_phi_warm [OF assms] by (metis not_less)
  with phi_of_range [OF assms] show ?thesis by blast
qed

lemma phi_in_range_witness:
  "float_ok exact_env \<and> (\<exists>v. entry_phi exact_env ex_entry 10000000000 = Some v \<and> 0 \<le> v \<and> v \<le> maxPhi)"
  using phi_in_range [OF exact_env_ok, of ex_entry 10000000000] exact_env_ok by blast

text \<open>
  The score is a suspicion curve: for a given arrival history, a longer silence never scores
  lower. Rounding after every operation does not break this, and neither does the saturation of
  durations.
\<close>

lemma phi_grows_with_silence:
  assumes "float_ok fe" and "now \<le> now'"
  shows "the (entry_phi fe e now) \<le> the (entry_phi fe e now')"
proof (cases "win_n (window e) < 2")
  case True
  then show ?thesis by simp
next
  case False
  then obtain m s where "minStdDevSeconds fe \<le> s" and
      phi: "\<And>t. entry_phi fe e t = Some (phi_of fe (seconds fe (time_sub t (lastApplied e))) m s)"
    using entry_phi_warm [OF assms(1)] by (metis not_less)
  moreover have "seconds fe (time_sub now (lastApplied e)) \<le> seconds fe (time_sub now' (lastApplied e))"
    using assms by (intro seconds_mono time_sub_mono)
  ultimately show ?thesis using phi_of_mono [OF assms(1)] by simp
qed

lemma phi_grows_with_silence_witness:
  "float_ok exact_env \<and> the (entry_phi exact_env ex_entry 0) \<le> the (entry_phi exact_env ex_entry 10000000000)
     \<and> the (entry_phi exact_env ex_entry 10000000000) = 20"
  using phi_grows_with_silence [OF exact_env_ok, of 0 10000000000 ex_entry] exact_env_ok
  by (simp add: ex_phi_dead)

text \<open>
  At a silence of exactly the mean interval the score is \<open>log10 2\<close> (about 0.301): the
  probability that the next beat is later still is one half.
\<close>

lemma phi_at_the_mean:
  assumes "fl_round fe = (\<lambda>x. x)" and "fl_erfc fe 0 = 1" and "fl_log10 fe = log 10"
    and "2 \<le> win_n (window e)"
    and "win_mean fe (window e) = Some (seconds fe (time_sub now (lastApplied e)))"
  shows "entry_phi fe e now = Some (log 10 2)"
proof -
  have "log 10 (1 / 2) = - log 10 2" by (simp add: log_divide)
  moreover have "log 10 2 \<le> (20::real)"
  proof -
    have "log 10 2 \<le> log 10 (10::real)" by (subst log_le_cancel_iff) auto
    moreover have "log 10 (10::real) = 1" by simp
    ultimately show ?thesis by linarith
  qed
  moreover obtain v where "win_variance fe (window e) = Some v"
    using assms(5) by (simp add: win_variance_def)
  ultimately show ?thesis
    using assms by (simp add: entry_phi_def win_count_def phi_of_def maxPhi_def Let_def)
qed

text \<open>
  The state machine of the detector: a worker that is not DEAD gets the state its score calls for, whichever
  of ALIVE and SUSPECT it was in (so suspicion is revoked as soon as the score is back at the
  threshold), a higher score never gives a milder state, DEAD is left by no score, and a score that
  is NaN changes nothing.
\<close>

lemma suspicion_state_machine:
  "next_state c StateDead (Some v) = StateDead
   \<and> next_state c StateAlive (Some v) = next_state c StateSuspect (Some v)
   \<and> (next_state c StateAlive (Some v) = StateAlive) = (v \<le> PhiDead c \<and> v \<le> PhiSuspect c)
   \<and> (next_state c StateAlive (Some v) = StateDead) = (PhiDead c < v)
   \<and> next_state c st (Some v) \<le> next_state c st (Some (max v v'))
   \<and> next_state c st None = st"
proof -
  have "next_state c st (Some v) \<le> next_state c st (Some (max v v'))"
    using next_state_mono [of st v "max v v'" c] by (cases st) auto
  then show ?thesis by (cases st) (auto simp: next_state_score)
qed

text \<open>
  A sweep never panics and never breaks the detector's state: with a positive window size, on
  any snapshot with distinct ids, every entry it leaves has a well-formed window of that size and
  is not DEAD.
\<close>

lemma scan_judge_safe:
  assumes "0 < WindowSize c" and "entries_wf c ents" and "distinct (map ID ws)"
  shows "\<exists>ents' deaths. scan_judge fe c now ws ents = Some (ents', deaths) \<and> entries_wf c ents'
     \<and> dom ents' \<subseteq> ID ` set ws"
proof -
  from scan_judge_snapshot [OF assms] obtain ents' where
      e: "scan_judge fe c now ws ents = Some (ents',
            map (\<lambda>w. \<lparr>WorkerID = ID w, At = now\<rparr>) (filter (dies fe c now ents) ws))"
      "ents' = (\<lambda>wid. Option.bind (map_of (map (\<lambda>w. (ID w, w)) ws) wid) (verdict fe c now ents))"
      "entries_wf c ents'"
    by blast
  have "dom ents' \<subseteq> dom (map_of (map (\<lambda>w. (ID w, w)) ws))"
    unfolding e(2) by (auto simp: dom_def bind_eq_Some_conv)
  then have "dom ents' \<subseteq> ID ` set ws" by (simp add: dom_map_of_conv_image_fst image_image)
  with e show ?thesis by blast
qed

text \<open>
  C30. A sweep judges every registered worker on its own: its new entry depends only on its registry record, its old entry and the
  instant, and entries of unregistered workers are reaped. It reports exactly the workers whose own judgement is a death, one event for each,
  with the sweep's instant, in the order of the snapshot. So the order in which Go walks the registry's map decides the order of the
  events and nothing else.
\<close>

theorem scan_judge_pointwise:
  assumes "0 < WindowSize c" and "entries_wf c ents" and "reg_wf r" and "iterates (workers r) ks"
  shows "scan_judge fe c now (ListWorkers ks r) ents
       = Some (\<lambda>wid. Option.bind (workers r wid) (verdict fe c now ents),
           map (\<lambda>w. \<lparr>WorkerID = ID w, At = now\<rparr>) (filter (dies fe c now ents) (ListWorkers ks r)))
     \<and> (\<forall>ks'. iterates (workers r) ks' \<longrightarrow> mset (ListWorkers ks' r) = mset (ListWorkers ks r)
          \<and> scan_judge fe c now (ListWorkers ks' r) ents
             = Some (\<lambda>wid. Option.bind (workers r wid) (verdict fe c now ents),
                 map (\<lambda>w. \<lparr>WorkerID = ID w, At = now\<rparr>) (filter (dies fe c now ents) (ListWorkers ks' r))))"
proof -
  have spec: "scan_judge fe c now (ListWorkers ks r) ents
       = Some (\<lambda>wid. Option.bind (workers r wid) (verdict fe c now ents),
           map (\<lambda>w. \<lparr>WorkerID = ID w, At = now\<rparr>) (filter (dies fe c now ents) (ListWorkers ks r)))"
      if "iterates (workers r) ks" for ks
    using scan_judge_spec [OF assms(1-3) that] by blast
  have "mset (ListWorkers ks' r) = mset (ListWorkers ks r)" if "iterates (workers r) ks'" for ks'
  proof -
    have "mset ks' = mset ks"
      using assms(4) that by (metis iterates_def set_eq_iff_mset_eq_distinct)
    then have "mset (List.map_filter (workers r) ks') = mset (List.map_filter (workers r) ks)"
      by (simp add: List.map_filter_def mset_map mset_filter)
    then show ?thesis by (simp add: ListWorkers_def range_values_def)
  qed
  with spec spec [OF assms(4)] show ?thesis by blast
qed

theorem scan_judge_pointwise_witness:
  "scan_judge exact_env ex_config 10000000000 [ex_worker] ex_ents
     = Some (\<lambda>wid. Option.bind (workers ex_reg wid) (verdict exact_env ex_config 10000000000 ex_ents), [\<lparr>WorkerID = ''w1'', At = 10000000000\<rparr>])"
  using scan_judge_pointwise [of ex_config ex_ents ex_reg "[''w1'']" exact_env 10000000000] by (auto simp: ex_dies)

text \<open>
  No death without evidence: a sweep declares a worker dead only if it had an entry from an
  earlier sweep and its score, after folding in the latest heartbeat, exceeds the DEAD threshold;
  the event carries the worker's id and the instant of the sweep.
\<close>

lemma scan_deaths_have_evidence:
  assumes "0 < WindowSize c" and "entries_wf c ents" and "distinct (map ID ws)"
    and "scan_judge fe c now ws ents = Some (ents', deaths)" and "ev \<in> set deaths"
  shows "\<exists>w e e1. w \<in> set ws \<and> ev = \<lparr>WorkerID = ID w, At = now\<rparr> \<and> ents (ID w) = Some e
     \<and> fold_arrival fe w e = Some e1 \<and> fl_gt (entry_phi fe e1 now) (PhiDead c)
     \<and> ents' (ID w) = None"
proof -
  from scan_judge_snapshot [OF assms(1-3)] assms(4)
  have d: "deaths = map (\<lambda>w. \<lparr>WorkerID = ID w, At = now\<rparr>) (filter (dies fe c now ents) ws)"
    and e': "ents' = (\<lambda>wid. Option.bind (map_of (map (\<lambda>w. (ID w, w)) ws) wid) (verdict fe c now ents))"
    by auto
  from d assms(5) obtain w where w: "w \<in> set ws" "dies fe c now ents w"
      "ev = \<lparr>WorkerID = ID w, At = now\<rparr>" by auto
  from w(2) obtain e e1 where e: "ents (ID w) = Some e" "fold_arrival fe w e = Some e1"
      "next_state c (entry_state e1) (entry_phi fe e1 now) = StateDead"
    by (auto simp: dies_iff)
  moreover have "entry_state e1 \<noteq> StateDead"
    using fold_arrival_ok [OF entries_wfD [OF assms(2) e(1)], of fe w] e(2)
    by (auto simp: entry_wf_def)
  moreover have "map_of (map (\<lambda>w. (ID w, w)) ws) (ID w) = Some w"
    using w(1) assms(3) by (auto intro!: map_of_is_SomeI simp: comp_def)
  then have "ents' (ID w) = None"
    using w(2) by (simp add: e' verdict_def dies_def)
  ultimately show ?thesis using w by (auto simp: next_state_dead_iff)
qed

lemma scan_deaths_have_evidence_witness:
  "\<exists>w e e1. w \<in> set [ex_worker] \<and> \<lparr>WorkerID = ''w1'', At = 10000000000\<rparr> = \<lparr>WorkerID = ID w, At = 10000000000\<rparr>
     \<and> ex_ents (ID w) = Some e \<and> fold_arrival exact_env w e = Some e1
     \<and> fl_gt (entry_phi exact_env e1 10000000000) (PhiDead ex_config) \<and> Map.empty (ID w) = (None :: nat option)"
  using scan_deaths_have_evidence [OF _ _ _ ex_scan] by fastforce

text \<open>
  A silent worker that one sweep declares dead would be declared dead by every later sweep
  too: no later instant makes the same silence look healthier.
\<close>

lemma death_is_monotone:
  assumes "float_ok fe" and "now \<le> now'" and "ents (ID w) = Some e" and "LastSeen w \<le> lastApplied e"
    and "dies fe c now ents w"
  shows "dies fe c now' ents w"
proof -
  obtain v v' where v: "entry_phi fe e now = Some v" "entry_phi fe e now' = Some v'"
    using phi_in_range [OF assms(1)] by metis
  with phi_grows_with_silence [OF assms(1,2), of e] have "v \<le> v'" by simp
  with assms v show ?thesis by (auto simp: dies_iff fold_arrival_silent next_state_dead_iff)
qed

text \<open>
  While a worker has fewer than two samples it is never declared dead, however long its
  silence: its entry stays ALIVE through every sweep. This is the cold-start guard, and it also
  means that a worker that crashes before its third arrival is never evicted.
\<close>

lemma cold_worker_never_dies:
  assumes "0 \<le> PhiSuspect c" and "0 \<le> PhiDead c"
    and "ents (ID w) = Some e" and "entry_wf c e"
    and "win_n (window e) < 2" and "LastSeen w \<le> lastApplied e"
  shows "verdict fe c now ents w = Some (e\<lparr>entry_state := StateAlive\<rparr>)"
  using assms by (rule cold_verdict(1))

lemma cold_worker_never_dies_witness:
  "verdict exact_env ex_config 3600000000000 [''w1'' \<mapsto> ex_cold_entry] ex_worker
     = Some (ex_cold_entry\<lparr>entry_state := StateAlive\<rparr>)"
  by (rule cold_worker_never_dies) auto

text \<open>
  A first sighting is born ALIVE with an empty window and the arrival clock at the last
  heartbeat, whatever happened to the id before: a worker that was declared dead leaves nothing
  behind, so its return is a first sighting.
\<close>

lemma first_sighting_born_alive:
  assumes "0 < WindowSize c" and "ents (ID w) = None"
  shows "\<exists>e. verdict fe c now ents w = Some e \<and> entry_state e = StateAlive
     \<and> win_samples (window e) = [] \<and> lastApplied e = LastSeen w \<and> \<not> dies fe c now ents w"
  using assms newSlidingWindow_ok [OF assms(1)]
  by (auto simp: verdict_def judge_def dies_def)

text \<open>
  One whole sweep on a registry nobody else touches: every worker declared dead is evicted, the
  others stay, and, while the event channel has room, exactly the deaths are appended to it.
\<close>

lemma scanOnce_evicts_and_emits:
  assumes "0 < WindowSize (cfg d)" and "entries_wf (cfg d) (entries d)" and "reg_wf r"
    and "iterates (workers r) ks"
    and "length (events d) + card (dom (workers r)) \<le> events_capacity"
  shows "\<exists>r' d' deaths. scanOnce fe now ks r d = Some (r', d', []) \<and> events d' = events d @ deaths
     \<and> workers r' = workers r |` (- (WorkerID ` set deaths))
     \<and> entries d' = (\<lambda>wid. Option.bind (workers r wid) (verdict fe (cfg d) now (entries d)))
     \<and> WorkerID ` set deaths = {wid. \<exists>w. workers r wid = Some w \<and> dies fe (cfg d) now (entries d) w}"
  using assms by (rule scanOnce_ok)

lemma scanOnce_evicts_and_emits_witness:
  "\<exists>r' d' deaths. scanOnce exact_env 10000000000 [''w1''] ex_reg
       \<lparr>cfg = ex_config, entries = ex_ents, events = []\<rparr> = Some (r', d', [])
     \<and> events d' = [] @ deaths \<and> WorkerID ` set deaths = {''w1''} \<and> workers r' ''w1'' = None"
proof -
  let ?d = "\<lparr>cfg = ex_config, entries = ex_ents, events = []\<rparr>"
  have "\<exists>r' d' deaths. scanOnce exact_env 10000000000 [''w1''] ex_reg ?d = Some (r', d', [])
     \<and> events d' = events ?d @ deaths
     \<and> workers r' = workers ex_reg |` (- (WorkerID ` set deaths))
     \<and> entries d' = (\<lambda>wid. Option.bind (workers ex_reg wid)
          (verdict exact_env (cfg ?d) 10000000000 (entries ?d)))
     \<and> WorkerID ` set deaths
         = {wid. \<exists>w. workers ex_reg wid = Some w \<and> dies exact_env (cfg ?d) 10000000000 (entries ?d) w}"
    by (rule scanOnce_evicts_and_emits) (auto simp: events_capacity_def)
  moreover have "{wid. \<exists>w. workers ex_reg wid = Some w \<and> dies exact_env (cfg ?d) 10000000000 (entries ?d) w}
      = {''w1''}"
    using ex_dies by auto
  ultimately show ?thesis by (fastforce simp: restrict_map_def)
qed

end
