(* ===== verification/Control_Plane.thy ===== *)
theory Control_Plane
  imports Server Detector
begin

text \<open>
  The control plane as a whole (\<^verbatim>\<open>cmd/controlplane/main.go\<close>): gRPC handlers, the detector's scanner
  goroutine and the goroutine that drains its events, interleaved. Each handler is one step,
  because it holds the registry's mutex once. A sweep is several: the snapshot, the judgement, and
  for every death an eviction and a send, and between any two of them other goroutines run. The
  clock is a component of the state that only moves forward; a ticker's instant may be older than
  the clock when its sweep starts.
\<close>

definition controlplane_config :: config where
  "controlplane_config = \<lparr>PollInterval = 500000000, WindowSize = 100, PhiSuspect = 1, PhiDead = 8\<rparr>"

datatype scan_pc =
    ScanIdle
  | ScanJudging time "worker_info list"
  | ScanEvicting "dead_event list"
  | ScanSending dead_event "dead_event list"
  | ScanPanicked

record control_plane =
  cp_reg :: worker_registry
  cp_det :: detector
  cp_scan :: scan_pc
  cp_clock :: time

definition cp_start :: "config \<Rightarrow> time \<Rightarrow> control_plane" where
  "cp_start c clock =
     \<lparr>cp_reg = NewWorkerRegistry, cp_det = NewDetector c, cp_scan = ScanIdle, cp_clock = clock\<rparr>"

definition cp_init :: "control_plane \<Rightarrow> bool" where
  "cp_init s \<longleftrightarrow> (\<exists>c clock. 0 < WindowSize c \<and> s = cp_start c clock)"

datatype cp_label =
    TickL
  | RegisterL register_request
  | HeartbeatL heartbeat_request "go_error + unit"
  | DeregisterL deregister_request
  | ListWorkersL list_workers_response
  | SnapshotL time
  | JudgeL "dead_event list"
  | PanicL
  | EvictL dead_event
  | SendL dead_event
  | ScanDoneL
  | DrainL dead_event

inductive cp_step :: "float_env \<Rightarrow> control_plane \<Rightarrow> cp_label \<Rightarrow> control_plane \<Rightarrow> bool"
  for fe :: float_env where
  cp_tick: "0 < d \<Longrightarrow> cp_step fe s TickL (s\<lparr>cp_clock := cp_clock s + d\<rparr>)"
| cp_register:
    "srv_Register (cp_clock s) req (cp_reg s) = (resp, r') \<Longrightarrow>
     cp_step fe s (RegisterL req) (s\<lparr>cp_reg := r'\<rparr>)"
| cp_heartbeat:
    "srv_Heartbeat (cp_clock s) req (cp_reg s) = (res, r') \<Longrightarrow>
     cp_step fe s (HeartbeatL req res) (s\<lparr>cp_reg := r'\<rparr>)"
| cp_deregister:
    "srv_Deregister req (cp_reg s) = (resp, r') \<Longrightarrow>
     cp_step fe s (DeregisterL req) (s\<lparr>cp_reg := r'\<rparr>)"
| cp_list:
    "iterates (workers (cp_reg s)) ks \<Longrightarrow> srv_ListWorkers ks (cp_reg s) = Inr resp \<Longrightarrow>
     cp_step fe s (ListWorkersL resp) s"
| cp_snapshot:
    "cp_scan s = ScanIdle \<Longrightarrow> now \<le> cp_clock s \<Longrightarrow> iterates (workers (cp_reg s)) ks \<Longrightarrow>
     cp_step fe s (SnapshotL now) (s\<lparr>cp_scan := ScanJudging now (ListWorkers ks (cp_reg s))\<rparr>)"
| cp_judge:
    "cp_scan s = ScanJudging now ws \<Longrightarrow>
     scan_judge fe (cfg (cp_det s)) now ws (entries (cp_det s)) = Some (ents, deaths) \<Longrightarrow>
     cp_step fe s (JudgeL deaths)
       (s\<lparr>cp_det := (cp_det s)\<lparr>entries := ents\<rparr>, cp_scan := ScanEvicting deaths\<rparr>)"
| cp_panic:
    "cp_scan s = ScanJudging now ws \<Longrightarrow>
     scan_judge fe (cfg (cp_det s)) now ws (entries (cp_det s)) = None \<Longrightarrow>
     cp_step fe s PanicL (s\<lparr>cp_scan := ScanPanicked\<rparr>)"
| cp_evict:
    "cp_scan s = ScanEvicting (ev # evs) \<Longrightarrow>
     cp_step fe s (EvictL ev)
       (s\<lparr>cp_reg := snd (Deregister (WorkerID ev) (cp_reg s)), cp_scan := ScanSending ev evs\<rparr>)"
| cp_send:
    "cp_scan s = ScanSending ev evs \<Longrightarrow>
     chan_send events_capacity ev (events (cp_det s)) = Some ch \<Longrightarrow>
     cp_step fe s (SendL ev)
       (s\<lparr>cp_det := (cp_det s)\<lparr>events := ch\<rparr>, cp_scan := ScanEvicting evs\<rparr>)"
| cp_scan_done:
    "cp_scan s = ScanEvicting [] \<Longrightarrow> cp_step fe s ScanDoneL (s\<lparr>cp_scan := ScanIdle\<rparr>)"
| cp_drain:
    "chan_recv (events (cp_det s)) = Some (ev, ch) \<Longrightarrow>
     cp_step fe s (DrainL ev) (s\<lparr>cp_det := (cp_det s)\<lparr>events := ch\<rparr>\<rparr>)"

inductive_cases cp_evictE [elim]: "cp_step fe s (EvictL ev) t"
inductive_cases cp_judgeE [elim]: "cp_step fe s (JudgeL deaths) t"
inductive_cases cp_heartbeatE [elim]: "cp_step fe s (HeartbeatL req res) t"

section \<open>The invariant\<close>

definition cp_inv :: "control_plane \<Rightarrow> bool" where
  "cp_inv s \<longleftrightarrow> reg_wf (cp_reg s) \<and> 0 < WindowSize (cfg (cp_det s))
     \<and> entries_wf (cfg (cp_det s)) (entries (cp_det s))
     \<and> length (events (cp_det s)) \<le> events_capacity
     \<and> cp_scan s \<noteq> ScanPanicked
     \<and> (\<forall>now ws. cp_scan s = ScanJudging now ws \<longrightarrow> distinct (map ID ws))"

lemma cp_inv_init: "cp_init s \<Longrightarrow> cp_inv s"
  by (auto simp: cp_init_def cp_start_def cp_inv_def NewDetector_def events_capacity_def)

lemma srv_wf_eq:
  "reg_wf r \<Longrightarrow> srv_Register now rq r = (res1, r') \<Longrightarrow> reg_wf r'"
  "reg_wf r \<Longrightarrow> srv_Heartbeat now hq r = (res2, r') \<Longrightarrow> reg_wf r'"
  "reg_wf r \<Longrightarrow> srv_Deregister dq r = (res3, r') \<Longrightarrow> reg_wf r'"
  by (metis srv_wf(1) snd_conv) (metis srv_wf(2) snd_conv, metis srv_wf(3) snd_conv)

lemma cp_inv_step: "cp_inv s \<Longrightarrow> cp_step fe s l t \<Longrightarrow> cp_inv t"
proof (erule cp_step.cases, goal_cases)
  case (6 s' now ks)
  then show ?case
    using reg.snapshot_distinct [of "cp_reg s" ks] by (auto simp: cp_inv_def)
next
  case (7 s' now ws ents deaths)
  then have "distinct (map ID ws)" "0 < WindowSize (cfg (cp_det s))"
      "entries_wf (cfg (cp_det s)) (entries (cp_det s))"
    by (auto simp: cp_inv_def)
  from scan_judge_snapshot [OF this(2,3,1), of fe now] 7 show ?case by (auto simp: cp_inv_def)
next
  case (8 s' now ws)
  then have "distinct (map ID ws)" "0 < WindowSize (cfg (cp_det s))"
      "entries_wf (cfg (cp_det s)) (entries (cp_det s))"
    by (auto simp: cp_inv_def)
  from scan_judge_snapshot [OF this(2,3,1), of fe now] 8 show ?case by auto
next
  case (12 s' ev ch)
  then show ?case by (auto simp: cp_inv_def)
qed (auto simp: cp_inv_def dest: srv_wf_eq)

interpretation cp: state_invariant cp_init "cp_step fe" cp_inv
  by unfold_locales (auto intro: cp_inv_init cp_inv_step)

section \<open>Progress of the scanner\<close>

text \<open>The scanner's own steps left in the sweep it is in.\<close>

fun scan_work :: "scan_pc \<Rightarrow> nat" where
  "scan_work ScanIdle = 0"
| "scan_work (ScanJudging now ws) = 2 * length ws + 2"
| "scan_work (ScanEvicting evs) = 2 * length evs + 1"
| "scan_work (ScanSending ev evs) = 2 * length evs + 2"
| "scan_work ScanPanicked = 0"

fun scanner_label :: "cp_label \<Rightarrow> bool" where
  "scanner_label (JudgeL _) = True"
| "scanner_label (EvictL _) = True"
| "scanner_label (SendL _) = True"
| "scanner_label ScanDoneL = True"
| "scanner_label _ = False"

lemma judge_deaths_length:
  assumes "cp_inv s" and "cp_scan s = ScanJudging now ws"
    and "scan_judge fe (cfg (cp_det s)) now ws (entries (cp_det s)) = Some (ents, deaths)"
  shows "length deaths \<le> length ws"
proof -
  have "0 < WindowSize (cfg (cp_det s))" "entries_wf (cfg (cp_det s)) (entries (cp_det s))"
      "distinct (map ID ws)"
    using assms(1,2) by (auto simp: cp_inv_def)
  from scan_judge_snapshot [OF this, of fe now] assms(3) show ?thesis by auto
qed

text \<open>In the middle of a sweep the scanner has a step, or the channel is full and the drain has one.\<close>

lemma scan_progress:
  assumes "cp_inv s" and "cp_scan s \<noteq> ScanIdle"
  shows "(\<exists>l t. scanner_label l \<and> cp_step fe s l t)
     \<or> (\<exists>ev evs ev' t t'. cp_scan s = ScanSending ev evs \<and> length (events (cp_det s)) = events_capacity
          \<and> cp_step fe s (DrainL ev') t \<and> cp_step fe t (SendL ev) t')"
proof (cases "cp_scan s")
  case (ScanJudging now ws)
  then have "\<exists>ents deaths. scan_judge fe (cfg (cp_det s)) now ws (entries (cp_det s)) = Some (ents, deaths)"
    using scan_judge_safe [of "cfg (cp_det s)" "entries (cp_det s)" ws fe now] assms(1)
    by (auto simp: cp_inv_def)
  with ScanJudging show ?thesis by (meson cp_judge scanner_label.simps(1))
next
  case (ScanEvicting evs)
  then show ?thesis
    by (cases evs) (meson cp_scan_done scanner_label.simps(4), meson cp_evict scanner_label.simps(2))
next
  case (ScanSending ev evs)
  show ?thesis
  proof (cases "length (events (cp_det s)) < events_capacity")
    case True
    then have "chan_send events_capacity ev (events (cp_det s)) = Some (events (cp_det s) @ [ev])" by simp
    with ScanSending show ?thesis by (meson cp_send scanner_label.simps(3))
  next
    case False
    then have full: "length (events (cp_det s)) = events_capacity"
      using assms(1) by (simp add: cp_inv_def)
    then obtain ev' ch where ch: "events (cp_det s) = ev' # ch"
      by (cases "events (cp_det s)") (auto simp: events_capacity_def)
    let ?t = "s\<lparr>cp_det := (cp_det s)\<lparr>events := ch\<rparr>\<rparr>"
    have "cp_step fe s (DrainL ev') ?t" using ch by (intro cp_drain) simp
    moreover have "cp_step fe ?t (SendL ev)
        (?t\<lparr>cp_det := (cp_det ?t)\<lparr>events := ch @ [ev]\<rparr>, cp_scan := ScanEvicting evs\<rparr>)"
      using ScanSending full ch by (intro cp_send) auto
    ultimately show ?thesis using ScanSending full by blast
  qed
qed (use assms in \<open>auto simp: cp_inv_def\<close>)

section \<open>A sweep nobody interrupts\<close>

text \<open>From the eviction loop on, the scanner's steps alone do what \<open>scan_emit\<close> does.\<close>

lemma emit_exec:
  assumes "scan_emit evs (cp_reg s) (events (cp_det s)) = (r', ch', pending)"
    and "cp_scan s = ScanEvicting evs"
  shows "\<exists>ls. (\<forall>l \<in> set ls. scanner_label l) \<and> exec (cp_step fe) s ls
     (s\<lparr>cp_reg := r', cp_det := (cp_det s)\<lparr>events := ch'\<rparr>,
        cp_scan := (case pending of [] \<Rightarrow> ScanIdle | ev # evs' \<Rightarrow> ScanSending ev evs')\<rparr>)"
  using assms
proof (induction evs arbitrary: s)
  case Nil
  then have "cp_step fe s ScanDoneL (s\<lparr>cp_scan := ScanIdle\<rparr>)" by (intro cp_scan_done) simp
  moreover have "s\<lparr>cp_reg := r', cp_det := (cp_det s)\<lparr>events := ch'\<rparr>, cp_scan := ScanIdle\<rparr>
      = s\<lparr>cp_scan := ScanIdle\<rparr>"
    using Nil by (cases s) auto
  ultimately show ?case using Nil by (intro exI [of _ "[ScanDoneL]"]) auto
next
  case (Cons ev evs)
  let ?r = "snd (Deregister (WorkerID ev) (cp_reg s))"
  let ?s1 = "s\<lparr>cp_reg := ?r, cp_scan := ScanSending ev evs\<rparr>"
  have evict: "cp_step fe s (EvictL ev) ?s1" using Cons.prems(2) by (rule cp_evict)
  show ?case
  proof (cases "length (events (cp_det s)) < events_capacity")
    case True
    let ?s2 = "?s1\<lparr>cp_det := (cp_det ?s1)\<lparr>events := events (cp_det s) @ [ev]\<rparr>, cp_scan := ScanEvicting evs\<rparr>"
    have send: "cp_step fe ?s1 (SendL ev) ?s2" using True by (intro cp_send) auto
    have "scan_emit evs (cp_reg ?s2) (events (cp_det ?s2)) = (r', ch', pending)"
      using Cons.prems(1) True by (simp add: Let_def chan_send_def)
    from Cons.IH [OF this] obtain ls where ls: "\<forall>l \<in> set ls. scanner_label l"
        "exec (cp_step fe) ?s2 ls (?s2\<lparr>cp_reg := r', cp_det := (cp_det ?s2)\<lparr>events := ch'\<rparr>,
          cp_scan := (case pending of [] \<Rightarrow> ScanIdle | ev # evs' \<Rightarrow> ScanSending ev evs')\<rparr>)"
      by auto
    from exec_cons [where l = "EvictL ev", OF evict exec_cons [where l = "SendL ev", OF send ls(2)]] ls(1)
    show ?thesis by (intro exI [of _ "EvictL ev # SendL ev # ls"]) simp
  next
    case False
    then have "r' = ?r" "ch' = events (cp_det s)" "pending = ev # evs"
      using Cons.prems(1) by (auto simp: Let_def chan_send_def)
    then have "s\<lparr>cp_reg := r', cp_det := (cp_det s)\<lparr>events := ch'\<rparr>,
        cp_scan := (case pending of [] \<Rightarrow> ScanIdle | ev # evs' \<Rightarrow> ScanSending ev evs')\<rparr> = ?s1"
      by (cases s) auto
    with exec_single [where step = "cp_step fe", OF evict] show ?thesis
      by (intro exI [of _ "[EvictL ev]"]) auto
  qed
qed

lemma judge_emit_exec:
  assumes "cp_scan s = ScanJudging now ws"
    and "scan_judge fe (cfg (cp_det s)) now ws (entries (cp_det s)) = Some (ents, deaths)"
    and "scan_emit deaths (cp_reg s) (events (cp_det s)) = (r', ch', pending)"
  shows "\<exists>ls. (\<forall>l \<in> set ls. scanner_label l) \<and> exec (cp_step fe) s ls
     (s\<lparr>cp_reg := r', cp_det := (cp_det s)\<lparr>entries := ents, events := ch'\<rparr>,
        cp_scan := (case pending of [] \<Rightarrow> ScanIdle | ev # evs' \<Rightarrow> ScanSending ev evs')\<rparr>)"
proof -
  let ?s1 = "s\<lparr>cp_det := (cp_det s)\<lparr>entries := ents\<rparr>, cp_scan := ScanEvicting deaths\<rparr>"
  have judge: "cp_step fe s (JudgeL deaths) ?s1" using assms(1,2) by (rule cp_judge)
  have "scan_emit deaths (cp_reg ?s1) (events (cp_det ?s1)) = (r', ch', pending)"
    using assms(3) by simp
  from emit_exec [OF this, of fe] obtain ls where ls: "\<forall>l \<in> set ls. scanner_label l"
      "exec (cp_step fe) ?s1 ls (?s1\<lparr>cp_reg := r', cp_det := (cp_det ?s1)\<lparr>events := ch'\<rparr>,
        cp_scan := (case pending of [] \<Rightarrow> ScanIdle | ev # evs' \<Rightarrow> ScanSending ev evs')\<rparr>)"
    by auto
  from exec_cons [where l = "JudgeL deaths", OF judge ls(2)] ls(1) show ?thesis
    by (intro exI [of _ "JudgeL deaths # ls"]) simp
qed

text \<open>The scanner on its own, from its snapshot on, is deterministic, and ends when it is idle or its next send blocks.\<close>

definition scanner_step :: "float_env \<Rightarrow> control_plane \<Rightarrow> cp_label \<Rightarrow> control_plane \<Rightarrow> bool" where
  "scanner_step fe s l t \<longleftrightarrow> scanner_label l \<and> cp_step fe s l t"

lemma scanner_step_unique: "scanner_step fe s l t \<Longrightarrow> scanner_step fe s l' t' \<Longrightarrow> l' = l \<and> t' = t"
  unfolding scanner_step_def by (elim conjE; erule cp_step.cases; erule cp_step.cases; simp)

lemma exec_scanner:
  "exec (cp_step fe) s ls t \<Longrightarrow> \<forall>l \<in> set ls. scanner_label l \<Longrightarrow> exec (scanner_step fe) s ls t"
  by (induction rule: exec.induct) (auto simp: scanner_step_def)

lemma scan_emit_pending: "scan_emit evs r ch = (r', ch', ev # evs') \<Longrightarrow> events_capacity \<le> length ch'"
  by (induction evs arbitrary: r ch) (auto simp: Let_def split: option.splits)

lemma scanner_stops:
  "cp_scan t = ScanIdle \<Longrightarrow> \<not> scanner_step fe t l u"
  "cp_scan t = ScanSending ev evs \<Longrightarrow> events_capacity \<le> length (events (cp_det t)) \<Longrightarrow> \<not> scanner_step fe t l u"
  unfolding scanner_step_def by (auto elim!: cp_step.cases)

text \<open>An entry that disappears while the scanner is alone was evicted by it.\<close>

lemma scanner_evicts:
  "exec (scanner_step fe) s ls t \<Longrightarrow> workers (cp_reg s) wid = Some w \<Longrightarrow> workers (cp_reg t) wid = None \<Longrightarrow>
     \<exists>ev. EvictL ev \<in> set ls \<and> WorkerID ev = wid"
proof (induction rule: exec.induct)
  case (exec_snoc ls t l u)
  show ?case
  proof (cases "workers (cp_reg t) wid")
    case None
    with exec_snoc show ?thesis by auto
  next
    case (Some w')
    have "cp_step fe t l u" "scanner_label l" using exec_snoc(2) by (simp_all add: scanner_step_def)
    then show ?thesis using Some exec_snoc.prems(2) by cases (auto simp: Deregister_def split: if_splits)
  qed
qed simp

section \<open>A concrete state\<close>

definition ex_cp :: control_plane where
  "ex_cp = \<lparr>cp_reg = ex_reg, cp_det = \<lparr>cfg = ex_config, entries = ex_ents, events = []\<rparr>,
     cp_scan = ScanIdle, cp_clock = 10000000000\<rparr>"

lemma ex_cp_sel [simp]: "cp_reg ex_cp = ex_reg" "cfg (cp_det ex_cp) = ex_config"
  "entries (cp_det ex_cp) = ex_ents" "events (cp_det ex_cp) = []" "cp_scan ex_cp = ScanIdle"
  "cp_clock ex_cp = 10000000000"
  by (simp_all add: ex_cp_def)

lemma ex_cp_inv [simp]: "cp_inv ex_cp"
  by (simp add: cp_inv_def)

definition ex_cp_judging :: control_plane where
  "ex_cp_judging = ex_cp\<lparr>cp_scan := ScanJudging 10000000000 [ex_worker]\<rparr>"

lemma ex_cp_judging_inv [simp]: "cp_inv ex_cp_judging" "cp_scan ex_cp_judging \<noteq> ScanIdle"
  by (auto simp: ex_cp_judging_def cp_inv_def)

lemma ex_cp_judge: "cp_step exact_env ex_cp_judging (JudgeL [\<lparr>WorkerID = ''w1'', At = 10000000000\<rparr>])
     (ex_cp_judging\<lparr>cp_det := (cp_det ex_cp_judging)\<lparr>entries := Map.empty\<rparr>,
        cp_scan := ScanEvicting [\<lparr>WorkerID = ''w1'', At = 10000000000\<rparr>]\<rparr>)"
  by (rule cp_judge) (auto simp: ex_cp_judging_def ex_scan)

section \<open>Properties\<close>

text \<open>
  In every reachable state of the control plane the registry stores each worker under its own
  id, every detector entry has a window of the configured size and is not DEAD, the event channel
  is within its capacity, and the scanner has not panicked.
\<close>

lemma control_plane_invariant:
  assumes "reachable cp_init (cp_step fe) s"
  shows "reg_wf (cp_reg s) \<and> entries_wf (cfg (cp_det s)) (entries (cp_det s))
     \<and> length (events (cp_det s)) \<le> events_capacity \<and> cp_scan s \<noteq> ScanPanicked"
  using cp.sinv_reachable [OF assms] by (auto simp: cp_inv_def)

lemma control_plane_invariant_witness:
  "\<exists>s. reachable cp_init (cp_step exact_env) s \<and> workers (cp_reg s) ''w1'' \<noteq> None \<and> reg_wf (cp_reg s)"
proof -
  let ?s = "cp_start ex_config 0" and ?rq = "\<lparr>reg_WorkerId = ''w1'', reg_Address = ''h:1'', reg_Capacity = 10\<rparr>"
  let ?t = "?s\<lparr>cp_reg := snd (srv_Register (cp_clock ?s) ?rq (cp_reg ?s))\<rparr>"
  have "reachable cp_init (cp_step exact_env) ?s"
    by (rule reachable_init) (auto simp: cp_init_def intro: exI [of _ ex_config])
  moreover have "cp_step exact_env ?s (RegisterL ?rq) ?t"
    by (rule cp_register [OF surjective_pairing])
  ultimately have "reachable cp_init (cp_step exact_env) ?t" by (rule reachable_step)
  moreover from control_plane_invariant [OF this] have "reg_wf (cp_reg ?t)" by blast
  moreover have "workers (cp_reg ?t) ''w1'' \<noteq> None" by (simp add: srv_Register_def)
  ultimately show ?thesis by blast
qed

text \<open>
  A sweep terminates: once it has its snapshot of \<open>n\<close> workers, the scanner takes at most
  \<open>2n + 2\<close> steps of its own before it is idle again, because each of them lowers \<open>scan_work\<close> and
  no other goroutine's step raises it.
\<close>

lemma sweep_terminates:
  assumes "cp_inv s" and "cp_step fe s l t" and "cp_scan s \<noteq> ScanIdle"
  shows "if scanner_label l then scan_work (cp_scan t) < scan_work (cp_scan s)
         else scan_work (cp_scan t) \<le> scan_work (cp_scan s)"
  using assms(2)
proof (cases rule: cp_step.cases)
  case (cp_judge now ws ents deaths)
  with judge_deaths_length [OF assms(1)] show ?thesis by fastforce
qed (use assms(3) in auto)

lemma sweep_terminates_witness:
  "\<exists>t. cp_step exact_env ex_cp_judging (JudgeL [\<lparr>WorkerID = ''w1'', At = 10000000000\<rparr>]) t
     \<and> scan_work (cp_scan t) < scan_work (cp_scan ex_cp_judging)"
  using sweep_terminates [OF ex_cp_judging_inv(1) ex_cp_judge ex_cp_judging_inv(2)] ex_cp_judge
  by auto

text \<open>
  The scanner never gets stuck: in the middle of a sweep it always has a step, except when it
  waits to send on the full event channel, and then the draining goroutine has a step after which
  the send goes through.
\<close>

lemma scanner_progress:
  assumes "cp_inv s" and "cp_scan s \<noteq> ScanIdle"
  shows "(\<exists>l t. scanner_label l \<and> cp_step fe s l t)
     \<or> (\<exists>ev evs ev' t t'. cp_scan s = ScanSending ev evs \<and> length (events (cp_det s)) = events_capacity
          \<and> cp_step fe s (DrainL ev') t \<and> cp_step fe t (SendL ev) t')"
  using assms by (rule scan_progress)

lemma scanner_progress_witness:
  "\<exists>l t. scanner_label l \<and> cp_step exact_env ex_cp_judging l t"
  using scanner_progress [OF ex_cp_judging_inv, of exact_env] by (auto simp: ex_cp_judging_def)

text \<open>
  C27. The interleaved scanner implements \<^verbatim>\<open>scanOnce\<close>. After the snapshot the scanner's own steps alone, with no step of a handler, the
  clock or the drain between them, reach the state the function computes, idle again, or waiting to send the first event that does not fit
  into the channel; and every run of the scanner alone that goes on until it has no step ends exactly there.
\<close>

theorem sweep_refines_scanOnce:
  assumes "scanOnce fe now ks (cp_reg s) (cp_det s) = Some (r', d', pending)"
    and "cp_scan s = ScanIdle" and "now \<le> cp_clock s" and "iterates (workers (cp_reg s)) ks"
    and "t = s\<lparr>cp_reg := r', cp_det := d', cp_scan := (case pending of [] \<Rightarrow> ScanIdle | ev # evs' \<Rightarrow> ScanSending ev evs')\<rparr>"
  shows "\<exists>s1. cp_step fe s (SnapshotL now) s1 \<and> cp_scan s1 = ScanJudging now (ListWorkers ks (cp_reg s))
     \<and> (\<exists>ls. exec (scanner_step fe) s1 ls t)
     \<and> (\<forall>ls u. exec (scanner_step fe) s1 ls u \<longrightarrow> (\<nexists>l v. scanner_step fe u l v) \<longrightarrow> u = t)"
proof -
  obtain ents deaths ch' where p: "scan_judge fe (cfg (cp_det s)) now (ListWorkers ks (cp_reg s))
        (entries (cp_det s)) = Some (ents, deaths)"
      "scan_emit deaths (cp_reg s) (events (cp_det s)) = (r', ch', pending)"
      "d' = (cp_det s)\<lparr>entries := ents, events := ch'\<rparr>"
    using assms(1) by (auto simp: scanOnce_def Let_def split: bind_splits prod.splits)
  let ?s1 = "s\<lparr>cp_scan := ScanJudging now (ListWorkers ks (cp_reg s))\<rparr>"
  have snap: "cp_step fe s (SnapshotL now) ?s1" using assms(2-4) by (rule cp_snapshot)
  obtain ls where "\<forall>l \<in> set ls. scanner_label l" "exec (cp_step fe) ?s1 ls t"
    using judge_emit_exec [of ?s1 now "ListWorkers ks (cp_reg s)" fe ents deaths r' ch' pending] p unfolding assms(5) by auto
  then have run: "exec (scanner_step fe) ?s1 ls t" by (intro exec_scanner)
  have stop: "\<nexists>l v. scanner_step fe t l v"
    using scan_emit_pending p(2,3) scanner_stops [of t] assms(5) by (cases pending) auto
  have "u = t" if "exec (scanner_step fe) ?s1 ks u" "\<nexists>l v. scanner_step fe u l v" for ks u
    by (rule maximal_exec_unique [where step = "scanner_step fe", OF _ run stop that, THEN conjunct2]) (erule (1) scanner_step_unique)
  then show ?thesis using snap run by (intro exI [of _ ?s1]) auto
qed

theorem sweep_refines_scanOnce_witness:
  "\<exists>s1 ls. cp_step exact_env ex_cp (SnapshotL 10000000000) s1 \<and> exec (scanner_step exact_env) s1 ls
     (ex_cp\<lparr>cp_reg := ex_reg\<lparr>workers := Map.empty\<rparr>,
        cp_det := \<lparr>cfg = ex_config, entries = Map.empty, events = [\<lparr>WorkerID = ''w1'', At = 10000000000\<rparr>]\<rparr>,
        cp_scan := ScanIdle\<rparr>)"
proof -
  have "scanOnce exact_env 10000000000 [''w1''] (cp_reg ex_cp) (cp_det ex_cp)
      = Some (ex_reg\<lparr>workers := Map.empty\<rparr>,
          \<lparr>cfg = ex_config, entries = Map.empty, events = [\<lparr>WorkerID = ''w1'', At = 10000000000\<rparr>]\<rparr>, [])"
    by (simp add: scanOnce_def ex_scan events_capacity_def Deregister_def chan_send_def ex_cp_def)
  from sweep_refines_scanOnce [OF this _ _ _ refl] show ?thesis by auto
qed

text \<open>
  C37. A heartbeat accepted between the snapshot and the judgement does not save a worker: if a sweep starting now would declare it dead,
  there is an execution in which the worker's heartbeat is answered OK after the snapshot, the scanner then goes on alone (no handler,
  so nobody deregisters the worker), and this sweep evicts the worker, emits its death, and ends.
\<close>

theorem heartbeat_during_sweep_does_not_save:
  assumes "cp_inv s" and "cp_scan s = ScanIdle" and "now \<le> cp_clock s"
    and "workers (cp_reg s) wid = Some w"
    and "dies fe (cfg (cp_det s)) now (entries (cp_det s)) w"
    and "length (events (cp_det s)) + card (dom (workers (cp_reg s))) \<le> events_capacity"
  shows "\<exists>ls t. exec (cp_step fe) s
       ([SnapshotL now, HeartbeatL \<lparr>hb_WorkerId = wid, hb_Load = None\<rparr> (Inr ())] @ ls) t
     \<and> (\<forall>l \<in> set ls. scanner_label l) \<and> (\<exists>ev. EvictL ev \<in> set ls \<and> WorkerID ev = wid)
     \<and> cp_scan t = ScanIdle \<and> workers (cp_reg t) wid = None \<and> \<lparr>WorkerID = wid, At = now\<rparr> \<in> set (events (cp_det t))"
proof -
  obtain ks where ks: "iterates (workers (cp_reg s)) ks"
    using assms(1) reg_wf_iterates [of "cp_reg s"] by (auto simp: cp_inv_def)
  let ?ws = "ListWorkers ks (cp_reg s)" and ?hb = "\<lparr>hb_WorkerId = wid, hb_Load = None\<rparr>"
  let ?s1 = "s\<lparr>cp_scan := ScanJudging now ?ws\<rparr>"
  have snap: "cp_step fe s (SnapshotL now) ?s1" using assms(2,3) ks by (rule cp_snapshot)
  let ?r2 = "(cp_reg s)\<lparr>workers := (workers (cp_reg s))(wid \<mapsto> w\<lparr>Load := 0, LastSeen := cp_clock s\<rparr>)\<rparr>"
  let ?s2 = "?s1\<lparr>cp_reg := ?r2\<rparr>"
  have beat: "cp_step fe ?s1 (HeartbeatL ?hb (Inr ())) ?s2"
    using assms(4) srv_Heartbeat_known [of "cp_reg s" ?hb w "cp_clock s"] by (intro cp_heartbeat) simp
  have wf: "reg_wf (cp_reg s)" "0 < WindowSize (cfg (cp_det s))"
      "entries_wf (cfg (cp_det s)) (entries (cp_det s))"
    using assms(1) by (auto simp: cp_inv_def)
  define deaths where "deaths = map (\<lambda>w. \<lparr>WorkerID = ID w, At = now\<rparr>)
      (filter (dies fe (cfg (cp_det s)) now (entries (cp_det s))) ?ws)"
  obtain ents where j: "scan_judge fe (cfg (cp_det s)) now ?ws (entries (cp_det s)) = Some (ents, deaths)"
    using scan_judge_spec [OF wf(2,3,1) ks] unfolding deaths_def by blast
  have "length ?ws = card (dom (workers (cp_reg s)))"
    using ListWorkers_ids [OF wf(1) ks] ks by (metis distinct_card iterates_def length_map)
  then have "length deaths \<le> card (dom (workers (cp_reg s)))"
    unfolding deaths_def using length_filter_le [of _ ?ws] by simp
  with assms(6) have room: "length (events (cp_det s)) + length deaths \<le> events_capacity" by linarith
  have dead: "\<lparr>WorkerID = wid, At = now\<rparr> \<in> set deaths"
  proof -
    have "ID w = wid" using wf(1) assms(4) by (simp add: reg_wf_def)
    then have "w \<in> set ?ws" using reg.snapshot_mem [OF wf(1) ks, of w] assms(4) by simp
    then show ?thesis using assms(5) \<open>ID w = wid\<close> unfolding deaths_def by force
  qed
  let ?t = "?s2\<lparr>cp_reg := ?r2\<lparr>workers := workers ?r2 |` (- (WorkerID ` set deaths))\<rparr>,
      cp_det := (cp_det s)\<lparr>entries := ents, events := events (cp_det s) @ deaths\<rparr>, cp_scan := ScanIdle\<rparr>"
  have "\<exists>ls. (\<forall>l \<in> set ls. scanner_label l) \<and> exec (cp_step fe) ?s2 ls ?t"
    using judge_emit_exec [of ?s2 now ?ws fe ents deaths, OF _ _ scan_emit_unblocked] j room by auto
  then obtain ls where ls: "\<forall>l \<in> set ls. scanner_label l" "exec (cp_step fe) ?s2 ls ?t" by blast
  have gone: "workers (cp_reg ?t) wid = None" using dead by (force simp: restrict_map_def)
  moreover have "\<exists>ev. EvictL ev \<in> set ls \<and> WorkerID ev = wid"
    by (rule scanner_evicts [OF exec_scanner [OF ls(2,1)] _ gone]) simp
  moreover have "exec (cp_step fe) s (SnapshotL now # HeartbeatL ?hb (Inr ()) # ls) ?t"
    by (rule exec_cons [where step = "cp_step fe", OF snap exec_cons [where step = "cp_step fe", OF beat ls(2)]])
  moreover have "\<lparr>WorkerID = wid, At = now\<rparr> \<in> set (events (cp_det ?t))" using dead by simp
  ultimately show ?thesis using ls(1) by (intro exI [of _ ls] exI [of _ ?t]) simp
qed

theorem heartbeat_during_sweep_does_not_save_witness:
  "\<exists>ls t. exec (cp_step exact_env) ex_cp
       ([SnapshotL 10000000000, HeartbeatL \<lparr>hb_WorkerId = ''w1'', hb_Load = None\<rparr> (Inr ())] @ ls) t
     \<and> (\<forall>l \<in> set ls. scanner_label l) \<and> (\<exists>ev. EvictL ev \<in> set ls \<and> WorkerID ev = ''w1'')
     \<and> cp_scan t = ScanIdle \<and> workers (cp_reg t) ''w1'' = None \<and> \<lparr>WorkerID = ''w1'', At = 10000000000\<rparr> \<in> set (events (cp_det t))"
  by (rule heartbeat_during_sweep_does_not_save [where w = ex_worker])
     (auto simp: ex_dies events_capacity_def)

end
