(* ===== verification/Go_Process.thy ===== *)
theory Go_Process
  imports Go_Runtime
begin

text \<open>
  What the three server processes (\<^verbatim>\<open>cmd/gateway\<close>, \<^verbatim>\<open>cmd/controlplane\<close>, \<^verbatim>\<open>cmd/worker\<close>) have in common:
  a context that a signal or \<^verbatim>\<open>stop()\<close> cancels, a goroutine in \<^verbatim>\<open>grpcServer.Serve\<close>, the sequence that
  waits for the cancellation and calls \<^verbatim>\<open>GracefulStop\<close>, a \<^verbatim>\<open>sync.WaitGroup\<close> and a main that leaves
  after \<^verbatim>\<open>wg.Wait()\<close>.

  The gRPC server is a library: when it accepts a call, when \<^verbatim>\<open>Serve\<close> and \<^verbatim>\<open>GracefulStop\<close> return is
  an argument (\<open>grpc_server\<close>), and \<open>grpc_ok\<close> is its documented behaviour. The locale \<open>server_process\<close>
  is the contract between this skeleton and a process built on it; each of the three process theories interprets it.
\<close>

section \<open>The gRPC server\<close>

text \<open>What its decisions depend on: whether \<^verbatim>\<open>GracefulStop\<close> has been called, and the calls running.\<close>

record server_view =
  sv_stopping :: bool
  sv_running :: nat

record grpc_server =
  may_accept :: "server_view \<Rightarrow> bool"
  may_serve_return :: "server_view \<Rightarrow> go_error option \<Rightarrow> bool"
  may_stop_return :: "server_view \<Rightarrow> bool"

text \<open>
  The documentation of the package: \<^verbatim>\<open>GracefulStop\<close> stops the server from accepting new calls and
  blocks until all pending ones are finished; \<^verbatim>\<open>Serve\<close> returns a non-nil error unless \<^verbatim>\<open>Stop\<close> or
  \<^verbatim>\<open>GracefulStop\<close> is called, and after that it does return.
\<close>

definition grpc_ok :: "grpc_server \<Rightarrow> bool" where
  "grpc_ok g \<longleftrightarrow>
     (\<forall>v. sv_stopping v \<longrightarrow> \<not> may_accept g v)
     \<and> (\<forall>v. may_stop_return g v \<longleftrightarrow> sv_stopping v \<and> sv_running v = 0)
     \<and> (\<forall>v. may_serve_return g v None \<longrightarrow> sv_stopping v)
     \<and> (\<forall>v. sv_stopping v \<longrightarrow> sv_running v = 0 \<longrightarrow> (\<exists>e. may_serve_return g v e))"

lemma grpc_okD:
  assumes "grpc_ok g"
  shows "sv_stopping v \<Longrightarrow> \<not> may_accept g v"
    and "may_stop_return g v \<longleftrightarrow> sv_stopping v \<and> sv_running v = 0"
    and "may_serve_return g v None \<Longrightarrow> sv_stopping v"
    and "sv_stopping v \<Longrightarrow> sv_running v = 0 \<Longrightarrow> \<exists>e. may_serve_return g v e"
  using assms unfolding grpc_ok_def by blast+

text \<open>A server that does all that the documentation allows.\<close>

definition sample_server :: grpc_server where
  "sample_server =
     \<lparr>may_accept = (\<lambda>v. \<not> sv_stopping v),
      may_serve_return = (\<lambda>v e. e \<noteq> None \<or> sv_stopping v),
      may_stop_return = (\<lambda>v. sv_stopping v \<and> sv_running v = 0)\<rparr>"

lemma sample_server_ok [simp]: "grpc_ok sample_server"
  by (auto simp: grpc_ok_def sample_server_def)

lemma sample_server_sel [simp]:
  "may_accept sample_server v \<longleftrightarrow> \<not> sv_stopping v"
  "may_serve_return sample_server v e \<longleftrightarrow> e \<noteq> None \<or> sv_stopping v"
  "may_stop_return sample_server v \<longleftrightarrow> sv_stopping v \<and> sv_running v = 0"
  by (simp_all add: sample_server_def)

section \<open>The skeleton of a process\<close>

text \<open>The goroutine around \<^verbatim>\<open>Serve\<close>, and the sequence that waits for the context and stops the server.\<close>

datatype serve_pc = Serving | ServeFailed go_error | ServeReturned

datatype stop_pc = AwaitCtx | Stopping | Stopped | StopDone

record process =
  ctx_done :: bool
  serve_at :: serve_pc
  stop_at :: stop_pc
  wg :: int
  exited :: bool

definition process_start :: "int \<Rightarrow> process" where
  "process_start k =
     \<lparr>ctx_done = False, serve_at = Serving, stop_at = AwaitCtx, wg = k, exited = False\<rparr>"

definition view_of :: "process \<Rightarrow> nat \<Rightarrow> server_view" where
  "view_of c k = \<lparr>sv_stopping = (stop_at c \<noteq> AwaitCtx), sv_running = k\<rparr>"

lemma view_of_sel [simp]:
  "sv_stopping (view_of c k) \<longleftrightarrow> stop_at c \<noteq> AwaitCtx" "sv_running (view_of c k) = k"
  by (simp_all add: view_of_def)

text \<open>A start-up either ends in \<^verbatim>\<open>log.Fatalf\<close> (the message, unrendered) or leaves a running process.\<close>

datatype 'a startup = Fatal string "fmt_arg list" | Up 'a

datatype core_label = CSignal | CServeNil | CServeError go_error | CServeStop | CStop | CStopped
  | CBridgeDone | CDone | CExit

text \<open>
  The moves: a signal; \<^verbatim>\<open>Serve\<close> returning nil, or an error, which is logged and followed by \<^verbatim>\<open>stop()\<close>;
  the call of \<^verbatim>\<open>GracefulStop\<close> after \<^verbatim>\<open><-ctx.Done()\<close>, its return, the end of the goroutine around it;
  another goroutine's deferred \<^verbatim>\<open>wg.Done()\<close>; the return of main after \<^verbatim>\<open>wg.Wait()\<close>. \<open>k\<close> is the number
  of calls the server runs.
\<close>

inductive core_step :: "grpc_server \<Rightarrow> nat \<Rightarrow> process \<Rightarrow> core_label \<Rightarrow> process \<Rightarrow> bool"
  for g :: grpc_server and k :: nat and c :: process where
  core_signal: "\<not> ctx_done c \<Longrightarrow> core_step g k c CSignal (c\<lparr>ctx_done := True\<rparr>)"
| core_serve_nil: "serve_at c = Serving \<Longrightarrow> may_serve_return g (view_of c k) None \<Longrightarrow>
    core_step g k c CServeNil (c\<lparr>serve_at := ServeReturned, wg := wg c - 1\<rparr>)"
| core_serve_error: "serve_at c = Serving \<Longrightarrow> may_serve_return g (view_of c k) (Some e) \<Longrightarrow>
    core_step g k c (CServeError e) (c\<lparr>serve_at := ServeFailed e\<rparr>)"
| core_serve_stop: "serve_at c = ServeFailed e \<Longrightarrow>
    core_step g k c CServeStop (c\<lparr>ctx_done := True, serve_at := ServeReturned, wg := wg c - 1\<rparr>)"
| core_stop: "stop_at c = AwaitCtx \<Longrightarrow> ctx_done c \<Longrightarrow> core_step g k c CStop (c\<lparr>stop_at := Stopping\<rparr>)"
| core_stopped: "stop_at c = Stopping \<Longrightarrow> may_stop_return g (view_of c k) \<Longrightarrow>
    core_step g k c CStopped (c\<lparr>stop_at := Stopped\<rparr>)"
| core_bridge_done: "stop_at c = Stopped \<Longrightarrow>
    core_step g k c CBridgeDone (c\<lparr>stop_at := StopDone, wg := wg c - 1\<rparr>)"
| core_done: "core_step g k c CDone (c\<lparr>wg := wg c - 1\<rparr>)"
| core_exit: "wg c = 0 \<Longrightarrow> core_step g k c CExit (c\<lparr>exited := True\<rparr>)"

inductive_cases core_stepE: "core_step g k c l c'"
inductive_cases core_exitE [elim!]: "core_step g k c CExit c'"
inductive_cases core_bridgeE [elim!]: "core_step g k c CBridgeDone c'"
inductive_cases core_doneE [elim!]: "core_step g k c CDone c'"

text \<open>
  The goroutines of the skeleton that have not called \<^verbatim>\<open>wg.Done()\<close>: the one around \<^verbatim>\<open>Serve\<close> and, where
  the stop sequence is a goroutine of its own, that one.
\<close>

definition serve_live :: "process \<Rightarrow> int" where
  "serve_live c = (if serve_at c = ServeReturned then 0 else 1)"

definition bridge_live :: "process \<Rightarrow> int" where
  "bridge_live c = (if stop_at c = StopDone then 0 else 1)"

text \<open>
  What holds of the skeleton in every process: the stop sequence starts only after the cancellation,
  \<^verbatim>\<open>Serve\<close> is over only after the cancellation, and once \<^verbatim>\<open>GracefulStop\<close> has returned no call is running.
\<close>

definition core_inv :: "process \<Rightarrow> nat \<Rightarrow> bool" where
  "core_inv c k \<longleftrightarrow> (stop_at c \<noteq> AwaitCtx \<longrightarrow> ctx_done c) \<and> (serve_at c = ServeReturned \<longrightarrow> ctx_done c)
     \<and> (stop_at c \<in> {Stopped, StopDone} \<longrightarrow> k = 0)"

lemma core_inv_start [simp]: "core_inv (process_start n) k"
  by (simp add: core_inv_def process_start_def)

lemma core_inv_step: "grpc_ok g \<Longrightarrow> core_step g k c l c' \<Longrightarrow> core_inv c k \<Longrightarrow> core_inv c' k"
  by (erule core_step.cases) (auto simp: core_inv_def dest: grpc_okD(3) simp: grpc_okD(2))

section \<open>The contract of a process built on the skeleton\<close>

text \<open>
  Every step of the process is a move of the skeleton that leaves the running calls alone, or leaves
  the skeleton alone and starts a call only if the server accepts.
\<close>

locale server_process =
  fixes g :: grpc_server
    and init :: "'s \<Rightarrow> bool"
    and step :: "'s \<Rightarrow> 'l \<Rightarrow> 's \<Rightarrow> bool"
    and core :: "'s \<Rightarrow> process"
    and running :: "'s \<Rightarrow> nat"
  assumes server_init: "init s \<Longrightarrow> (\<exists>n. core s = process_start n) \<and> running s = 0"
    and server_step: "step s l t \<Longrightarrow> (\<exists>cl. core_step g (running s) (core s) cl (core t)) \<and> running t = running s
        \<or> core t = core s \<and> (running t \<le> running s \<or> may_accept g (view_of (core s) (running s)))"
begin

lemma server_inv_step:
  assumes server_ok: "grpc_ok g" and inv: "core_inv (core s) (running s)" and step: "step s l t"
  shows "core_inv (core t) (running t)"
  using server_step [OF step]
proof
  assume "(\<exists>cl. core_step g (running s) (core s) cl (core t)) \<and> running t = running s"
  with core_inv_step [OF server_ok] inv show ?thesis by auto
next
  assume stay: "core t = core s \<and> (running t \<le> running s \<or> may_accept g (view_of (core s) (running s)))"
  show ?thesis
  proof (cases "stop_at (core s) = AwaitCtx")
    case True
    with stay inv show ?thesis by (simp add: core_inv_def)
  next
    case False
    then have "\<not> may_accept g (view_of (core s) (running s))" by (intro grpc_okD(1) [OF server_ok]) simp
    with stay have "running t \<le> running s" "core t = core s" by auto
    with inv show ?thesis by (cases "stop_at (core s)") (simp_all add: core_inv_def)
  qed
qed

end

sublocale server_process \<subseteq> life: state_invariant init step "\<lambda>s. grpc_ok g \<longrightarrow> core_inv (core s) (running s)"
proof
  fix s assume "init s"
  then obtain n where "core s = process_start n" "running s = 0" using server_init by blast
  then show "grpc_ok g \<longrightarrow> core_inv (core s) (running s)" by simp
next
  fix s l t assume "grpc_ok g \<longrightarrow> core_inv (core s) (running s)" "step s l t"
  then show "grpc_ok g \<longrightarrow> core_inv (core t) (running t)" using server_inv_step by blast
qed

context server_process begin

text \<open>Once \<^verbatim>\<open>GracefulStop\<close> has returned, no call runs and none starts again.\<close>

lemma drained: "grpc_ok g \<Longrightarrow> reachable init step s \<Longrightarrow> stop_at (core s) \<in> {Stopped, StopDone} \<Longrightarrow> running s = 0"
  using life.sinv_reachable by (auto simp: core_inv_def)

lemma stop_after_cancel: "grpc_ok g \<Longrightarrow> reachable init step s \<Longrightarrow> stop_at (core s) \<noteq> AwaitCtx \<Longrightarrow> ctx_done (core s)"
  using life.sinv_reachable by (auto simp: core_inv_def)

lemma serve_ends_after_cancel: "grpc_ok g \<Longrightarrow> reachable init step s \<Longrightarrow> serve_at (core s) = ServeReturned \<Longrightarrow> ctx_done (core s)"
  using life.sinv_reachable by (auto simp: core_inv_def)

text \<open>
  With the context done and no call running, the skeleton has a move of its own until the server is
  stopped and \<^verbatim>\<open>Serve\<close> has returned: neither waits for the other.
\<close>

lemma stop_progress:
  assumes server_ok: "grpc_ok g" and "ctx_done (core s)" and "running s = 0"
  shows "stop_at (core s) \<in> {Stopped, StopDone} \<and> serve_at (core s) = ServeReturned
     \<or> (\<exists>l c'. l \<notin> {CSignal, CBridgeDone, CDone, CExit} \<and> core_step g (running s) (core s) l c')"
proof -
  consider "stop_at (core s) = AwaitCtx" | "stop_at (core s) = Stopping"
    | e where "serve_at (core s) = ServeFailed e"
    | "stop_at (core s) \<in> {Stopped, StopDone}" "serve_at (core s) = Serving"
    | "stop_at (core s) \<in> {Stopped, StopDone}" "serve_at (core s) = ServeReturned"
    by (cases "stop_at (core s)"; cases "serve_at (core s)") auto
  then show ?thesis
  proof cases
    case 1
    then have "core_step g (running s) (core s) CStop ((core s)\<lparr>stop_at := Stopping\<rparr>)"
      using assms(2) by (rule core_stop)
    then show ?thesis by blast
  next
    case 2
    then have "may_stop_return g (view_of (core s) (running s))"
      using assms(3) grpc_okD(2) [OF server_ok] by simp
    from core_stopped [OF 2 this] show ?thesis by blast
  next
    case 3
    from core_serve_stop [OF this, of g] show ?thesis by blast
  next
    case 4
    then obtain e where e: "may_serve_return g (view_of (core s) (running s)) e"
      using assms(3) grpc_okD(4) [OF server_ok, of "view_of (core s) (running s)"] by auto
    show ?thesis
    proof (cases e)
      case None
      with core_serve_nil [OF 4(2)] e show ?thesis by blast
    next
      case (Some x)
      with core_serve_error [OF 4(2)] e show ?thesis by blast
    qed
  qed auto
qed

end

section \<open>The rank of a shutdown\<close>

text \<open>How many moves the skeleton itself has left once the context is done.\<close>

definition core_rank :: "process \<Rightarrow> nat" where
  "core_rank c = (case serve_at c of Serving \<Rightarrow> 2 | ServeFailed e \<Rightarrow> 1 | ServeReturned \<Rightarrow> 0)
     + (case stop_at c of AwaitCtx \<Rightarrow> 3 | Stopping \<Rightarrow> 2 | Stopped \<Rightarrow> 1 | StopDone \<Rightarrow> 0)
     + (if exited c then 0 else 1)"

lemma core_rank_step:
  assumes "core_step g k c l c'" and "ctx_done c" and "\<not> exited c" and "l \<noteq> CDone"
  shows "core_rank c' < core_rank c"
  using assms by cases (auto simp: core_rank_def)

lemma core_done_rank [simp]: "core_rank (c\<lparr>wg := n\<rparr>) = core_rank c"
  by (simp add: core_rank_def)

lemma core_frame:
  assumes "core_step g k c l c'"
  shows "ctx_done c \<Longrightarrow> ctx_done c'" "l \<noteq> CExit \<Longrightarrow> exited c' = exited c"
    "l \<noteq> CBridgeDone \<Longrightarrow> bridge_live c' = bridge_live c"
    "stop_at c \<in> {Stopped, StopDone} \<Longrightarrow> stop_at c' \<in> {Stopped, StopDone}"
  using assms by (cases; auto simp: bridge_live_def)+

text \<open>Every move but the two \<^verbatim>\<open>Done\<close>s of other goroutines keeps the difference of the counter and the serving goroutine.\<close>

lemma core_wg:
  assumes "core_step g k c l c'"
  shows "wg c' - serve_live c' = wg c - serve_live c - (if l \<in> {CBridgeDone, CDone} then 1 else 0)"
  using assms by cases (auto simp: serve_live_def)

text \<open>Where the stop sequence is a goroutine of its own, the counter counts it too.\<close>

lemma core_wg_bridge:
  assumes "core_step g k c l c'" and "l \<noteq> CDone"
  shows "wg c' - serve_live c' - bridge_live c' = wg c - serve_live c - bridge_live c"
  using assms by cases (auto simp: serve_live_def bridge_live_def)

end
