(* ===== verification/Control_Plane_Process.thy ===== *)
theory Control_Plane_Process
  imports Control_Plane Go_Process
begin

text \<open>
  The control plane's process (\<^verbatim>\<open>cmd/controlplane/main.go\<close> and \<^verbatim>\<open>Detector.Run\<close> of
  \<^verbatim>\<open>internal/detector/detector.go\<close>): the components of \<open>Control_Plane\<close> inside the skeleton of
  \<open>Go_Process\<close>. Here main itself waits for the context and calls \<^verbatim>\<open>GracefulStop\<close>; the goroutines it then
  waits for are the scanner's loop, the one around \<^verbatim>\<open>Serve\<close> and the one that drains the events.

  The shutdown has one way to hang, and the theory proves that it has no other: the scanner waits to send
  on the full event channel after the draining goroutine has taken \<^verbatim>\<open><-ctx.Done()\<close>.
\<close>

section \<open>The scanner's loop\<close>

text \<open>
  \<^verbatim>\<open>Run\<close>: a \<^verbatim>\<open>select\<close> between the cancelled context and the ticker, and a whole sweep per tick. With both
  cases ready the select may take either.
\<close>

datatype run_pc = RunSelect | RunSweeping | RunReturned

inductive Run_step :: "float_env \<Rightarrow> bool \<Rightarrow> control_plane \<Rightarrow> run_pc \<Rightarrow> cp_label option \<Rightarrow> control_plane \<Rightarrow> run_pc \<Rightarrow> bool"
  for fe :: float_env and ctx :: bool and u :: control_plane where
  run_cancelled: "ctx \<Longrightarrow> Run_step fe ctx u RunSelect None u RunReturned"
| run_tick: "cp_step fe u (SnapshotL now) v \<Longrightarrow> Run_step fe ctx u RunSelect (Some (SnapshotL now)) v RunSweeping"
| run_sweep: "cp_step fe u l v \<Longrightarrow> scanner_label l \<or> l = PanicL \<Longrightarrow> l \<noteq> ScanDoneL \<Longrightarrow>
    Run_step fe ctx u RunSweeping (Some l) v RunSweeping"
| run_swept: "cp_step fe u ScanDoneL v \<Longrightarrow> Run_step fe ctx u RunSweeping (Some ScanDoneL) v RunSelect"

inductive_cases Run_stepE: "Run_step fe ctx u pc l v pc'"

section \<open>The process\<close>

record controlplane_process =
  cpp_core :: process
  cpp_sys :: control_plane
  cpp_calls :: nat
  cpp_run :: run_pc
  cpp_drained :: bool

definition listenAddr :: string where "listenAddr = '':50051''"

definition controlplane_start :: "time \<Rightarrow> controlplane_process" where
  "controlplane_start clock = \<lparr>cpp_core = process_start 3, cpp_sys = cp_start controlplane_config clock,
     cpp_calls = 0, cpp_run = RunSelect, cpp_drained = False\<rparr>"

definition controlplane_main :: "(string \<Rightarrow> go_error option) \<Rightarrow> time \<Rightarrow> controlplane_process startup" where
  "controlplane_main listen clock =
     (case listen listenAddr of
        Some err \<Rightarrow> Fatal ''failed to listen on %s: %v'' [ArgString listenAddr, ArgErr err]
      | None \<Rightarrow> Up (controlplane_start clock))"

fun handler_label :: "cp_label \<Rightarrow> bool" where
  "handler_label (RegisterL req) = True"
| "handler_label (HeartbeatL req res) = True"
| "handler_label (DeregisterL req) = True"
| "handler_label (ListWorkersL resp) = True"
| "handler_label l = False"

datatype cpp_label = PCore core_label | PAccept | PSys cp_label | PScannerExit | PDrainExit

text \<open>
  The server accepts a call, and the call's handler runs; the scanner runs inside \<^verbatim>\<open>Run\<close>; the drain
  receives until its \<^verbatim>\<open>select\<close> takes the cancelled context; main leaves when \<^verbatim>\<open>GracefulStop\<close> has returned
  and the three goroutines have.
\<close>

inductive cpp_step :: "grpc_server \<Rightarrow> float_env \<Rightarrow> controlplane_process \<Rightarrow> cpp_label \<Rightarrow> controlplane_process \<Rightarrow> bool"
  for g :: grpc_server and fe :: float_env and s :: controlplane_process where
  cpp_skeleton: "\<not> exited (cpp_core s) \<Longrightarrow> core_step g (cpp_calls s) (cpp_core s) cl c' \<Longrightarrow> cl \<notin> {CBridgeDone, CDone} \<Longrightarrow>
    (cl = CExit \<longrightarrow> stop_at (cpp_core s) = Stopped) \<Longrightarrow>
    cpp_step g fe s (PCore cl) (s\<lparr>cpp_core := c'\<rparr>)"
| cpp_accept: "\<not> exited (cpp_core s) \<Longrightarrow> serve_at (cpp_core s) = Serving \<Longrightarrow>
    may_accept g (view_of (cpp_core s) (cpp_calls s)) \<Longrightarrow>
    cpp_step g fe s PAccept (s\<lparr>cpp_calls := cpp_calls s + 1\<rparr>)"
| cpp_handle: "\<not> exited (cpp_core s) \<Longrightarrow> handler_label l \<Longrightarrow> 0 < cpp_calls s \<Longrightarrow> cp_step fe (cpp_sys s) l u \<Longrightarrow>
    cpp_step g fe s (PSys l) (s\<lparr>cpp_sys := u, cpp_calls := cpp_calls s - 1\<rparr>)"
| cpp_clock: "\<not> exited (cpp_core s) \<Longrightarrow> cp_step fe (cpp_sys s) TickL u \<Longrightarrow>
    cpp_step g fe s (PSys TickL) (s\<lparr>cpp_sys := u\<rparr>)"
| cpp_scan: "\<not> exited (cpp_core s) \<Longrightarrow>
    Run_step fe (ctx_done (cpp_core s)) (cpp_sys s) (cpp_run s) (Some l) u pc' \<Longrightarrow>
    cpp_step g fe s (PSys l) (s\<lparr>cpp_sys := u, cpp_run := pc'\<rparr>)"
| cpp_scanner_exit: "\<not> exited (cpp_core s) \<Longrightarrow>
    Run_step fe (ctx_done (cpp_core s)) (cpp_sys s) (cpp_run s) None u pc' \<Longrightarrow>
    core_step g (cpp_calls s) (cpp_core s) CDone c' \<Longrightarrow>
    cpp_step g fe s PScannerExit (s\<lparr>cpp_core := c', cpp_sys := u, cpp_run := pc'\<rparr>)"
| cpp_drain: "\<not> exited (cpp_core s) \<Longrightarrow> \<not> cpp_drained s \<Longrightarrow> cp_step fe (cpp_sys s) (DrainL ev) u \<Longrightarrow>
    cpp_step g fe s (PSys (DrainL ev)) (s\<lparr>cpp_sys := u\<rparr>)"
| cpp_drain_exit: "\<not> exited (cpp_core s) \<Longrightarrow> \<not> cpp_drained s \<Longrightarrow> ctx_done (cpp_core s) \<Longrightarrow>
    core_step g (cpp_calls s) (cpp_core s) CDone c' \<Longrightarrow>
    cpp_step g fe s PDrainExit (s\<lparr>cpp_core := c', cpp_drained := True\<rparr>)"

inductive_cases cpp_stepE: "cpp_step g fe s l t"

definition cpp_init :: "controlplane_process \<Rightarrow> bool" where
  "cpp_init s \<longleftrightarrow> (\<exists>clock. s = controlplane_start clock)"

text \<open>The steps inside the control plane are steps of \<open>Control_Plane\<close>.\<close>

fun cp_labels :: "cpp_label \<Rightarrow> cp_label list" where
  "cp_labels (PSys l) = [l]"
| "cp_labels l = []"

lemma cpp_step_sys: "cpp_step g fe s l t \<Longrightarrow> exec (cp_step fe) (cpp_sys s) (cp_labels l) (cpp_sys t)"
  by (erule cpp_step.cases) (auto elim: Run_stepE)

section \<open>The skeleton's contract\<close>

interpretation cps: server_process g cpp_init "cpp_step g fe" cpp_core cpp_calls
proof
  show "(\<exists>n. cpp_core s = process_start n) \<and> cpp_calls s = 0" if "cpp_init s" for s
    using that by (auto simp: cpp_init_def controlplane_start_def)
  show "(\<exists>cl. core_step g (cpp_calls s) (cpp_core s) cl (cpp_core t)) \<and> cpp_calls t = cpp_calls s
     \<or> cpp_core t = cpp_core s \<and> (cpp_calls t \<le> cpp_calls s \<or> may_accept g (view_of (cpp_core s) (cpp_calls s)))"
    if "cpp_step g fe s l t" for s l t
    using that by cases (auto intro: core_done)
qed

section \<open>The invariant\<close>

definition run_live :: "controlplane_process \<Rightarrow> int" where
  "run_live s = (if cpp_run s = RunReturned then 0 else 1)"

definition drain_live :: "controlplane_process \<Rightarrow> int" where
  "drain_live s = (if cpp_drained s then 0 else 1)"

definition cpp_inv :: "controlplane_process \<Rightarrow> bool" where
  "cpp_inv s \<longleftrightarrow> cp_inv (cpp_sys s) \<and> (cp_scan (cpp_sys s) = ScanIdle \<longleftrightarrow> cpp_run s \<noteq> RunSweeping)
     \<and> wg (cpp_core s) = serve_live (cpp_core s) + run_live s + drain_live s
     \<and> stop_at (cpp_core s) \<noteq> StopDone
     \<and> (exited (cpp_core s) \<longrightarrow> wg (cpp_core s) = 0 \<and> stop_at (cpp_core s) = Stopped)"

lemma controlplane_init: "cp_init (cp_start controlplane_config clock)"
  unfolding cp_init_def by (intro exI [of _ controlplane_config] exI [of _ clock]) (simp add: controlplane_config_def)

lemma cpp_inv_init: "cpp_init s \<Longrightarrow> cpp_inv s"
  using cp_inv_init [OF controlplane_init]
  by (auto simp: cpp_init_def cpp_inv_def controlplane_start_def process_start_def serve_live_def run_live_def
      drain_live_def cp_start_def)

lemma cp_step_scan:
  assumes "cp_step fe u l v"
  shows "handler_label l \<or> l = TickL \<or> (\<exists>ev. l = DrainL ev) \<Longrightarrow> cp_scan v = cp_scan u"
    and "l = SnapshotL now \<Longrightarrow> cp_scan v \<noteq> ScanIdle"
    and "scanner_label l \<or> l = PanicL \<Longrightarrow> l \<noteq> ScanDoneL \<Longrightarrow> cp_scan v \<noteq> ScanIdle"
    and "l = ScanDoneL \<Longrightarrow> cp_scan v = ScanIdle"
  using assms by (cases; simp)+

lemma Run_step_scan:
  assumes "Run_step fe ctx u pc l v pc'" and "cp_scan u = ScanIdle \<longleftrightarrow> pc \<noteq> RunSweeping"
  shows "cp_scan v = ScanIdle \<longleftrightarrow> pc' \<noteq> RunSweeping"
    and "pc' = RunReturned \<longleftrightarrow> l = None" and "pc \<noteq> RunReturned" and "l = None \<Longrightarrow> v = u \<and> ctx"
  using assms by (cases; auto dest: cp_step_scan)+

lemma cpp_inv_step:
  assumes inv: "cpp_inv s" and step: "cpp_step g fe s l t"
  shows "cpp_inv t"
proof -
  have sys: "cp_inv (cpp_sys t)" using cp.sinv_exec [OF cpp_step_sys [OF step]] inv by (simp add: cpp_inv_def)
  have scan: "cp_scan (cpp_sys s) = ScanIdle \<longleftrightarrow> cpp_run s \<noteq> RunSweeping" using inv by (simp add: cpp_inv_def)
  show ?thesis using step
  proof cases
    case (cpp_skeleton cl c')
    have "wg c' = serve_live c' + run_live s + drain_live s"
      using core_wg [OF cpp_skeleton(4)] cpp_skeleton(5) inv by (simp add: cpp_inv_def)
    moreover have "stop_at c' \<noteq> StopDone"
      using cpp_skeleton(4,5) inv by (auto simp: cpp_inv_def elim: core_stepE)
    moreover have "exited c' \<Longrightarrow> wg c' = 0 \<and> stop_at c' = Stopped"
      using cpp_skeleton(3-6) by (auto elim: core_stepE)
    ultimately show ?thesis
      using inv sys cpp_skeleton(1,2) by (auto simp: cpp_inv_def run_live_def drain_live_def)
  next
    case (cpp_handle l' u)
    then show ?thesis
      using inv sys cp_step_scan(1) [OF cpp_handle(6)] by (auto simp: cpp_inv_def run_live_def drain_live_def)
  next
    case (cpp_clock u)
    then show ?thesis
      using inv sys cp_step_scan(1) [OF cpp_clock(4)] by (auto simp: cpp_inv_def run_live_def drain_live_def)
  next
    case (cpp_scan l' u pc')
    then show ?thesis
      using inv sys Run_step_scan [OF cpp_scan(4) scan] by (auto simp: cpp_inv_def run_live_def drain_live_def)
  next
    case (cpp_scanner_exit u pc' c')
    note r = Run_step_scan [OF cpp_scanner_exit(4) scan]
    from cpp_scanner_exit(5) show ?thesis
      using inv sys r cpp_scanner_exit(1-3) by cases (auto simp: cpp_inv_def run_live_def drain_live_def serve_live_def)
  next
    case (cpp_drain ev u)
    then show ?thesis
      using inv sys cp_step_scan(1) [OF cpp_drain(5)] by (auto simp: cpp_inv_def run_live_def drain_live_def)
  next
    case (cpp_drain_exit c')
    from cpp_drain_exit(6) show ?thesis
      using inv sys cpp_drain_exit(1-4) by cases (auto simp: cpp_inv_def run_live_def drain_live_def serve_live_def)
  qed (use inv sys in \<open>auto simp: cpp_inv_def run_live_def drain_live_def\<close>)
qed

interpretation cpi: state_invariant cpp_init "cpp_step g fe" cpp_inv
  by unfold_locales (auto intro: cpp_inv_init cpp_inv_step)

lemma cpp_exited:
  assumes "cpp_inv s" and "exited (cpp_core s)"
  shows "cpp_run s = RunReturned" "cpp_drained s" "serve_at (cpp_core s) = ServeReturned"
    "cp_scan (cpp_sys s) = ScanIdle" "stop_at (cpp_core s) = Stopped"
  using assms by (auto simp: cpp_inv_def run_live_def drain_live_def serve_live_def split: if_splits)

section \<open>The state that hangs\<close>

definition hung :: "controlplane_process \<Rightarrow> bool" where
  "hung s \<longleftrightarrow> cpp_drained s \<and> length (events (cp_det (cpp_sys s))) = events_capacity
     \<and> (case cp_scan (cpp_sys s) of ScanSending ev evs \<Rightarrow> True | _ \<Rightarrow> False)"

lemma handler_keeps_det: "cp_step fe u l v \<Longrightarrow> handler_label l \<or> l = TickL \<Longrightarrow> cp_det v = cp_det u"
  by (erule cp_step.cases) auto

lemma blocked_scanner:
  assumes "cp_step fe u l v" and "scanner_label l \<or> l = PanicL \<or> (\<exists>now. l = SnapshotL now)"
    and "cp_scan u = ScanSending ev evs"
  shows "length (events (cp_det u)) < events_capacity"
  using assms by cases auto

lemma hung_step:
  assumes inv: "cpp_inv s" and hung: "hung s" and step: "cpp_step g fe s l t"
  shows "hung t"
proof -
  obtain ev evs where sc: "cp_scan (cpp_sys s) = ScanSending ev evs"
    using hung by (auto simp: hung_def split: scan_pc.splits)
  then have sweeping: "cpp_run s = RunSweeping" using inv by (auto simp: cpp_inv_def)
  show ?thesis using step
  proof cases
    case (cpp_handle l' u)
    then show ?thesis
      using hung handler_keeps_det [OF cpp_handle(6)] cp_step_scan(1) [OF cpp_handle(6)] by (simp add: hung_def)
  next
    case (cpp_clock u)
    then show ?thesis
      using hung handler_keeps_det [OF cpp_clock(4)] cp_step_scan(1) [OF cpp_clock(4)] by (simp add: hung_def)
  next
    case (cpp_scan l' u pc')
    from cpp_scan(4) have "length (events (cp_det (cpp_sys s))) < events_capacity"
      unfolding sweeping using blocked_scanner [OF _ _ sc] by cases auto
    with hung show ?thesis by (simp add: hung_def)
  next
    case (cpp_scanner_exit u pc' c')
    then show ?thesis unfolding sweeping by (auto elim: Run_stepE)
  qed (use hung in \<open>auto simp: hung_def\<close>)
qed

lemma hung_exec:
  "exec (cpp_step g fe) s ls t \<Longrightarrow> cpp_inv s \<Longrightarrow> hung s \<Longrightarrow> cpp_inv t \<and> hung t"
  by (induction rule: exec.induct) (auto intro: cpp_inv_step hung_step)

lemma hung_not_exited: "cpp_inv s \<Longrightarrow> hung s \<Longrightarrow> \<not> exited (cpp_core s)"
  using cpp_exited(4) [of s] by (auto simp: hung_def)

section \<open>Progress\<close>

fun winds_down :: "cpp_label \<Rightarrow> bool" where
  "winds_down PAccept = False"
| "winds_down (PSys TickL) = False"
| "winds_down (PSys (SnapshotL now)) = False"
| "winds_down l = True"

lemma winds_downI: "cpp_step g fe s l t \<Longrightarrow> winds_down l \<Longrightarrow> \<exists>l t. cpp_step g fe s l t \<and> winds_down l"
  by blast

text \<open>A sweep that is under way goes on, unless its send blocks on a full channel nobody reads.\<close>

lemma sweep_winds_down:
  assumes inv: "cp_inv (cpp_sys s)" and live: "\<not> exited (cpp_core s)" and not_hung: "\<not> hung s"
    and run: "cpp_run s = RunSweeping" and scan: "cp_scan (cpp_sys s) \<noteq> ScanIdle"
  shows "\<exists>l t. cpp_step g fe s l t \<and> winds_down l"
  using scan_progress [OF inv scan, of fe]
proof (elim disjE exE conjE)
  fix l u assume l: "scanner_label l" "cp_step fe (cpp_sys s) l u"
  have "\<exists>pc'. Run_step fe (ctx_done (cpp_core s)) (cpp_sys s) (cpp_run s) (Some l) u pc'"
    using l run run_swept run_sweep by (cases "l = ScanDoneL") metis+
  then obtain pc' where "Run_step fe (ctx_done (cpp_core s)) (cpp_sys s) (cpp_run s) (Some l) u pc'" ..
  moreover have "winds_down (PSys l)" using l(1) by (cases l) auto
  ultimately show ?thesis using cpp_scan [where g = g, OF live] by (intro winds_downI)
next
  fix ev evs ev' u u'
  assume b: "cp_scan (cpp_sys s) = ScanSending ev evs" "length (events (cp_det (cpp_sys s))) = events_capacity"
    "cp_step fe (cpp_sys s) (DrainL ev') u"
  then have "\<not> cpp_drained s" using not_hung by (auto simp: hung_def)
  from cpp_drain [where g = g, OF live this b(3)] show ?thesis by (rule winds_downI) simp
qed

lemma shutdown_step:
  assumes ok: "grpc_ok g" and inv: "cpp_inv s"
    and ctx: "ctx_done (cpp_core s)" and live: "\<not> exited (cpp_core s)" and not_hung: "\<not> hung s"
  shows "\<exists>l t. cpp_step g fe s l t \<and> winds_down l"
proof -
  have cp: "cp_inv (cpp_sys s)" and scan: "cp_scan (cpp_sys s) = ScanIdle \<longleftrightarrow> cpp_run s \<noteq> RunSweeping"
    and wg: "wg (cpp_core s) = serve_live (cpp_core s) + run_live s + drain_live s"
    and stop: "stop_at (cpp_core s) \<noteq> StopDone" using inv by (auto simp: cpp_inv_def)
  consider "cpp_run s = RunSelect" | (sweep) "cpp_run s = RunSweeping"
    | (drain) "cpp_run s = RunReturned" "\<not> cpp_drained s"
    | (call) "cpp_run s = RunReturned" "cpp_drained s" "0 < cpp_calls s"
    | (skeleton) "cpp_run s = RunReturned" "cpp_drained s" "cpp_calls s = 0"
    by (cases "cpp_run s") auto
  then show ?thesis
  proof cases
    case 1
    have "Run_step fe (ctx_done (cpp_core s)) (cpp_sys s) (cpp_run s) None (cpp_sys s) RunReturned"
      unfolding 1 using ctx by (rule run_cancelled)
    from cpp_scanner_exit [where g = g, OF live this core_done] show ?thesis by (rule winds_downI) simp
  next
    case sweep
    with scan show ?thesis by (intro sweep_winds_down [OF cp live not_hung]) auto
  next
    case drain
    from cpp_drain_exit [where g = g and fe = fe, OF live drain(2) ctx core_done] show ?thesis
      by (rule winds_downI) simp
  next
    case call
    have "cp_step fe (cpp_sys s) (DeregisterL req)
        ((cpp_sys s)\<lparr>cp_reg := snd (srv_Deregister req (cp_reg (cpp_sys s)))\<rparr>)" for req
      by (rule cp_deregister [OF surjective_pairing])
    from cpp_handle [where g = g, OF live _ call(3) this] show ?thesis by (rule winds_downI) simp_all
  next
    case skeleton
    from cps.stop_progress [OF ok ctx skeleton(3)] show ?thesis
    proof (elim disjE exE conjE)
      fix cl c' assume "cl \<notin> {CSignal, CBridgeDone, CDone, CExit}" "core_step g (cpp_calls s) (cpp_core s) cl c'"
      from cpp_skeleton [where fe = fe, OF live this(2)] this(1) show ?thesis by (intro winds_downI) auto
    next
      assume "stop_at (cpp_core s) \<in> {Stopped, StopDone}" "serve_at (cpp_core s) = ServeReturned"
      then have "stop_at (cpp_core s) = Stopped" "wg (cpp_core s) = 0"
        using stop wg skeleton by (auto simp: serve_live_def run_live_def drain_live_def)
      from cpp_skeleton [where fe = fe and g = g, OF live core_exit [OF this(2)]] this(1) show ?thesis
        by (intro winds_downI) auto
    qed
  qed
qed

section \<open>Winding down\<close>

text \<open>
  What is left of a shutdown. Only an accepted call, the clock and a tick that the scanner's \<^verbatim>\<open>select\<close>
  still prefers to the cancelled context do not lower it.
\<close>

definition cpp_left :: "controlplane_process \<Rightarrow> nat" where
  "cpp_left s = 2 * scan_work (cp_scan (cpp_sys s)) + length (events (cp_det (cpp_sys s))) + cpp_calls s
     + core_rank (cpp_core s) + (if cpp_run s = RunReturned then 0 else 1) + (if cpp_drained s then 0 else 1)"

lemma scan_step_left:
  assumes "cp_inv u" and "cp_step fe u l v" and "scanner_label l \<or> l = PanicL"
  shows "2 * scan_work (cp_scan v) + length (events (cp_det v)) < 2 * scan_work (cp_scan u) + length (events (cp_det u))"
  using assms(2)
proof cases
  case (cp_judge now ws ents deaths)
  with judge_deaths_length [OF assms(1)] show ?thesis by fastforce
qed (use assms(3) in auto)

lemma shutdown_lowers:
  assumes inv: "cpp_inv s" and step: "cpp_step g fe s l t" and ctx: "ctx_done (cpp_core s)" and down: "winds_down l"
  shows "cpp_left t < cpp_left s"
  using step
proof cases
  case (cpp_skeleton cl c')
  then have "core_rank c' < core_rank (cpp_core s)" using core_rank_step [OF cpp_skeleton(4) ctx] by simp
  then show ?thesis using cpp_skeleton by (simp add: cpp_left_def)
next
  case (cpp_handle l' u)
  then show ?thesis
    using handler_keeps_det [OF cpp_handle(6)] cp_step_scan(1) [OF cpp_handle(6)] by (simp add: cpp_left_def)
next
  case (cpp_scan l' u pc')
  have "cp_inv (cpp_sys s)" using inv by (simp add: cpp_inv_def)
  moreover have "cp_step fe (cpp_sys s) l' u" "scanner_label l' \<or> l' = PanicL" "cpp_run s \<noteq> RunReturned"
    using cpp_scan(1,4) down by (auto elim: Run_stepE)
  ultimately show ?thesis using scan_step_left [of "cpp_sys s" fe l' u] cpp_scan(2) by (simp add: cpp_left_def)
next
  case (cpp_scanner_exit u pc' c')
  then have "u = cpp_sys s" "cpp_run s = RunSelect" "pc' = RunReturned" by (auto elim: Run_stepE)
  with cpp_scanner_exit(5) show ?thesis using cpp_scanner_exit(2) by cases (simp_all add: cpp_left_def)
next
  case (cpp_drain ev u)
  from cpp_drain(5) show ?thesis using cpp_drain(2) by cases (simp add: cpp_left_def)
next
  case (cpp_drain_exit c')
  from cpp_drain_exit(6) show ?thesis using cpp_drain_exit(2,4) by cases (simp_all add: cpp_left_def)
qed (use down in auto)

section \<open>How a shutdown comes to hang\<close>

lemma sweep_steps:
  assumes "exec (cp_step fe) u ls v" and "\<forall>l \<in> set ls. scanner_label l" and "cp_scan v \<noteq> ScanIdle"
    and "cpp_run s = RunSweeping" and "\<not> exited (cpp_core s)" and "cpp_sys s = u"
  shows "exec (cpp_step g fe) s (map PSys ls) (s\<lparr>cpp_sys := v\<rparr>)"
  using assms(1-3)
proof (induction rule: exec.induct)
  case exec_nil
  have "s\<lparr>cpp_sys := u\<rparr> = s" using assms(6) by simp
  then show ?case by (auto intro: exec.intros)
next
  case (exec_snoc ls t l v)
  have l: "scanner_label l" "l \<noteq> ScanDoneL"
    using exec_snoc.prems cp_step_scan(4) [OF exec_snoc(2)] by auto
  have "cp_scan t \<noteq> ScanIdle" using exec_snoc(2) l(1) by cases auto
  with exec_snoc have e: "exec (cpp_step g fe) s (map PSys ls) (s\<lparr>cpp_sys := t\<rparr>)" by simp
  have "Run_step fe (ctx_done (cpp_core s)) t (cpp_run s) (Some l) v RunSweeping"
    unfolding assms(4) using exec_snoc(2) l by (auto intro: run_sweep)
  with cpp_scan [of "s\<lparr>cpp_sys := t\<rparr>" fe l v RunSweeping g] assms(4,5)
  have "cpp_step g fe (s\<lparr>cpp_sys := t\<rparr>) (PSys l) (s\<lparr>cpp_sys := v, cpp_run := RunSweeping\<rparr>)" by simp
  moreover have "s\<lparr>cpp_sys := v, cpp_run := RunSweeping\<rparr> = s\<lparr>cpp_sys := v\<rparr>" using assms(4) by simp
  ultimately show ?case using exec.exec_snoc [OF e] by simp
qed

lemma mass_death_hangs:
  assumes inv: "cpp_inv s" and live: "\<not> exited (cpp_core s)" and ctx: "ctx_done (cpp_core s)"
    and run: "cpp_run s = RunSelect" and now: "now \<le> cp_clock (cpp_sys s)"
    and many: "events_capacity < length (events (cp_det (cpp_sys s))) + card {wid. \<exists>w.
        workers (cp_reg (cpp_sys s)) wid = Some w
        \<and> dies fe (cfg (cp_det (cpp_sys s))) now (entries (cp_det (cpp_sys s))) w}"
  shows "\<exists>ls t. exec (cpp_step g fe) s ls t \<and> hung t"
proof -
  let ?u = "cpp_sys s"
  define s1 where "s1 = (if cpp_drained s then s
     else s\<lparr>cpp_core := (cpp_core s)\<lparr>wg := wg (cpp_core s) - 1\<rparr>, cpp_drained := True\<rparr>)"
  have e1: "\<exists>ls. exec (cpp_step g fe) s ls s1"
  proof (cases "cpp_drained s")
    case True
    then show ?thesis by (auto simp: s1_def)
  next
    case False
    from cpp_drain_exit [where g = g and fe = fe, OF live False ctx core_done]
    show ?thesis using False by (auto simp: s1_def intro: exec_single)
  qed
  have s1: "cpp_sys s1 = ?u" "cpp_run s1 = RunSelect" "\<not> exited (cpp_core s1)" "cpp_drained s1"
    using run live by (auto simp: s1_def)
  have cp: "reg_wf (cp_reg ?u)" "0 < WindowSize (cfg (cp_det ?u))" "entries_wf (cfg (cp_det ?u)) (entries (cp_det ?u))"
      "length (events (cp_det ?u)) \<le> events_capacity" and idle: "cp_scan ?u = ScanIdle"
    using inv run by (auto simp: cpp_inv_def cp_inv_def)
  obtain ks where ks: "iterates (workers (cp_reg ?u)) ks" using reg_wf_iterates [OF cp(1)] by blast
  let ?ws = "ListWorkers ks (cp_reg ?u)"
  let ?P = "dies fe (cfg (cp_det ?u)) now (entries (cp_det ?u))"
  let ?deaths = "map (\<lambda>w. \<lparr>WorkerID = ID w, At = now\<rparr>) (filter ?P ?ws)"
  let ?v = "?u\<lparr>cp_scan := ScanJudging now ?ws\<rparr>"
  have "cp_step fe ?u (SnapshotL now) ?v" using idle now ks by (rule cp_snapshot)
  then have "Run_step fe (ctx_done (cpp_core s1)) (cpp_sys s1) (cpp_run s1) (Some (SnapshotL now)) ?v RunSweeping"
    unfolding s1(1,2) by (rule run_tick)
  from cpp_scan [where g = g, OF s1(3) this]
  have snap: "cpp_step g fe s1 (PSys (SnapshotL now)) (s1\<lparr>cpp_sys := ?v, cpp_run := RunSweeping\<rparr>)" .
  obtain ents where j: "scan_judge fe (cfg (cp_det ?u)) now ?ws (entries (cp_det ?u)) = Some (ents, ?deaths)"
    using scan_judge_spec [OF cp(2,3,1) ks] by blast
  obtain r' ch' pending where em: "scan_emit ?deaths (cp_reg ?u) (events (cp_det ?u)) = (r', ch', pending)"
    by (metis prod_cases3)
  from scan_emit_spec [OF em cp(4)] obtain sent where sent: "?deaths = sent @ pending" "ch' = events (cp_det ?u) @ sent"
      "length ch' \<le> events_capacity" "pending \<noteq> [] \<Longrightarrow> length ch' = events_capacity" by auto
  have "length (events (cp_det ?u)) + length ?deaths > events_capacity"
    using many dying_count [OF cp(1) ks, of ?P] by simp
  then have "pending \<noteq> []" using sent(1-3) by auto
  then obtain ev evs where p: "pending = ev # evs" by (cases pending) auto
  let ?t = "?v\<lparr>cp_reg := r', cp_det := (cp_det ?u)\<lparr>entries := ents, events := ch'\<rparr>, cp_scan := ScanSending ev evs\<rparr>"
  obtain ls where ls: "\<forall>l \<in> set ls. scanner_label l" "exec (cp_step fe) ?v ls ?t"
    using judge_emit_exec [of ?v now ?ws fe ents ?deaths r' ch' pending] j em p by auto
  from sweep_steps [where g = g and s = "s1\<lparr>cpp_sys := ?v, cpp_run := RunSweeping\<rparr>", OF ls(2,1)] s1(3)
  have e2: "exec (cpp_step g fe) (s1\<lparr>cpp_sys := ?v, cpp_run := RunSweeping\<rparr>) (map PSys ls)
      (s1\<lparr>cpp_run := RunSweeping, cpp_sys := ?t\<rparr>)" by simp
  have "hung (s1\<lparr>cpp_run := RunSweeping, cpp_sys := ?t\<rparr>)"
    using s1(4) sent(4) p by (simp add: hung_def)
  moreover have "\<exists>ls. exec (cpp_step g fe) s ls (s1\<lparr>cpp_run := RunSweeping, cpp_sys := ?t\<rparr>)"
    using e1 exec_append [OF exec_cons [where step = "cpp_step g fe", OF snap e2]] by blast
  ultimately show ?thesis by blast
qed

section \<open>A crowd\<close>

text \<open>Sixty-five workers that have been silent for ten seconds when the process is told to stop.\<close>

definition ex_crowd_ids :: "string list" where
  "ex_crowd_ids = map (\<lambda>k. replicate k (CHR ''x'')) [0..<65]"

lemma ex_crowd_ids_card: "card (set ex_crowd_ids) = 65"
proof -
  have "inj (\<lambda>k. replicate k (CHR ''x''))" by (rule injI) (metis length_replicate)
  then have "distinct ex_crowd_ids" by (simp add: ex_crowd_ids_def distinct_map inj_on_def)
  then show ?thesis using distinct_card [of ex_crowd_ids] by (simp add: ex_crowd_ids_def)
qed

definition ex_crowd_sys :: control_plane where
  "ex_crowd_sys = \<lparr>cp_reg = \<lparr>workers = (\<lambda>wid. if wid \<in> set ex_crowd_ids then Some (fresh_info wid ''h:1'' 10 0) else None)\<rparr>,
     cp_det = \<lparr>cfg = ex_config, entries = (\<lambda>wid. if wid \<in> set ex_crowd_ids then Some ex_entry else None), events = []\<rparr>,
     cp_scan = ScanIdle, cp_clock = 10000000000\<rparr>"

definition ex_crowd :: controlplane_process where
  "ex_crowd = \<lparr>cpp_core = (process_start 3)\<lparr>ctx_done := True\<rparr>, cpp_sys = ex_crowd_sys, cpp_calls = 0,
     cpp_run = RunSelect, cpp_drained = False\<rparr>"

lemma ex_crowd_inv: "cpp_inv ex_crowd"
proof -
  have "dom (workers (cp_reg ex_crowd_sys)) = set ex_crowd_ids"
    by (auto simp: ex_crowd_sys_def split: if_splits)
  then have "reg_wf (cp_reg ex_crowd_sys)" by (auto simp: reg_wf_def ex_crowd_sys_def split: if_splits)
  moreover have "entries_wf ex_config (entries (cp_det ex_crowd_sys))"
    by (auto simp: entries_wf_def ex_crowd_sys_def split: if_splits)
  ultimately have "cp_inv ex_crowd_sys" by (simp add: cp_inv_def) (simp add: ex_crowd_sys_def)
  then show ?thesis
    by (simp add: cpp_inv_def ex_crowd_def process_start_def serve_live_def run_live_def drain_live_def)
       (simp add: ex_crowd_sys_def)
qed

lemma ex_crowd_dies:
  "{wid. \<exists>w. workers (cp_reg ex_crowd_sys) wid = Some w
      \<and> dies exact_env (cfg (cp_det ex_crowd_sys)) 10000000000 (entries (cp_det ex_crowd_sys)) w} = set ex_crowd_ids"
  by (auto simp: ex_crowd_sys_def dies_iff fold_arrival_silent ex_phi_dead split: if_splits)

section \<open>Properties\<close>

text \<open>
  A clean exit of the control plane: it had been told to stop, no call is running, and \<^verbatim>\<open>Serve\<close>, the
  scanner and the drain have returned, the scanner between two sweeps.
\<close>

lemma control_plane_clean_exit:
  assumes "grpc_ok g" and "reachable cpp_init (cpp_step g fe) s" and "exited (cpp_core s)"
  shows "ctx_done (cpp_core s) \<and> cpp_calls s = 0 \<and> serve_at (cpp_core s) = ServeReturned
     \<and> cpp_run s = RunReturned \<and> cp_scan (cpp_sys s) = ScanIdle \<and> cpp_drained s"
proof -
  note e = cpp_exited [OF cpi.sinv_reachable [OF assms(2)] assms(3)]
  then show ?thesis
    using cps.drained [OF assms(1,2)] cps.stop_after_cancel [OF assms(1,2)] by auto
qed

text \<open>
  C28. The control plane shuts down, with one exception: once the context is done and until main has
  returned, some step is possible that brings the shutdown nearer to its end (it lowers \<open>cpp_left\<close>),
  unless the scanner waits on the full event channel and the draining goroutine has left.
\<close>

theorem control_plane_shuts_down_or_hangs:
  assumes "grpc_ok g" and "reachable cpp_init (cpp_step g fe) s"
    and "ctx_done (cpp_core s)" and "\<not> exited (cpp_core s)"
  shows "(\<exists>l t. cpp_step g fe s l t \<and> cpp_left t < cpp_left s) \<or> hung s"
proof -
  have inv: "cpp_inv s" by (rule cpi.sinv_reachable [OF assms(2)])
  show ?thesis using shutdown_step [OF assms(1) inv assms(3,4)] shutdown_lowers [OF inv _ assms(3)] by blast
qed

theorem control_plane_shuts_down_or_hangs_witness:
  "\<exists>s l t. reachable cpp_init (cpp_step sample_server exact_env) s \<and> ctx_done (cpp_core s)
     \<and> cpp_step sample_server exact_env s l t \<and> cpp_left t < cpp_left s"
proof -
  let ?start = "controlplane_start 0"
  let ?s = "?start\<lparr>cpp_core := (cpp_core ?start)\<lparr>ctx_done := True\<rparr>\<rparr>"
  have "reachable cpp_init (cpp_step sample_server exact_env) ?start"
    by (rule reachable_init) (auto simp: cpp_init_def)
  moreover have "cpp_step sample_server exact_env ?start (PCore CSignal) ?s"
    by (intro cpp_skeleton core_signal) (auto simp: controlplane_start_def process_start_def)
  ultimately have r: "reachable cpp_init (cpp_step sample_server exact_env) ?s" by (rule reachable_step)
  have "ctx_done (cpp_core ?s)" "\<not> exited (cpp_core ?s)" "\<not> hung ?s"
    by (simp_all add: controlplane_start_def process_start_def hung_def)
  with control_plane_shuts_down_or_hangs [OF sample_server_ok r] r show ?thesis by blast
qed

text \<open>
  C29. A shutdown of the control plane can hang for ever: if more workers are about to be declared dead
  than the event channel has room for when the context is done, there is an execution (the drain
  leaves first, then the scanner takes one more tick) to a state from which main never returns,
  whatever else happens.
\<close>

theorem control_plane_shutdown_can_hang:
  assumes "cpp_inv s" and "\<not> exited (cpp_core s)" and "ctx_done (cpp_core s)" and "cpp_run s = RunSelect"
    and "now \<le> cp_clock (cpp_sys s)"
    and "events_capacity < length (events (cp_det (cpp_sys s))) + card {wid. \<exists>w.
        workers (cp_reg (cpp_sys s)) wid = Some w
        \<and> dies fe (cfg (cp_det (cpp_sys s))) now (entries (cp_det (cpp_sys s))) w}"
  shows "\<exists>ls t. exec (cpp_step g fe) s ls t
     \<and> (\<forall>ls' t'. exec (cpp_step g fe) t ls' t' \<longrightarrow> \<not> exited (cpp_core t'))"
proof -
  obtain ls t where t: "exec (cpp_step g fe) s ls t" "hung t" using mass_death_hangs [OF assms] by blast
  have "cpp_inv t" by (rule cpi.sinv_exec [OF t(1) assms(1)])
  then have "\<not> exited (cpp_core t')" if "exec (cpp_step g fe) t ls' t'" for ls' t'
    using hung_exec [OF that] hung_not_exited t(2) by blast
  with t(1) show ?thesis by blast
qed

theorem control_plane_shutdown_can_hang_witness:
  "\<exists>ls t. exec (cpp_step sample_server exact_env) ex_crowd ls t
     \<and> (\<forall>ls' t'. exec (cpp_step sample_server exact_env) t ls' t' \<longrightarrow> \<not> exited (cpp_core t'))"
proof (rule control_plane_shutdown_can_hang [OF ex_crowd_inv])
  show "\<not> exited (cpp_core ex_crowd)" "ctx_done (cpp_core ex_crowd)" "cpp_run ex_crowd = RunSelect"
    "10000000000 \<le> cp_clock (cpp_sys ex_crowd)"
    by (simp_all add: ex_crowd_def process_start_def ex_crowd_sys_def)
  have "cpp_sys ex_crowd = ex_crowd_sys" by (simp add: ex_crowd_def)
  then show "events_capacity < length (events (cp_det (cpp_sys ex_crowd))) + card {wid. \<exists>w.
        workers (cp_reg (cpp_sys ex_crowd)) wid = Some w
        \<and> dies exact_env (cfg (cp_det (cpp_sys ex_crowd))) 10000000000 (entries (cp_det (cpp_sys ex_crowd))) w}"
    by (simp only: ex_crowd_dies ex_crowd_ids_card) (simp add: events_capacity_def)
qed

end
