(* ===== verification/Worker.thy ===== *)
theory Worker
  imports Server
begin

text \<open>
  The worker process (\<^verbatim>\<open>cmd/worker/main.go\<close>): the mock inference handler, the start-up
  registration and the heartbeat loop. One turn of the loop is a function of what its \<^verbatim>\<open>select\<close>
  received and of the RPC's outcome; \<open>worker_tick\<close> composes a turn with the control plane's
  handlers. Whether an RPC reaches the control plane is an argument (\<open>Some e\<close>: it failed in
  transport with error \<open>e\<close>).
\<close>

definition workerCapacity :: uint32 where "workerCapacity = 10"

definition shutdownTimeout :: duration where "shutdownTimeout = 3 * 1000000000"

text \<open>What the process knows of itself: its id, the address it advertises, its mock latency.\<close>

record worker =
  workerID :: string
  workerAddr :: string
  delay :: duration

section \<open>The mock inference handler\<close>

text \<open>Which case of the handler's \<^verbatim>\<open>select\<close> fired: the delay elapsed, or the context was done.\<close>

datatype wait_outcome = DelayElapsed | CtxDone ctx_err

definition worker_Generate ::
  "worker \<Rightarrow> inference_request \<Rightarrow> wait_outcome \<Rightarrow> go_error + inference_response" where
  "worker_Generate w req out =
     (case out of
        DelayElapsed \<Rightarrow>
          (let output = ''mock-output for: '' @ req_Prompt req
           in Inr \<lparr>resp_RequestId = req_RequestId req, resp_Output = output, resp_WorkerId = workerID w\<rparr>)
      | CtxDone e \<Rightarrow> Inl (from_context_error e))"

section \<open>Start-up and heartbeats\<close>

definition register_call :: "worker \<Rightarrow> register_request" where
  "register_call w =
     \<lparr>reg_WorkerId = workerID w, reg_Address = workerAddr w, reg_Capacity = workerCapacity\<rparr>"

definition heartbeat_call :: "worker \<Rightarrow> heartbeat_request" where
  "heartbeat_call w = \<lparr>hb_WorkerId = workerID w, hb_Load = Some \<lparr>ActiveRequests = 0\<rparr>\<rparr>"

definition deregister_call :: "worker \<Rightarrow> deregister_request" where
  "deregister_call w = \<lparr>dereg_WorkerId = workerID w\<rparr>"

text \<open>\<^verbatim>\<open>time.Duration(resp.GetHeartbeatIntervalMs()) * time.Millisecond\<close>, a 64-bit product.\<close>

definition beat_interval :: "register_response \<Rightarrow> go_int64" where
  "beat_interval resp = HeartbeatIntervalMs resp * 1000000"

datatype rpc = CallRegister register_request | CallHeartbeat heartbeat_request
  | CallDeregister deregister_request

text \<open>What the loop does with the outcome of a heartbeat: the RPCs it sends next.\<close>

definition after_heartbeat :: "worker \<Rightarrow> go_error option \<Rightarrow> rpc list" where
  "after_heartbeat w err =
     (case status_code err of
        OK \<Rightarrow> []
      | NotFound \<Rightarrow> [CallRegister (register_call w)]
      | _ \<Rightarrow> [])"

text \<open>
  The loop: a turn per ticker tick, the \<open>Deregister\<close> on the way out. Ticks carry the outcome of
  the heartbeat they send; the trace is the list of RPCs sent, in order.
\<close>

datatype loop_event = Tick "go_error option" | CtxCancelled

fun heartbeatLoop :: "worker \<Rightarrow> loop_event list \<Rightarrow> rpc list" where
  "heartbeatLoop w [] = []"
| "heartbeatLoop w (CtxCancelled # _) = [CallDeregister (deregister_call w)]"
| "heartbeatLoop w (Tick err # es) =
     CallHeartbeat (heartbeat_call w) # after_heartbeat w err @ heartbeatLoop w es"

section \<open>A turn against the control plane\<close>

definition error_of :: "(go_error + 'a) \<Rightarrow> go_error option" where
  "error_of res = (case res of Inl e \<Rightarrow> Some e | Inr _ \<Rightarrow> None)"

lemma error_of_simps [simp]: "error_of (Inl e) = Some e" "error_of (Inr x) = None"
  by (auto simp: error_of_def)

fun serve :: "time \<Rightarrow> rpc \<Rightarrow> worker_registry \<Rightarrow> worker_registry" where
  "serve now (CallRegister req) r = snd (srv_Register now req r)"
| "serve now (CallHeartbeat req) r = snd (srv_Heartbeat now req r)"
| "serve now (CallDeregister req) r = snd (srv_Deregister req r)"

definition worker_tick ::
  "worker \<Rightarrow> time \<Rightarrow> go_error option \<Rightarrow> worker_registry \<Rightarrow> worker_registry" where
  "worker_tick w now transport r =
     (case transport of
        Some e \<Rightarrow> fold (serve now) (after_heartbeat w (Some e)) r
      | None \<Rightarrow>
          (let (res, r') = srv_Heartbeat now (heartbeat_call w) r
           in fold (serve now) (after_heartbeat w (error_of res)) r'))"

lemma worker_tick_known:
  "workers r (workerID w) = Some i \<Longrightarrow>
     workers (worker_tick w now None r) = (workers r)(workerID w \<mapsto> i\<lparr>Load := 0, LastSeen := now\<rparr>)"
  by (simp add: worker_tick_def srv_Heartbeat_known heartbeat_call_def after_heartbeat_def)

lemma worker_tick_unknown:
  "workers r (workerID w) = None \<Longrightarrow>
     workers (worker_tick w now None r)
       = (workers r)(workerID w \<mapsto> fresh_info (workerID w) (workerAddr w) workerCapacity now)"
  by (simp add: worker_tick_def srv_Heartbeat_unknown heartbeat_call_def after_heartbeat_def
      register_call_def srv_Register_def)

lemma worker_tick_wf: "reg_wf r \<Longrightarrow> reg_wf (worker_tick w now None r)"
  by (cases "workers r (workerID w)")
     (auto simp: reg_wf_def worker_tick_known worker_tick_unknown)

lemma worker_tick_dom: "dom (workers (worker_tick w now None r)) = insert (workerID w) (dom (workers r))"
  by (cases "workers r (workerID w)") (auto simp: worker_tick_known worker_tick_unknown)

section \<open>Properties\<close>

text \<open>
  The worker answers a request under the request's own id and signs the answer with its own,
  or reports why its context ended; it never answers for another request.
\<close>

lemma worker_echoes_request:
  "(case worker_Generate w req out of
      Inr resp \<Rightarrow> resp_RequestId resp = req_RequestId req \<and> resp_WorkerId resp = workerID w
        \<and> resp_Output resp = ''mock-output for: '' @ req_Prompt req \<and> out = DelayElapsed
    | Inl e \<Rightarrow> out \<noteq> DelayElapsed \<and> err_code e \<in> {Canceled, DeadlineExceeded})"
proof (cases out)
  case (CtxDone e)
  then show ?thesis by (cases e) (auto simp: worker_Generate_def)
qed (auto simp: worker_Generate_def)

text \<open>
  The worker never re-registers on a guess: along any run of the heartbeat loop it sends
  \<^verbatim>\<open>Register\<close> only right after a heartbeat that was answered \<^verbatim>\<open>NotFound\<close>, as often as that happens,
  always under the same id and address, and it sends \<^verbatim>\<open>Deregister\<close> exactly when it is cancelled,
  as its last call.
\<close>

lemma heartbeat_loop_calls:
  "(\<forall>req. CallRegister req \<in> set (heartbeatLoop w es) \<longleftrightarrow> req = register_call w
      \<and> (\<exists>e. Tick (Some e) \<in> set (takeWhile (\<lambda>x. x \<noteq> CtxCancelled) es) \<and> err_code e = NotFound))
   \<and> length (filter (\<lambda>c. \<exists>req. c = CallRegister req) (heartbeatLoop w es))
       = length (filter (\<lambda>x. \<exists>e. x = Tick (Some e) \<and> err_code e = NotFound)
           (takeWhile (\<lambda>x. x \<noteq> CtxCancelled) es))
   \<and> (CtxCancelled \<in> set es \<longleftrightarrow> (\<exists>cs. heartbeatLoop w es = cs @ [CallDeregister (deregister_call w)]))"
proof (induction es rule: heartbeatLoop.induct)
  case (3 w err es)
  have after: "after_heartbeat w err = (if \<exists>e. err = Some e \<and> err_code e = NotFound
      then [CallRegister (register_call w)] else [])"
    by (auto simp: after_heartbeat_def status_code_def split: option.splits grpc_code.splits)
  show ?case using 3 unfolding heartbeatLoop.simps after
    by (auto simp: append_eq_append_conv2 Cons_eq_append_conv append_eq_Cons_conv split: if_splits)
qed auto

text \<open>
  Self-heal: after one turn of the loop that reaches the control plane, the worker is
  registered under its own id with the turn's instant, whatever the registry held before (also
  nothing, after a restart), and no other worker's record changes.
\<close>

lemma tick_self_heals:
  "(\<exists>i. workers (worker_tick w now None r) (workerID w) = Some i \<and> LastSeen i = now
      \<and> (workers r (workerID w) = None \<longrightarrow> i = fresh_info (workerID w) (workerAddr w) workerCapacity now))
   \<and> (\<forall>wid. wid \<noteq> workerID w \<longrightarrow> workers (worker_tick w now None r) wid = workers r wid)"
  by (cases "workers r (workerID w)") (auto simp: worker_tick_known worker_tick_unknown)

text \<open>
  A fleet recovers from a restart of the control plane: when every worker has had one turn
  against the new, empty registry, exactly these workers are registered, in whatever order the
  turns came.
\<close>

lemma fleet_recovers:
  "dom (workers (fold (\<lambda>(w, now) r. worker_tick w now None r) ticks NewWorkerRegistry))
     = (\<lambda>(w, now). workerID w) ` set ticks"
proof -
  have "dom (workers (fold (\<lambda>(w, now) r. worker_tick w now None r) ticks r))
      = dom (workers r) \<union> (\<lambda>(w, now). workerID w) ` set ticks" for r
    by (induction ticks arbitrary: r) (auto simp: worker_tick_dom split: prod.splits)
  then show ?thesis by (simp add: NewWorkerRegistry_def)
qed

text \<open>
  The cadence the control plane dictates is one second: the 64-bit product the worker computes
  from the reply of a registration neither wraps nor is it zero or negative, for which
  \<^verbatim>\<open>time.NewTicker\<close> would panic.
\<close>

lemma beat_interval_is_one_second:
  "\<exists>resp. fst (srv_Register now req r) = Inr resp \<and> sint (beat_interval resp) = 1000000000"
  by (simp add: srv_Register_def beat_interval_def heartbeatIntervalMs_def)

end
