(* ===== verification/Worker_Process.thy ===== *)
theory Worker_Process
  imports Worker Go_Process
begin

text \<open>
  The worker's process (\<^verbatim>\<open>cmd/worker/main.go\<close>): the start-up, which registers before it listens, and the
  running process inside the skeleton of \<open>Go_Process\<close>: the mock handlers the server runs and the
  goroutine of \<^verbatim>\<open>heartbeatLoop\<close>, step by step. What the control plane answers and when, and how a handler's
  wait ends, is left open. The theory shows that the interleaved goroutine sends exactly the calls of the
  function \<open>heartbeatLoop\<close>.
\<close>

section \<open>Start-up\<close>

datatype beat_pc = BeatStart | BeatSelect | BeatCalling | BeatRegistering | BeatDeregistering | BeatDone | BeatPanicked

text \<open>A handler: its request, and its result once it has returned.\<close>

type_synonym mock_handler = "inference_request \<times> (go_error + inference_response) option"

record worker_process =
  wp_core :: process
  wp_me :: worker
  wp_interval :: go_int64
  wp_handlers :: "mock_handler list"
  wp_beat :: beat_pc

definition worker_start :: "worker \<Rightarrow> go_int64 \<Rightarrow> worker_process" where
  "worker_start w interval = \<lparr>wp_core = process_start 3, wp_me = w, wp_interval = interval, wp_handlers = [],
     wp_beat = BeatStart\<rparr>"

text \<open>
  \<^verbatim>\<open>main\<close> up to its goroutines: the calls it sends to the control plane, and how it ends. The results of
  dialling, of the registration and of \<^verbatim>\<open>net.Listen\<close> are arguments.
\<close>

definition worker_main ::
  "worker \<Rightarrow> string \<Rightarrow> (string \<Rightarrow> go_error + nat) \<Rightarrow> (register_request \<Rightarrow> go_error + register_response)
     \<Rightarrow> (string \<Rightarrow> go_error option) \<Rightarrow> rpc list \<times> worker_process startup" where
  "worker_main w cp dial register listen =
     (case dial cp of
        Inl err \<Rightarrow> ([], Fatal ''failed to dial control plane: %v'' [ArgErr err])
      | Inr conn \<Rightarrow>
          ([CallRegister (register_call w)],
           case register (register_call w) of
             Inl err \<Rightarrow> Fatal ''initial Register failed: %v'' [ArgErr err]
           | Inr resp \<Rightarrow>
               (let interval = beat_interval resp
                in case listen (workerAddr w) of
                     Some err \<Rightarrow> Fatal ''failed to listen on %s: %v'' [ArgString (workerAddr w), ArgErr err]
                   | None \<Rightarrow> Up (worker_start w interval))))"

text \<open>
  The command line: the flags with the values they have when they are not given. The process's id is a fresh uuid, an
  argument; the flags say what it advertises, whom it registers with and how long its mock handler waits.
\<close>

record worker_flags =
  wf_addr :: string
  wf_cp :: string
  wf_delay :: duration

definition default_worker_flags :: worker_flags where
  "default_worker_flags = \<lparr>wf_addr = ''localhost:60001'', wf_cp = ''localhost:50051'', wf_delay = 300 * 1000000\<rparr>"

definition flagged_worker :: "string \<Rightarrow> worker_flags \<Rightarrow> worker" where
  "flagged_worker uuid fl = \<lparr>workerID = uuid, workerAddr = wf_addr fl, delay = wf_delay fl\<rparr>"

definition worker_launch ::
  "string \<Rightarrow> worker_flags \<Rightarrow> (string \<Rightarrow> go_error + nat) \<Rightarrow> (register_request \<Rightarrow> go_error + register_response)
     \<Rightarrow> (string \<Rightarrow> go_error option) \<Rightarrow> rpc list \<times> worker_process startup" where
  "worker_launch uuid fl = worker_main (flagged_worker uuid fl) (wf_cp fl)"

section \<open>Steps\<close>

definition wp_running :: "worker_process \<Rightarrow> nat" where
  "wp_running s = count_if (\<lambda>h. snd h = None) (wp_handlers s)"

datatype wp_label =
    WCore core_label
  | WAccept inference_request
  | WRespond inference_request "go_error + inference_response"
  | WTicker
  | WBeat
  | WAnswer "go_error option"
  | WRegistered
  | WCancel
  | WDeregistered

text \<open>
  The heartbeat goroutine: \<^verbatim>\<open>time.NewTicker\<close>, which panics for an interval that is not positive; then a
  \<^verbatim>\<open>select\<close> between the cancelled context and the ticker, which may take either when both are ready.
\<close>

inductive wp_step :: "grpc_server \<Rightarrow> worker_process \<Rightarrow> wp_label \<Rightarrow> worker_process \<Rightarrow> bool"
  for g :: grpc_server and s :: worker_process where
  wp_skeleton: "\<not> exited (wp_core s) \<Longrightarrow> core_step g (wp_running s) (wp_core s) cl c' \<Longrightarrow> cl \<noteq> CDone \<Longrightarrow>
    wp_step g s (WCore cl) (s\<lparr>wp_core := c'\<rparr>)"
| wp_accept: "\<not> exited (wp_core s) \<Longrightarrow> serve_at (wp_core s) = Serving \<Longrightarrow>
    may_accept g (view_of (wp_core s) (wp_running s)) \<Longrightarrow>
    wp_step g s (WAccept req) (s\<lparr>wp_handlers := wp_handlers s @ [(req, None)]\<rparr>)"
| wp_respond: "\<not> exited (wp_core s) \<Longrightarrow> i < length (wp_handlers s) \<Longrightarrow> wp_handlers s ! i = (req, None) \<Longrightarrow>
    worker_Generate (wp_me s) req out = res \<Longrightarrow>
    wp_step g s (WRespond req res) (s\<lparr>wp_handlers := (wp_handlers s)[i := (req, Some res)]\<rparr>)"
| wp_ticker: "\<not> exited (wp_core s) \<Longrightarrow> wp_beat s = BeatStart \<Longrightarrow>
    wp_step g s WTicker (s\<lparr>wp_beat := (if 0 < sint (wp_interval s) then BeatSelect else BeatPanicked)\<rparr>)"
| wp_tick: "\<not> exited (wp_core s) \<Longrightarrow> wp_beat s = BeatSelect \<Longrightarrow> wp_step g s WBeat (s\<lparr>wp_beat := BeatCalling\<rparr>)"
| wp_answer: "\<not> exited (wp_core s) \<Longrightarrow> wp_beat s = BeatCalling \<Longrightarrow>
    wp_step g s (WAnswer err)
      (s\<lparr>wp_beat := (if after_heartbeat (wp_me s) err = [] then BeatSelect else BeatRegistering)\<rparr>)"
| wp_registered: "\<not> exited (wp_core s) \<Longrightarrow> wp_beat s = BeatRegistering \<Longrightarrow>
    wp_step g s WRegistered (s\<lparr>wp_beat := BeatSelect\<rparr>)"
| wp_cancel: "\<not> exited (wp_core s) \<Longrightarrow> wp_beat s = BeatSelect \<Longrightarrow> ctx_done (wp_core s) \<Longrightarrow>
    wp_step g s WCancel (s\<lparr>wp_beat := BeatDeregistering\<rparr>)"
| wp_deregistered: "\<not> exited (wp_core s) \<Longrightarrow> wp_beat s = BeatDeregistering \<Longrightarrow>
    core_step g (wp_running s) (wp_core s) CDone c' \<Longrightarrow>
    wp_step g s WDeregistered (s\<lparr>wp_core := c', wp_beat := BeatDone\<rparr>)"

inductive_cases wp_stepE: "wp_step g s l t"

definition wp_init :: "worker_process \<Rightarrow> bool" where
  "wp_init s \<longleftrightarrow> (\<exists>w interval. s = worker_start w interval)"

text \<open>A process that comes up has registered the address it listens on, once, under its own id.\<close>

lemma worker_launch_up:
  assumes "worker_launch uuid fl dial reply listen = (calls, Up s)"
  shows "calls = [CallRegister \<lparr>reg_WorkerId = uuid, reg_Address = wf_addr fl, reg_Capacity = workerCapacity\<rparr>]"
    and "listen (wf_addr fl) = None" and "wp_init s" and "workerAddr (wp_me s) = wf_addr fl"
proof -
  obtain conn where "dial (wf_cp fl) = Inr conn"
    using assms by (cases "dial (wf_cp fl)") (simp_all add: worker_launch_def worker_main_def)
  moreover obtain resp where "reply (register_call (flagged_worker uuid fl)) = Inr resp"
    using assms calculation
    by (cases "reply (register_call (flagged_worker uuid fl))") (simp_all add: worker_launch_def worker_main_def)
  ultimately have "calls = [CallRegister (register_call (flagged_worker uuid fl))] \<and> listen (wf_addr fl) = None
      \<and> s = worker_start (flagged_worker uuid fl) (beat_interval resp)"
    using assms by (auto simp: worker_launch_def worker_main_def flagged_worker_def split: option.splits)
  then show "calls = [CallRegister \<lparr>reg_WorkerId = uuid, reg_Address = wf_addr fl, reg_Capacity = workerCapacity\<rparr>]"
    and "listen (wf_addr fl) = None" and "wp_init s" and "workerAddr (wp_me s) = wf_addr fl"
    by (auto simp: register_call_def flagged_worker_def wp_init_def worker_start_def)
qed

lemma wp_running_respond:
  "i < length hs \<Longrightarrow> hs ! i = (req, None) \<Longrightarrow> count_if (\<lambda>h. snd h = None) (hs[i := (req, Some res)]) \<le> count_if (\<lambda>h. snd h = None) hs"
  using count_if_update_loss [of i hs "\<lambda>h. snd h = None" "(req, Some res)"] by simp

interpretation wps: server_process g wp_init "wp_step g" wp_core wp_running
proof
  show "(\<exists>n. wp_core s = process_start n) \<and> wp_running s = 0" if "wp_init s" for s
    using that by (auto simp: wp_init_def worker_start_def wp_running_def)
  show "(\<exists>cl. core_step g (wp_running s) (wp_core s) cl (wp_core t)) \<and> wp_running t = wp_running s
     \<or> wp_core t = wp_core s \<and> (wp_running t \<le> wp_running s \<or> may_accept g (view_of (wp_core s) (wp_running s)))"
    if "wp_step g s l t" for s l t
    using that by cases (auto simp: wp_running_def wp_running_respond intro: core_done)
qed

section \<open>The heartbeat goroutine sends what the loop sends\<close>

fun beat_rpcs :: "worker \<Rightarrow> wp_label \<Rightarrow> rpc list" where
  "beat_rpcs w WBeat = [CallHeartbeat (heartbeat_call w)]"
| "beat_rpcs w (WAnswer err) = after_heartbeat w err"
| "beat_rpcs w WCancel = [CallDeregister (deregister_call w)]"
| "beat_rpcs w l = []"

fun beat_events :: "wp_label \<Rightarrow> loop_event list" where
  "beat_events (WAnswer err) = [Tick err]"
| "beat_events WCancel = [CtxCancelled]"
| "beat_events l = []"

definition rpcs_of :: "worker \<Rightarrow> wp_label list \<Rightarrow> rpc list" where
  "rpcs_of w ls = concat (map (beat_rpcs w) ls)"

definition events_of :: "wp_label list \<Rightarrow> loop_event list" where
  "events_of ls = concat (map beat_events ls)"

lemma trace_of_simps [simp]:
  "rpcs_of w [] = []" "rpcs_of w (ls @ [l]) = rpcs_of w ls @ beat_rpcs w l"
  "events_of [] = []" "events_of (ls @ [l]) = events_of ls @ beat_events l"
  by (simp_all add: rpcs_of_def events_of_def)

lemma heartbeatLoop_append:
  "CtxCancelled \<notin> set es \<Longrightarrow> heartbeatLoop w (es @ es') = heartbeatLoop w es @ heartbeatLoop w es'"
  by (induction w es rule: heartbeatLoop.induct) auto

text \<open>What the goroutine has sent, by its program point.\<close>

definition beat_ok :: "worker \<Rightarrow> wp_label list \<Rightarrow> beat_pc \<Rightarrow> bool" where
  "beat_ok w ls pc \<longleftrightarrow>
     (case pc of
        BeatCalling \<Rightarrow> CtxCancelled \<notin> set (events_of ls)
          \<and> rpcs_of w ls = heartbeatLoop w (events_of ls) @ [CallHeartbeat (heartbeat_call w)]
      | BeatDeregistering \<Rightarrow> (\<exists>es. events_of ls = es @ [CtxCancelled] \<and> CtxCancelled \<notin> set es)
          \<and> rpcs_of w ls = heartbeatLoop w (events_of ls)
      | BeatDone \<Rightarrow> (\<exists>es. events_of ls = es @ [CtxCancelled] \<and> CtxCancelled \<notin> set es)
          \<and> rpcs_of w ls = heartbeatLoop w (events_of ls)
      | _ \<Rightarrow> CtxCancelled \<notin> set (events_of ls) \<and> rpcs_of w ls = heartbeatLoop w (events_of ls))"

definition beat_live :: "worker_process \<Rightarrow> int" where
  "beat_live s = (if wp_beat s = BeatDone then 0 else 1)"

definition wp_inv :: "wp_label list \<Rightarrow> worker_process \<Rightarrow> bool" where
  "wp_inv ls s \<longleftrightarrow> beat_ok (wp_me s) ls (wp_beat s)
     \<and> wg (wp_core s) = serve_live (wp_core s) + bridge_live (wp_core s) + beat_live s
     \<and> (exited (wp_core s) \<longrightarrow> wg (wp_core s) = 0)
     \<and> (\<forall>req res. (req, Some res) \<in> set (wp_handlers s) \<longrightarrow> (\<exists>out. res = worker_Generate (wp_me s) req out))"

lemma beat_ok_quiet: "beat_ok w ls pc \<Longrightarrow> beat_rpcs w l = [] \<Longrightarrow> beat_events l = [] \<Longrightarrow> beat_ok w (ls @ [l]) pc"
  by (simp add: beat_ok_def split: beat_pc.splits)

lemma wp_inv_step:
  assumes inv: "wp_inv ls s" and step: "wp_step g s l t"
  shows "wp_inv (ls @ [l]) t"
  using step
proof cases
  case (wp_skeleton cl c')
  have "wg c' = serve_live c' + bridge_live c' + beat_live s"
    using core_wg_bridge [OF wp_skeleton(4,5)] inv by (simp add: wp_inv_def)
  moreover have "exited c' \<Longrightarrow> wg c' = 0" using wp_skeleton(3-5) by (auto elim: core_stepE)
  ultimately show ?thesis
    using inv wp_skeleton(1,2) by (auto simp: wp_inv_def beat_live_def intro: beat_ok_quiet)
next
  case (wp_accept req)
  then show ?thesis using inv by (auto simp: wp_inv_def beat_live_def intro: beat_ok_quiet)
next
  case (wp_respond i req out res)
  then have "\<exists>out. res' = worker_Generate (wp_me s) req' out"
    if "(req', Some res') \<in> set ((wp_handlers s)[i := (req, Some res)])" for req' res'
    using that inv by (auto simp: wp_inv_def dest!: set_update_subset_insert [THEN subsetD])
  then show ?thesis using inv wp_respond(1,2) by (auto simp: wp_inv_def beat_live_def intro: beat_ok_quiet)
next
  case (wp_answer err)
  then show ?thesis
    using inv by (auto simp: wp_inv_def beat_ok_def beat_live_def heartbeatLoop_append)
next
  case wp_cancel
  then show ?thesis
    using inv by (auto simp: wp_inv_def beat_ok_def beat_live_def heartbeatLoop_append)
next
  case (wp_deregistered c')
  from wp_deregistered(5) show ?thesis
    using inv wp_deregistered(1-4)
    by cases (auto simp: wp_inv_def beat_ok_def beat_live_def serve_live_def bridge_live_def)
qed (use inv in \<open>auto simp: wp_inv_def beat_ok_def beat_live_def\<close>)

interpretation wpi: trace_invariant wp_init "wp_step g" wp_inv
proof
  show "wp_inv [] s" if "wp_init s" for s
    using that by (auto simp: wp_init_def wp_inv_def worker_start_def beat_ok_def process_start_def serve_live_def
        bridge_live_def beat_live_def)
qed (rule wp_inv_step)

section \<open>Shutdown\<close>

text \<open>The goroutine's own steps left once the context is done and the ticker's branch is not taken again.\<close>

fun beat_rank :: "beat_pc \<Rightarrow> nat" where
  "beat_rank BeatStart = 6"
| "beat_rank BeatCalling = 5"
| "beat_rank BeatRegistering = 4"
| "beat_rank BeatSelect = 3"
| "beat_rank BeatDeregistering = 2"
| "beat_rank BeatDone = 0"
| "beat_rank BeatPanicked = 0"

definition wp_left :: "worker_process \<Rightarrow> nat" where
  "wp_left s = core_rank (wp_core s) + beat_rank (wp_beat s) + wp_running s"

fun wp_winds_down :: "wp_label \<Rightarrow> bool" where
  "wp_winds_down WBeat = False"
| "wp_winds_down (WAccept req) = False"
| "wp_winds_down l = True"

lemma wp_lowers:
  assumes "wp_step g s l t" and "ctx_done (wp_core s)" and "wp_winds_down l"
  shows "wp_left t < wp_left s"
  using assms(1)
proof cases
  case (wp_skeleton cl c')
  then have "core_rank c' < core_rank (wp_core s)" using core_rank_step [OF wp_skeleton(4) assms(2)] by simp
  then show ?thesis using wp_skeleton by (simp add: wp_left_def wp_running_def)
next
  case (wp_respond i req out res)
  then show ?thesis
    using count_if_update_loss [of i "wp_handlers s" "\<lambda>h. snd h = None" "(req, Some res)"]
    by (simp add: wp_left_def wp_running_def)
next
  case (wp_deregistered c')
  from wp_deregistered(5) show ?thesis
    using wp_deregistered(2,4) by cases (simp add: wp_left_def wp_running_def)
qed (use assms(3) in \<open>auto simp: wp_left_def wp_running_def\<close>)

lemma wp_can_step:
  assumes ok: "grpc_ok g" and inv: "wp_inv ls s" and ctx: "ctx_done (wp_core s)"
    and live: "\<not> exited (wp_core s)" and np: "wp_beat s \<noteq> BeatPanicked"
  shows "\<exists>l t. wp_step g s l t \<and> wp_winds_down l"
proof -
  have I: "\<exists>l t. wp_step g s l t \<and> wp_winds_down l" if "wp_step g s l t" "wp_winds_down l" for l t
    using that by blast
  have wg: "wg (wp_core s) = serve_live (wp_core s) + bridge_live (wp_core s) + beat_live s"
    using inv by (simp add: wp_inv_def)
  consider (handler) "0 < wp_running s" | (beat) "wp_beat s \<noteq> BeatDone"
    | (skeleton) "wp_running s = 0" "wp_beat s = BeatDone" by auto
  then show ?thesis
  proof cases
    case handler
    then obtain i where i: "i < length (wp_handlers s)" "snd (wp_handlers s ! i) = None"
      by (auto simp: wp_running_def count_if_pos in_set_conv_nth)
    obtain req where "wp_handlers s ! i = (req, None)" using i(2) by (cases "wp_handlers s ! i") auto
    from wp_respond [where g = g, OF live i(1) this refl] show ?thesis by (rule I) simp
  next
    case beat
    show ?thesis
    proof (cases "wp_beat s")
      case BeatStart
      from wp_ticker [where g = g, OF live this] show ?thesis by (rule I) simp
    next
      case BeatSelect
      from wp_cancel [where g = g, OF live this ctx] show ?thesis by (rule I) simp
    next
      case BeatCalling
      from wp_answer [where g = g, OF live this] show ?thesis by (rule I) simp
    next
      case BeatRegistering
      from wp_registered [where g = g, OF live this] show ?thesis by (rule I) simp
    next
      case BeatDeregistering
      from wp_deregistered [where g = g, OF live this core_done] show ?thesis by (rule I) simp
    qed (use np beat in auto)
  next
    case skeleton
    from wps.stop_progress [OF ok ctx skeleton(1)] show ?thesis
    proof (elim disjE exE conjE)
      fix cl c' assume "cl \<notin> {CSignal, CBridgeDone, CDone, CExit}" "core_step g (wp_running s) (wp_core s) cl c'"
      then have "wp_step g s (WCore cl) (s\<lparr>wp_core := c'\<rparr>)" by (intro wp_skeleton live) auto
      then show ?thesis by (rule I) simp
    next
      assume st: "stop_at (wp_core s) \<in> {Stopped, StopDone}" "serve_at (wp_core s) = ServeReturned"
      show ?thesis
      proof (cases "stop_at (wp_core s) = Stopped")
        case True
        from wp_skeleton [where g = g, OF live core_bridge_done [OF True]] show ?thesis by (intro I) auto
      next
        case False
        then have "wg (wp_core s) = 0"
          using st skeleton wg by (simp add: serve_live_def bridge_live_def beat_live_def)
        from wp_skeleton [where g = g, OF live core_exit [OF this]] show ?thesis by (intro I) auto
      qed
    qed
  qed
qed

text \<open>With a positive interval the goroutine never panics, and nothing changes the interval or the worker's identity.\<close>

lemma wp_frame:
  assumes "wp_step g s l t"
  shows "wp_me t = wp_me s" "wp_interval t = wp_interval s"
    "0 < sint (wp_interval s) \<Longrightarrow> wp_beat s \<noteq> BeatPanicked \<Longrightarrow> wp_beat t \<noteq> BeatPanicked"
  using assms by (cases; simp)+

lemma wp_run_frame:
  assumes "exec (wp_step g) (worker_start w interval) ls t"
  shows "wp_me t = w \<and> wp_interval t = interval \<and> (0 < sint interval \<longrightarrow> wp_beat t \<noteq> BeatPanicked)"
  using assms by (induction rule: exec.induct) (auto simp: worker_start_def dest: wp_frame)

section \<open>A run\<close>

text \<open>
  One request is answered, one heartbeat is sent and answered \<^verbatim>\<open>NotFound\<close>, the worker registers again, and
  then it is told to stop.
\<close>

definition ex_me :: worker where
  "ex_me = \<lparr>workerID = ''w1'', workerAddr = ''w1'', delay = 0\<rparr>"

definition ex_not_found :: go_error where
  "ex_not_found = GoError NotFound ''unknown worker'' []"

definition wp_at :: "process \<Rightarrow> mock_handler list \<Rightarrow> beat_pc \<Rightarrow> worker_process" where
  "wp_at c hs b = \<lparr>wp_core = c, wp_me = ex_me, wp_interval = 1000000000, wp_handlers = hs, wp_beat = b\<rparr>"

definition ex_mock_request :: inference_request where
  "ex_mock_request = \<lparr>req_RequestId = ''r1'', req_Prompt = ''hi'', req_MaxTokens = 0\<rparr>"

definition ex_answered :: "mock_handler list" where
  "ex_answered = [(ex_mock_request, Some (worker_Generate ex_me ex_mock_request DelayElapsed))]"

definition ex_worker_beats :: "wp_label list" where
  "ex_worker_beats = [WTicker, WAccept ex_mock_request, WBeat, WAnswer (Some ex_not_found), WRegistered,
     WRespond ex_mock_request (worker_Generate ex_me ex_mock_request DelayElapsed)]"

definition ex_worker_stops :: "wp_label list" where
  "ex_worker_stops = [WCancel, WDeregistered, WCore CStop, WCore CStopped, WCore CServeNil, WCore CBridgeDone, WCore CExit]"

lemma wp_at_sel [simp]:
  "wp_core (wp_at c hs b) = c" "wp_me (wp_at c hs b) = ex_me" "wp_interval (wp_at c hs b) = 1000000000"
  "wp_handlers (wp_at c hs b) = hs" "wp_beat (wp_at c hs b) = b" "wp_running (wp_at c hs b) = count_if (\<lambda>h. snd h = None) hs"
  by (simp_all add: wp_at_def wp_running_def)

lemma wp_at_core:
  "core_step sample_server (count_if (\<lambda>h. snd h = None) hs) c cl c' \<Longrightarrow> \<not> exited c \<Longrightarrow> cl \<noteq> CDone \<Longrightarrow>
     wp_step sample_server (wp_at c hs b) (WCore cl) (wp_at c' hs b)"
  using wp_skeleton [of "wp_at c hs b" sample_server cl c'] by (simp add: wp_at_def wp_running_def)

lemmas wrun_cons = exec_cons [where step = "wp_step sample_server"]

definition ex_wup :: process where
  "ex_wup = process_start 3"

lemma ex_wup_sel [simp]:
  "\<not> exited ex_wup" "serve_at ex_wup = Serving" "stop_at ex_wup = AwaitCtx" "\<not> ctx_done ex_wup" "wg ex_wup = 3"
  by (simp_all add: ex_wup_def process_start_def)

lemma ex_worker_beats_exec:
  "exec (wp_step sample_server) (worker_start ex_me 1000000000) ex_worker_beats (wp_at ex_wup ex_answered BeatSelect)"
proof -
  let ?p = "[(ex_mock_request, None)] :: mock_handler list"
  have 0: "worker_start ex_me 1000000000 = wp_at ex_wup [] BeatStart"
    by (simp add: worker_start_def wp_at_def ex_wup_def)
  have 1: "wp_step sample_server (wp_at ex_wup [] BeatStart) WTicker (wp_at ex_wup [] BeatSelect)"
    using wp_ticker [of "wp_at ex_wup [] BeatStart" sample_server] by (simp add: wp_at_def)
  have 2: "wp_step sample_server (wp_at ex_wup [] BeatSelect) (WAccept ex_mock_request) (wp_at ex_wup ?p BeatSelect)"
    using wp_accept [of "wp_at ex_wup [] BeatSelect" sample_server ex_mock_request] by (simp add: wp_at_def)
  have 3: "wp_step sample_server (wp_at ex_wup ?p BeatSelect) WBeat (wp_at ex_wup ?p BeatCalling)"
    using wp_tick [of "wp_at ex_wup ?p BeatSelect" sample_server] by (simp add: wp_at_def)
  have 4: "wp_step sample_server (wp_at ex_wup ?p BeatCalling) (WAnswer (Some ex_not_found)) (wp_at ex_wup ?p BeatRegistering)"
    using wp_answer [of "wp_at ex_wup ?p BeatCalling" sample_server "Some ex_not_found"]
    by (simp add: wp_at_def after_heartbeat_def ex_not_found_def)
  have 5: "wp_step sample_server (wp_at ex_wup ?p BeatRegistering) WRegistered (wp_at ex_wup ?p BeatSelect)"
    using wp_registered [of "wp_at ex_wup ?p BeatRegistering" sample_server] by (simp add: wp_at_def)
  have 6: "wp_step sample_server (wp_at ex_wup ?p BeatSelect)
      (WRespond ex_mock_request (worker_Generate ex_me ex_mock_request DelayElapsed)) (wp_at ex_wup ex_answered BeatSelect)"
    using wp_respond [of "wp_at ex_wup ?p BeatSelect" 0 ex_mock_request DelayElapsed _ sample_server]
    by (simp add: wp_at_def ex_answered_def)
  show ?thesis unfolding 0 ex_worker_beats_def
    by (rule wrun_cons [OF 1 wrun_cons [OF 2 wrun_cons [OF 3 wrun_cons [OF 4 wrun_cons [OF 5 wrun_cons [OF 6 exec_nil]]]]]])
qed

lemma ex_worker_told:
  "exec (wp_step sample_server) (worker_start ex_me 1000000000) (ex_worker_beats @ [WCore CSignal])
     (wp_at (ex_wup\<lparr>ctx_done := True\<rparr>) ex_answered BeatSelect)"
  by (rule exec_snoc [OF ex_worker_beats_exec wp_at_core [OF core_signal]]) simp_all

lemma ex_worker_stops_exec:
  "\<exists>s. exec (wp_step sample_server) (wp_at (ex_wup\<lparr>ctx_done := True\<rparr>) ex_answered BeatSelect) ex_worker_stops s
     \<and> exited (wp_core s) \<and> wp_handlers s = ex_answered"
proof -
  let ?c0 = "ex_wup\<lparr>ctx_done := True\<rparr>"
  let ?c1 = "?c0\<lparr>wg := 2\<rparr>"
  let ?c2 = "?c1\<lparr>stop_at := Stopping\<rparr>"
  let ?c3 = "?c2\<lparr>stop_at := Stopped\<rparr>"
  let ?c4 = "?c3\<lparr>serve_at := ServeReturned, wg := 1\<rparr>"
  let ?c5 = "?c4\<lparr>stop_at := StopDone, wg := 0\<rparr>"
  have n: "count_if (\<lambda>h. snd h = None) ex_answered = 0" by (simp add: ex_answered_def)
  have 1: "wp_step sample_server (wp_at ?c0 ex_answered BeatSelect) WCancel (wp_at ?c0 ex_answered BeatDeregistering)"
    using wp_cancel [of "wp_at ?c0 ex_answered BeatSelect" sample_server] by (simp add: wp_at_def)
  have "core_step sample_server 0 ?c0 CDone ?c1" using core_done [of sample_server 0 ?c0] by simp
  then have 2: "wp_step sample_server (wp_at ?c0 ex_answered BeatDeregistering) WDeregistered (wp_at ?c1 ex_answered BeatDone)"
    using wp_deregistered [of "wp_at ?c0 ex_answered BeatDeregistering" sample_server ?c1] n by (simp add: wp_at_def wp_running_def)
  have "core_step sample_server 0 ?c1 CStop ?c2" using core_stop [of ?c1 sample_server 0] by simp
  then have 3: "wp_step sample_server (wp_at ?c1 ex_answered BeatDone) (WCore CStop) (wp_at ?c2 ex_answered BeatDone)"
    by (intro wp_at_core) (auto simp: n)
  have "core_step sample_server 0 ?c2 CStopped ?c3" using core_stopped [of ?c2 sample_server 0] by simp
  then have 4: "wp_step sample_server (wp_at ?c2 ex_answered BeatDone) (WCore CStopped) (wp_at ?c3 ex_answered BeatDone)"
    by (intro wp_at_core) (auto simp: n)
  have "core_step sample_server 0 ?c3 CServeNil ?c4" using core_serve_nil [of ?c3 sample_server 0] by simp
  then have 5: "wp_step sample_server (wp_at ?c3 ex_answered BeatDone) (WCore CServeNil) (wp_at ?c4 ex_answered BeatDone)"
    by (intro wp_at_core) (auto simp: n)
  have "core_step sample_server 0 ?c4 CBridgeDone ?c5" using core_bridge_done [of ?c4 sample_server 0] by simp
  then have 6: "wp_step sample_server (wp_at ?c4 ex_answered BeatDone) (WCore CBridgeDone) (wp_at ?c5 ex_answered BeatDone)"
    by (intro wp_at_core) (auto simp: n)
  have "core_step sample_server 0 ?c5 CExit (?c5\<lparr>exited := True\<rparr>)" using core_exit [of ?c5 sample_server 0] by simp
  then have 7: "wp_step sample_server (wp_at ?c5 ex_answered BeatDone) (WCore CExit) (wp_at (?c5\<lparr>exited := True\<rparr>) ex_answered BeatDone)"
    by (intro wp_at_core) (auto simp: n)
  show ?thesis unfolding ex_worker_stops_def
    by (intro exI conjI, rule wrun_cons [OF 1 wrun_cons [OF 2 wrun_cons [OF 3 wrun_cons [OF 4 wrun_cons [OF 5
        wrun_cons [OF 6 wrun_cons [OF 7 exec_nil]]]]]]]) simp_all
qed

section \<open>Properties\<close>

text \<open>
  C31. The worker's heartbeat goroutine implements the loop: in every run of the process, whatever else is
  interleaved, the calls the goroutine has sent to the control plane are those that \<open>heartbeatLoop\<close> sends
  for the answers and the cancellation it met, plus the heartbeat it is waiting for.
\<close>

theorem heartbeat_goroutine_refines_loop:
  assumes "exec (wp_step g) (worker_start w interval) ls s"
  shows "rpcs_of w ls = heartbeatLoop w (events_of ls)
     @ (if wp_beat s = BeatCalling then [CallHeartbeat (heartbeat_call w)] else [])"
proof -
  have "wp_inv ls s" using wpi.tinv_exec [OF assms] by (auto simp: wp_init_def)
  then show ?thesis
    using wp_run_frame [OF assms] by (auto simp: wp_inv_def beat_ok_def split: beat_pc.splits)
qed

theorem heartbeat_goroutine_refines_loop_witness:
  "rpcs_of ex_me ex_worker_beats
     = [CallHeartbeat (heartbeat_call ex_me), CallRegister (register_call ex_me)]"
  using heartbeat_goroutine_refines_loop [OF ex_worker_beats_exec]
  by (simp add: events_of_def ex_worker_beats_def after_heartbeat_def ex_not_found_def)

text \<open>When main has returned the heartbeat goroutine is over, and what it sent ends with its one \<^verbatim>\<open>Deregister\<close>.\<close>

lemma worker_exit_calls:
  assumes "exec (wp_step g) (worker_start w interval) ls s" and "exited (wp_core s)"
  shows "stop_at (wp_core s) = StopDone"
    and "\<exists>cs. rpcs_of w ls = cs @ [CallDeregister (deregister_call w)] \<and> (\<forall>req. CallDeregister req \<notin> set cs)"
proof -
  have inv: "wp_inv ls s" using wpi.tinv_exec [OF assms(1)] by (auto simp: wp_init_def)
  have z: "serve_live (wp_core s) + bridge_live (wp_core s) + beat_live s = 0" using inv assms(2) by (simp add: wp_inv_def)
  then have b: "wp_beat s = BeatDone" and st: "stop_at (wp_core s) = StopDone"
    by (auto simp: serve_live_def bridge_live_def beat_live_def split: if_splits)
  from inv b wp_run_frame [OF assms(1)] obtain es where es: "events_of ls = es @ [CtxCancelled]" "CtxCancelled \<notin> set es"
      "rpcs_of w ls = heartbeatLoop w (events_of ls)" by (auto simp: wp_inv_def beat_ok_def)
  have "CallDeregister req \<notin> set (heartbeatLoop w es)" for req
    using es(2) by (induction w es rule: heartbeatLoop.induct)
      (auto simp: after_heartbeat_def split: grpc_code.splits)
  then show "\<exists>cs. rpcs_of w ls = cs @ [CallDeregister (deregister_call w)] \<and> (\<forall>req. CallDeregister req \<notin> set cs)"
    using es by (intro exI [of _ "heartbeatLoop w es"]) (simp add: heartbeatLoop_append)
  show "stop_at (wp_core s) = StopDone" by (rule st)
qed

text \<open>
  C32. A worker that leaves says so, once: when main has returned, the process had been told to stop, the last
  call it sent to the control plane was its \<^verbatim>\<open>Deregister\<close> and it sent no other, and every request it accepted
  has been answered by the handler. This includes the exit after a failure of \<^verbatim>\<open>Serve\<close>.
\<close>

theorem worker_exit_deregisters:
  assumes "grpc_ok g" and "exec (wp_step g) (worker_start w interval) ls s" and "exited (wp_core s)"
  shows "ctx_done (wp_core s)
     \<and> (\<exists>cs. rpcs_of w ls = cs @ [CallDeregister (deregister_call w)]
          \<and> (\<forall>req. CallDeregister req \<notin> set cs))
     \<and> (\<forall>h \<in> set (wp_handlers s). \<exists>out. snd h = Some (worker_Generate w (fst h) out))"
proof -
  have inv: "wp_inv ls s" using wpi.tinv_exec [OF assms(2)] by (auto simp: wp_init_def)
  have "reachable wp_init (wp_step g) s" using assms(2) by (auto simp: reachable_def wp_init_def)
  note life = wps.drained [OF assms(1) this] wps.stop_after_cancel [OF assms(1) this]
  note left = worker_exit_calls [OF assms(2,3)]
  have "\<exists>out. snd h = Some (worker_Generate w (fst h) out)" if h: "h \<in> set (wp_handlers s)" for h
  proof -
    have "snd h \<noteq> None" using life(1) left(1) h by (auto simp: wp_running_def count_if_zero)
    then obtain res where "snd h = Some res" by auto
    with inv h wp_run_frame [OF assms(2)] show ?thesis by (cases h) (auto simp: wp_inv_def)
  qed
  then show ?thesis using life(2) left by simp
qed

theorem worker_exit_deregisters_witness:
  "\<exists>ls s cs. exec (wp_step sample_server) (worker_start ex_me 1000000000) ls s
     \<and> rpcs_of ex_me ls = cs @ [CallDeregister (deregister_call ex_me)] \<and> length cs = 2"
proof -
  obtain s where s: "exec (wp_step sample_server) (wp_at (ex_wup\<lparr>ctx_done := True\<rparr>) ex_answered BeatSelect) ex_worker_stops s"
      "exited (wp_core s)" using ex_worker_stops_exec by blast
  let ?ls = "(ex_worker_beats @ [WCore CSignal]) @ ex_worker_stops"
  have e: "exec (wp_step sample_server) (worker_start ex_me 1000000000) ?ls s"
    by (rule exec_append [OF s(1) ex_worker_told])
  from worker_exit_deregisters [OF sample_server_ok e s(2)] obtain cs where
    "rpcs_of ex_me ?ls = cs @ [CallDeregister (deregister_call ex_me)]" by blast
  moreover have "length (rpcs_of ex_me ?ls) = 3"
    by (simp add: rpcs_of_def ex_worker_beats_def ex_worker_stops_def after_heartbeat_def ex_not_found_def)
  ultimately show ?thesis using e by fastforce
qed

text \<open>
  The worker's shutdown ends: once the context is done and until main has returned, some step is possible
  that lowers what is left of the shutdown, provided the control plane's reply to the registration
  gave a positive interval (with another one \<^verbatim>\<open>time.NewTicker\<close> would have panicked).
\<close>

lemma worker_shutdown_progress:
  assumes "grpc_ok g" and "0 < sint interval" and "exec (wp_step g) (worker_start w interval) ls s"
    and "ctx_done (wp_core s)" and "\<not> exited (wp_core s)"
  shows "\<exists>l t. wp_step g s l t \<and> wp_left t < wp_left s"
proof -
  have "wp_inv ls s" using wpi.tinv_exec [OF assms(3)] by (auto simp: wp_init_def)
  moreover have "wp_beat s \<noteq> BeatPanicked" using wp_run_frame [OF assms(3)] assms(2) by simp
  ultimately show ?thesis using wp_can_step [OF assms(1) _ assms(4,5)] wp_lowers [OF _ assms(4)] by blast
qed

lemma worker_shutdown_progress_witness:
  "\<exists>l t. wp_step sample_server (wp_at (ex_wup\<lparr>ctx_done := True\<rparr>) ex_answered BeatSelect) l t
     \<and> wp_left t < wp_left (wp_at (ex_wup\<lparr>ctx_done := True\<rparr>) ex_answered BeatSelect)"
  by (rule worker_shutdown_progress [OF sample_server_ok _ ex_worker_told]) simp_all

end
