(* ===== verification/Tracker.thy ===== *)
theory Tracker
  imports Wire
begin

text \<open>
  In-flight requests (\<^verbatim>\<open>internal/gateway/tracker.go\<close>): the inflight record, the adjudication latch
  \<^verbatim>\<open>settle\<close>, the classification of errors and the table of requests.

  Attempts hold the inflight record by pointer and go on using it after its table entry is gone,
  so the records live in a heap: the table maps a request id to a pointer and the heap maps the
  pointer to the record. Pointers are numbers and a new record takes the next one.
\<close>

definition maxAttempts :: int where "maxAttempts = 3"

section \<open>Adjudication\<close>

text \<open>
  What the racing attempts rely on: a latch with a slot for the winner's result. Settling never
  blocks; the first settle wins and leaves its result; every later one loses and changes nothing,
  also when the result has been received in between.
\<close>

locale first_wins =
  fixes offer :: "'r \<Rightarrow> 's \<Rightarrow> (bool \<times> 's) option"
    and receive :: "'s \<Rightarrow> ('r \<times> 's) option"
    and decided :: "'s \<Rightarrow> bool"
    and slot :: "'s \<Rightarrow> 'r list"
    and fine :: "'s \<Rightarrow> bool"
  assumes offer_first: "fine s \<Longrightarrow> \<not> decided s \<Longrightarrow>
      \<exists>s'. offer r s = Some (True, s') \<and> decided s' \<and> slot s' = [r] \<and> fine s'"
    and offer_late: "fine s \<Longrightarrow> decided s \<Longrightarrow> offer r s = Some (False, s)"
    and undecided_empty: "fine s \<Longrightarrow> \<not> decided s \<Longrightarrow> slot s = []"
    and receive_None: "fine s \<Longrightarrow> receive s = None \<longleftrightarrow> slot s = []"
    and receive_Some: "fine s \<Longrightarrow> receive s = Some (r, s') \<Longrightarrow>
      slot s = r # slot s' \<and> decided s' = decided s \<and> fine s'"
    and slot_small: "fine s \<Longrightarrow> length (slot s) \<le> 1"
begin

text \<open>A history of offers (\<open>Inl r\<close>) and receives (\<open>Inr ()\<close>); what won and what was received.\<close>

fun history :: "('r + unit) list \<Rightarrow> 's \<Rightarrow> ('r list \<times> 'r list \<times> 's) option" where
  "history [] s = Some ([], [], s)"
| "history (Inl r # ops) s =
     (case offer r s of
        None \<Rightarrow> None
      | Some (won, s') \<Rightarrow> map_option (\<lambda>(ws, gs, t). (if won then r # ws else ws, gs, t)) (history ops s'))"
| "history (Inr u # ops) s =
     (case receive s of
        None \<Rightarrow> history ops s
      | Some (r, s') \<Rightarrow> map_option (\<lambda>(ws, gs, t). (ws, r # gs, t)) (history ops s'))"

lemma history_decided:
  "fine s \<Longrightarrow> decided s \<Longrightarrow> \<exists>gs t. history ops s = Some ([], gs, t) \<and> decided t \<and> fine t \<and> gs @ slot t = slot s"
proof (induction ops arbitrary: s)
  case Nil
  then show ?case by simp
next
  case (Cons x ops)
  show ?case
  proof (cases x)
    case (Inl r)
    then show ?thesis using Cons offer_late [OF Cons.prems, of r] by simp
  next
    case (Inr u)
    show ?thesis
    proof (cases "receive s")
      case None
      then show ?thesis using Cons Inr by simp
    next
      case (Some y)
      then obtain r s' where y: "receive s = Some (r, s')" by (cases y) auto
      with receive_Some [OF Cons.prems(1) this] Cons.prems have
        "slot s = r # slot s'" "decided s'" "fine s'" by auto
      with Cons.IH [of s'] y Inr show ?thesis by auto
    qed
  qed
qed

lemma one_winner:
  assumes "fine s" and "\<not> decided s"
  shows "\<exists>ws gs t. history ops s = Some (ws, gs, t) \<and> length ws \<le> 1 \<and> gs @ slot t = ws
     \<and> (\<forall>r ops'. dropWhile (\<lambda>x. x = Inr ()) ops = Inl r # ops' \<longrightarrow> ws = [r])"
  using assms
proof (induction ops)
  case Nil
  then show ?case using undecided_empty by simp
next
  case (Cons x ops)
  show ?case
  proof (cases x)
    case (Inl r)
    obtain s' where s': "offer r s = Some (True, s')" "decided s'" "slot s' = [r]" "fine s'"
      using offer_first [OF Cons.prems, of r] by blast
    obtain gs t where h: "history ops s' = Some ([], gs, t)" "gs @ slot t = [r]"
      using history_decided [OF s'(4,2), of ops] s'(3) by auto
    then have "history (x # ops) s = Some ([r], gs, t)" using s'(1) Inl by simp
    with h(2) Inl show ?thesis by (intro exI [of _ "[r]"] exI [of _ gs] exI [of _ t]) auto
  next
    case (Inr u)
    have "receive s = None"
      using receive_None [OF Cons.prems(1)] undecided_empty [OF Cons.prems] by simp
    then show ?thesis using Cons Inr by auto
  qed
qed

end

section \<open>The inflight record\<close>

text \<open>The outcome of one attempt: exactly one of the two pointers is set.\<close>

record attempt_result =
  ar_resp :: "inference_response option"
  ar_err :: "go_error option"
  ar_workerID :: string

record inflight =
  ih_req :: inference_request
  assigned :: string
  attempts :: int
  dispatched :: int
  tried :: "string set"
  claimed :: bool
  ih_result :: "attempt_result list"

text \<open>
  \<^verbatim>\<open>settle\<close> is a compare-and-swap on the latch and, for its winner, a send on the channel of
  capacity 1; \<open>None\<close> would be a send that blocks for ever. The two parts are separate because
  other goroutines can run between them.
\<close>

definition cas_claim :: "inflight \<Rightarrow> bool \<times> inflight" where
  "cas_claim ih = (if claimed ih then (False, ih) else (True, ih\<lparr>claimed := True\<rparr>))"

definition settle :: "attempt_result \<Rightarrow> inflight \<Rightarrow> (bool \<times> inflight) option" where
  "settle r ih =
     (let (won, ih1) = cas_claim ih
      in if \<not> won then Some (False, ih1)
         else map_option (\<lambda>buf. (True, ih1\<lparr>ih_result := buf\<rparr>)) (chan_send 1 r (ih_result ih1)))"

definition take_result :: "inflight \<Rightarrow> (attempt_result \<times> inflight) option" where
  "take_result ih = map_option (\<lambda>(r, rest). (r, ih\<lparr>ih_result := rest\<rparr>)) (chan_recv (ih_result ih))"

definition latch_wf :: "inflight \<Rightarrow> bool" where
  "latch_wf ih \<longleftrightarrow> length (ih_result ih) \<le> 1 \<and> (\<not> claimed ih \<longrightarrow> ih_result ih = [])"

interpretation latch: first_wins settle take_result claimed ih_result latch_wf
  by unfold_locales
     (auto simp: settle_def cas_claim_def take_result_def latch_wf_def chan_send_def neq_Nil_conv)

lemma settle_unclaimed:
  "latch_wf ih \<Longrightarrow> \<not> claimed ih \<Longrightarrow> settle r ih = Some (True, ih\<lparr>claimed := True, ih_result := [r]\<rparr>)"
  by (simp add: settle_def cas_claim_def latch_wf_def chan_send_def)

lemma settle_claimed: "claimed ih \<Longrightarrow> settle r ih = Some (False, ih)"
  by (simp add: settle_def cas_claim_def)

section \<open>Classification of errors\<close>

definition retryable :: "go_error \<Rightarrow> bool" where
  "retryable err =
     (case status_code (Some err) of
        Unavailable \<Rightarrow> True
      | DeadlineExceeded \<Rightarrow> True
      | _ \<Rightarrow> False)"

lemma retryable_iff: "retryable err \<longleftrightarrow> err_code err = Unavailable \<or> err_code err = DeadlineExceeded"
  by (auto simp: retryable_def split: grpc_code.splits)

section \<open>The table\<close>

type_synonym ptr = nat

record request_tracker =
  requests :: "string \<rightharpoonup> ptr"
  heap :: "ptr \<rightharpoonup> inflight"
  next_ptr :: ptr

definition NewRequestTracker :: request_tracker where
  "NewRequestTracker = \<lparr>requests = Map.empty, heap = Map.empty, next_ptr = 0\<rparr>"

definition new_inflight :: "inference_request \<Rightarrow> string \<Rightarrow> inflight" where
  "new_inflight req workerID =
     \<lparr>ih_req = req, assigned = workerID, attempts = 1, dispatched = 1, tried = {},
      claimed = False, ih_result = []\<rparr>"

definition register ::
  "inference_request \<Rightarrow> string \<Rightarrow> request_tracker \<Rightarrow> (go_error + ptr) \<times> request_tracker" where
  "register req workerID t =
     (let reqID = req_RequestId req
      in case requests t reqID of
           Some _ \<Rightarrow> (Inl (GoError AlreadyExists ''request %s already in flight'' [ArgString reqID]), t)
         | None \<Rightarrow>
             (let p = next_ptr t
              in (Inr p, t\<lparr>requests := (requests t)(reqID \<mapsto> p),
                           heap := (heap t)(p \<mapsto> new_inflight req workerID),
                           next_ptr := p + 1\<rparr>)))"

definition unregister :: "string \<Rightarrow> request_tracker \<Rightarrow> request_tracker" where
  "unregister reqID t = t\<lparr>requests := (requests t)(reqID := None)\<rparr>"

lemma new_inflight_sel [simp]:
  "ih_req (new_inflight q w) = q" "assigned (new_inflight q w) = w" "attempts (new_inflight q w) = 1"
  "dispatched (new_inflight q w) = 1" "tried (new_inflight q w) = {}"
  "claimed (new_inflight q w) = False" "ih_result (new_inflight q w) = []"
  by (simp_all add: new_inflight_def)

lemma latch_wf_new [simp]: "latch_wf (new_inflight q w)"
  by (simp add: latch_wf_def)

lemma register_Inr:
  "register req w t = (Inr p, t') \<longleftrightarrow> requests t (req_RequestId req) = None \<and> p = next_ptr t
     \<and> t' = t\<lparr>requests := (requests t)(req_RequestId req \<mapsto> p),
              heap := (heap t)(p \<mapsto> new_inflight req w), next_ptr := p + 1\<rparr>"
  by (auto simp: register_def Let_def split: option.splits)

lemma register_Inl:
  "register req w t = (Inl e, t') \<longleftrightarrow> requests t (req_RequestId req) \<noteq> None \<and> t' = t
     \<and> e = GoError AlreadyExists ''request %s already in flight'' [ArgString (req_RequestId req)]"
  by (auto simp: register_def Let_def split: option.splits)

lemma unregister_sel [simp]:
  "requests (unregister i t) = (requests t)(i := None)" "heap (unregister i t) = heap t"
  "next_ptr (unregister i t) = next_ptr t"
  by (simp_all add: unregister_def)

definition ex_request :: inference_request where
  "ex_request = \<lparr>req_RequestId = ''r1'', req_Prompt = ''hi'', req_MaxTokens = 0\<rparr>"

definition ex_answer :: "string \<Rightarrow> attempt_result" where
  "ex_answer wid = \<lparr>ar_resp = Some \<lparr>resp_RequestId = ''r1'', resp_Output = ''hi'', resp_WorkerId = wid\<rparr>,
     ar_err = None, ar_workerID = wid\<rparr>"

lemma ex_request_id [simp]: "req_RequestId ex_request = ''r1''"
  by (simp add: ex_request_def)

section \<open>Properties\<close>

text \<open>
  Exactly one attempt wins. Whatever sequence of settles and receives a request sees, no settle
  ever blocks, the first settle wins, every other one loses, and what the handler receives plus
  what still waits in the channel is the winner's result and nothing else. In particular a loser
  that arrives after the result was received still loses.
\<close>

lemma settle_exactly_one_winner:
  "\<exists>ws gs t. latch.history ops (new_inflight req wid) = Some (ws, gs, t) \<and> length ws \<le> 1
     \<and> gs @ ih_result t = ws
     \<and> (\<forall>r ops'. dropWhile (\<lambda>x. x = Inr ()) ops = Inl r # ops' \<longrightarrow> ws = [r])"
  using latch.one_winner [of "new_inflight req wid" ops] by simp

lemma settle_exactly_one_winner_witness:
  "\<exists>gs t. latch.history [Inr (), Inl (ex_answer ''w2''), Inr (), Inl (ex_answer ''w1'')]
       (new_inflight ex_request ''w1'') = Some ([ex_answer ''w2''], gs, t)
     \<and> gs @ ih_result t = [ex_answer ''w2'']"
  using settle_exactly_one_winner [of "[Inr (), Inl (ex_answer ''w2''), Inr (), Inl (ex_answer ''w1'')]"
      ex_request "''w1''"] by fastforce

text \<open>
  A request id is in flight at most once: registering an id that is in the table is refused with
  \<^verbatim>\<open>AlreadyExists\<close> and changes nothing; registering a free one gives a new record with one attempt
  and one dispatch spent, under a pointer no other id uses; unregistering frees the id and leaves
  the record to the attempts that still hold its pointer.
\<close>

lemma register_admits_once:
  "(case register req wid t of
      (Inl e, t') \<Rightarrow> req_RequestId req \<in> dom (requests t) \<and> err_code e = AlreadyExists \<and> t' = t
    | (Inr p, t') \<Rightarrow> req_RequestId req \<notin> dom (requests t) \<and> p = next_ptr t
        \<and> requests t' = (requests t)(req_RequestId req \<mapsto> p)
        \<and> heap t' = (heap t)(p \<mapsto> new_inflight req wid)
        \<and> (\<exists>e. register req wid t' = (Inl e, t'))
        \<and> requests (unregister (req_RequestId req) t') = (requests t)(req_RequestId req := None)
        \<and> heap (unregister (req_RequestId req) t') p = Some (new_inflight req wid))"
  by (auto simp: register_def Let_def split: option.splits)

end
