(* ===== verification/Gateway.thy ===== *)
theory Gateway
  imports Tracker
begin

text \<open>
  The gateway's operations (\<^verbatim>\<open>internal/gateway/gateway.go\<close>), each as a function on the state its
  lock guards. What a lock's critical section does is one function; the goroutines that string
  them together are in \<open>Retry_Chain\<close> (one request, nobody else running) and in \<open>Gateway_System\<close>
  (any number of requests, attempts and polls, interleaved).

  Random choices take their draw as an argument, iteration over the table takes its order. gRPC
  connections are opaque handles; \<^verbatim>\<open>grpc.NewClient\<close> and the generated client's \<^verbatim>\<open>Generate\<close> are
  arguments.
\<close>

definition attemptTimeout :: duration where "attemptTimeout = 30 * 1000000000"

section \<open>The worker view\<close>

definition departedIDs :: "wire_worker list \<Rightarrow> wire_worker list \<Rightarrow> string set" where
  "departedIDs old fresh =
     (let alive = fold (\<lambda>w. insert (wi_WorkerId w)) fresh {}
      in fold (\<lambda>w departed. if wi_WorkerId w \<notin> alive then insert (wi_WorkerId w) departed else departed)
           old {})"

definition healthyExcept :: "string set \<Rightarrow> wire_worker list \<Rightarrow> wire_worker list" where
  "healthyExcept exclude view = filter (\<lambda>w. wi_WorkerId w \<notin> exclude) view"

definition pickWorker :: "nat \<Rightarrow> wire_worker list \<Rightarrow> go_error + wire_worker" where
  "pickWorker draw view =
     (if length view = 0 then Inl (GoError Unavailable ''no healthy workers available'' [])
      else Inr (pick_random draw view))"

lemma fold_insert_set: "fold (\<lambda>w. insert (f w)) ws A = f ` set ws \<union> A"
  by (induction ws arbitrary: A) auto

lemma departedIDs_eq: "departedIDs old fresh = wi_WorkerId ` set old - wi_WorkerId ` set fresh"
proof -
  have "fold (\<lambda>w departed. if wi_WorkerId w \<notin> alive then insert (wi_WorkerId w) departed else departed)
      ws A = (wi_WorkerId ` set ws - alive) \<union> A" for alive A and ws :: "wire_worker list"
    by (induction ws arbitrary: A) auto
  then show ?thesis by (simp add: departedIDs_def fold_insert_set)
qed

lemma set_healthyExcept: "set (healthyExcept ex ws) = {w \<in> set ws. wi_WorkerId w \<notin> ex}"
  by (auto simp: healthyExcept_def)

lemma pickWorker_Inr: "pickWorker draw ws = Inr w \<Longrightarrow> w \<in> set ws"
  by (auto simp: pickWorker_def split: if_splits)

section \<open>Connections\<close>

type_synonym conn = nat

definition connFor ::
  "(string \<Rightarrow> go_error + conn) \<Rightarrow> string \<Rightarrow> (string \<rightharpoonup> conn)
     \<Rightarrow> (go_error + conn) \<times> (string \<rightharpoonup> conn)" where
  "connFor newClient addr conns =
     (case conns addr of
        Some c \<Rightarrow> (Inr c, conns)
      | None \<Rightarrow>
          (case newClient addr of
             Inl err \<Rightarrow> (Inl (GoError (err_code err) ''dial worker %s: %w'' [ArgString addr, ArgErr err]), conns)
           | Inr c \<Rightarrow> (Inr c, conns(addr \<mapsto> c))))"

definition dispatchRPC ::
  "(string \<Rightarrow> go_error + conn) \<Rightarrow> (conn \<Rightarrow> inference_request \<Rightarrow> go_error + inference_response)
     \<Rightarrow> wire_worker \<Rightarrow> inference_request \<Rightarrow> (string \<rightharpoonup> conn)
     \<Rightarrow> (go_error + inference_response) \<times> (string \<rightharpoonup> conn)" where
  "dispatchRPC newClient call target req conns =
     (case connFor newClient (wi_Address target) conns of
        (Inl err, conns') \<Rightarrow> (Inl err, conns')
      | (Inr c, conns') \<Rightarrow> (call c req, conns'))"

text \<open>\<^verbatim>\<open>Close\<close>: every cached connection is closed (the list, in the order of the walk) and dropped.\<close>

definition Close_conns :: "string list \<Rightarrow> (string \<rightharpoonup> conn) \<Rightarrow> conn list \<times> (string \<rightharpoonup> conn)" where
  "Close_conns ks conns = (range_values conns ks, fold (\<lambda>addr m. m(addr := None)) ks conns)"

section \<open>The slow failure path: a poll\<close>

record job =
  j_reqID :: string
  j_ih :: ptr
  j_target :: wire_worker

text \<open>
  Phase 2 of \<^verbatim>\<open>rerouteFrom\<close>, under the tracker's lock, for one entry of the table: the claim of a
  stranded request, or a note that its budget is spent.
\<close>

definition reroute_inflight :: "wire_worker \<Rightarrow> inflight \<Rightarrow> inflight" where
  "reroute_inflight target ih =
     ih\<lparr>assigned := wi_WorkerId target, attempts := attempts ih + 1, dispatched := dispatched ih + 1\<rparr>"

definition reroute_entry ::
  "string set \<Rightarrow> wire_worker list \<Rightarrow> (string \<Rightarrow> nat) \<Rightarrow> string
     \<Rightarrow> request_tracker \<times> job list \<times> string list \<Rightarrow> request_tracker \<times> job list \<times> string list" where
  "reroute_entry departed healthy draws reqID = (\<lambda>(t, jobs, overBudget).
     (case Option.bind (requests t reqID) (\<lambda>p. map_option (Pair p) (heap t p)) of
        None \<Rightarrow> (t, jobs, overBudget)
      | Some (p, ih) \<Rightarrow>
          (if assigned ih \<notin> departed then (t, jobs, overBudget)
           else if dispatched ih \<ge> maxAttempts then (t, jobs, overBudget @ [reqID])
           else (let target = pick_random (draws reqID) healthy
                 in (t\<lparr>heap := (heap t)(p \<mapsto> reroute_inflight target ih)\<rparr>,
                     jobs @ [\<lparr>j_reqID = reqID, j_ih = p, j_target = target\<rparr>], overBudget)))))"

definition reroute_claim ::
  "string set \<Rightarrow> wire_worker list \<Rightarrow> (string \<Rightarrow> nat) \<Rightarrow> string list \<Rightarrow> request_tracker
     \<Rightarrow> request_tracker \<times> job list \<times> string list" where
  "reroute_claim departed healthy draws ks t =
     fold (reroute_entry departed healthy draws) ks (t, [], [])"

text \<open>
  \<^verbatim>\<open>rerouteFrom\<close> up to phase 3: the tracker after the claims and the attempts to launch.
\<close>

definition rerouteFrom ::
  "string set \<Rightarrow> (string \<Rightarrow> nat) \<Rightarrow> string list \<Rightarrow> wire_worker list \<Rightarrow> request_tracker
     \<Rightarrow> request_tracker \<times> job list" where
  "rerouteFrom departed draws ks view t =
     (let healthy = healthyExcept departed view
      in if length healthy = 0 then (t, [])
         else (let (t', jobs, overBudget) = reroute_claim departed healthy draws ks t in (t', jobs)))"

text \<open>
  \<^verbatim>\<open>pollOnce\<close> when nobody else runs: a failed poll keeps the stale view, a successful one replaces
  it and reroutes the requests of the workers that left.
\<close>

definition pollOnce ::
  "(go_error + list_workers_response) \<Rightarrow> (string \<Rightarrow> nat) \<Rightarrow> string list \<Rightarrow> wire_worker list
     \<Rightarrow> request_tracker \<Rightarrow> wire_worker list \<times> request_tracker \<times> job list" where
  "pollOnce resp draws ks view t =
     (case resp of
        Inl err \<Rightarrow> (view, t, [])
      | Inr lw \<Rightarrow>
          (let fresh = lw_Workers lw;
               departed = departedIDs view fresh
           in if departed = {} then (fresh, t, [])
              else (let (t', jobs) = rerouteFrom departed draws ks fresh t in (fresh, t', jobs))))"

section \<open>The fast failure path: a failed attempt\<close>

text \<open>
  The critical section of \<^verbatim>\<open>attemptFailed\<close>: the record after it, the replacement if one is sent,
  and the two counters read under the lock.
\<close>

definition attempt_failed_locked ::
  "string \<Rightarrow> wire_worker list \<Rightarrow> nat \<Rightarrow> inflight \<Rightarrow> inflight \<times> wire_worker option \<times> bool \<times> int" where
  "attempt_failed_locked workerID candidates draw ih =
     (let ih1 = ih\<lparr>attempts := attempts ih - 1\<rparr>;
          ih2 = ih1\<lparr>tried := insert workerID (tried ih1)\<rparr>;
          (ih3, replacement) =
            (if dispatched ih2 < maxAttempts
             then (let eligible = filter (\<lambda>c. wi_WorkerId c \<notin> tried ih2) candidates
                   in if length eligible > 0
                      then (let target = pick_random draw eligible
                            in (ih2\<lparr>assigned := wi_WorkerId target, attempts := attempts ih2 + 1,
                                    dispatched := dispatched ih2 + 1\<rparr>, Some target))
                      else (ih2, None))
             else (ih2, None));
          exhausted = (attempts ih3 = 0)
      in (ih3, replacement, exhausted, dispatched ih3))"

text \<open>The three kinds of result an attempt can offer.\<close>

definition success_result :: "wire_worker \<Rightarrow> inference_response \<Rightarrow> attempt_result" where
  "success_result target resp =
     \<lparr>ar_resp = Some resp, ar_err = None, ar_workerID = wi_WorkerId target\<rparr>"

definition error_result :: "wire_worker \<Rightarrow> go_error \<Rightarrow> attempt_result" where
  "error_result target err =
     \<lparr>ar_resp = None, ar_err = Some err, ar_workerID = wi_WorkerId target\<rparr>"

definition exhausted_error :: "int \<Rightarrow> go_error \<Rightarrow> go_error" where
  "exhausted_error n err =
     GoError Unavailable ''exhausted %d attempts, last error: %v'' [ArgInt n, ArgErr err]"

text \<open>What \<^verbatim>\<open>Generate\<close> returns for a result it received.\<close>

definition outcome_of :: "attempt_result \<Rightarrow> go_error + inference_response option" where
  "outcome_of r = (case ar_err r of Some e \<Rightarrow> Inl e | None \<Rightarrow> Inr (ar_resp r))"

definition missing_id_error :: go_error where
  "missing_id_error = GoError InvalidArgument ''request_id is required'' []"

lemma result_sel [simp]:
  "ar_resp (success_result w resp) = Some resp" "ar_err (success_result w resp) = None"
  "ar_workerID (success_result w resp) = wi_WorkerId w"
  "ar_resp (error_result w e) = None" "ar_err (error_result w e) = Some e"
  "ar_workerID (error_result w e) = wi_WorkerId w"
  "outcome_of (success_result w resp) = Inr (Some resp)" "outcome_of (error_result w e) = Inl e"
  by (simp_all add: success_result_def error_result_def outcome_of_def)

section \<open>The critical section of a failed attempt\<close>

lemma locked_frame:
  assumes "attempt_failed_locked wid cands draw ih = (ih', repl, ex, d)"
  shows "ih_req ih' = ih_req ih" "claimed ih' = claimed ih" "ih_result ih' = ih_result ih"
    "tried ih' = insert wid (tried ih)" "ex \<longleftrightarrow> attempts ih' = 0" "d = dispatched ih'"
  using assms by (auto simp: attempt_failed_locked_def Let_def split: if_splits)

lemma locked_replaced:
  assumes "attempt_failed_locked wid cands draw ih = (ih', Some w, ex, d)"
  shows "dispatched ih < maxAttempts" "attempts ih' = attempts ih" "dispatched ih' = dispatched ih + 1"
    "assigned ih' = wi_WorkerId w" "w \<in> set cands" "wi_WorkerId w \<notin> insert wid (tried ih)"
proof -
  let ?el = "filter (\<lambda>c. wi_WorkerId c \<notin> insert wid (tried ih)) cands"
  have "?el \<noteq> [] \<and> w = pick_random draw ?el"
    using assms by (auto simp: attempt_failed_locked_def Let_def split: if_splits)
  then have "w \<in> set ?el" by blast
  then show "w \<in> set cands" "wi_WorkerId w \<notin> insert wid (tried ih)" by auto
qed (use assms in \<open>auto simp: attempt_failed_locked_def Let_def split: if_splits\<close>)

lemma locked_not_replaced:
  assumes "attempt_failed_locked wid cands draw ih = (ih', None, ex, d)"
  shows "attempts ih' = attempts ih - 1" "dispatched ih' = dispatched ih" "assigned ih' = assigned ih"
    "dispatched ih < maxAttempts \<Longrightarrow> \<forall>c \<in> set cands. wi_WorkerId c \<in> insert wid (tried ih)"
  using assms by (auto simp: attempt_failed_locked_def Let_def filter_empty_conv split: if_splits)

section \<open>The claims of a poll\<close>

text \<open>
  What a table entry becomes in phase 2, on its own; the loop does exactly this to every entry,
  because the pointers of a well-formed table are distinct.
\<close>

definition stranded :: "string set \<Rightarrow> inflight \<Rightarrow> bool" where
  "stranded departed ih \<longleftrightarrow> assigned ih \<in> departed \<and> dispatched ih < maxAttempts"

definition tracker_wf :: "request_tracker \<Rightarrow> bool" where
  "tracker_wf t \<longleftrightarrow> finite (dom (requests t)) \<and> inj_on (requests t) (dom (requests t))
     \<and> ran (requests t) \<subseteq> dom (heap t) \<and> (\<forall>p. p \<in> dom (heap t) \<longrightarrow> p < next_ptr t)
     \<and> (\<forall>i p ih. requests t i = Some p \<longrightarrow> heap t p = Some ih \<longrightarrow> req_RequestId (ih_req ih) = i)"

lemma tracker_wf_new [simp]: "tracker_wf NewRequestTracker"
  by (simp add: tracker_wf_def NewRequestTracker_def)

lemma tracker_wfD:
  assumes "tracker_wf t"
  shows "requests t i = Some p \<Longrightarrow> \<exists>ih. heap t p = Some ih \<and> req_RequestId (ih_req ih) = i"
    and "requests t i = Some p \<Longrightarrow> requests t j = Some p \<Longrightarrow> i = j"
    and "heap t p = Some ih \<Longrightarrow> p < next_ptr t"
  using assms unfolding tracker_wf_def by (fastforce simp: ran_def dom_def inj_on_def)+

lemma reroute_inflight_sel [simp]:
  "ih_req (reroute_inflight w ih) = ih_req ih" "assigned (reroute_inflight w ih) = wi_WorkerId w"
  "attempts (reroute_inflight w ih) = attempts ih + 1"
  "dispatched (reroute_inflight w ih) = dispatched ih + 1" "tried (reroute_inflight w ih) = tried ih"
  "claimed (reroute_inflight w ih) = claimed ih" "ih_result (reroute_inflight w ih) = ih_result ih"
  by (simp_all add: reroute_inflight_def)

lemma tracker_wf_update:
  assumes "tracker_wf t" and "heap t p = Some ih" and "ih_req ih' = ih_req ih"
  shows "tracker_wf (t\<lparr>heap := (heap t)(p \<mapsto> ih')\<rparr>)"
proof -
  have "dom ((heap t)(p \<mapsto> ih')) = dom (heap t)" using assms(2) by auto
  moreover have "req_RequestId (ih_req ih'') = i"
    if "requests t i = Some q" "((heap t)(p \<mapsto> ih')) q = Some ih''" for i q ih''
    using that assms by (cases "q = p") (auto simp: tracker_wf_def)
  ultimately show ?thesis using assms(1) by (simp add: tracker_wf_def)
qed

lemma reroute_entry_eq:
  assumes "requests t reqID = Some p" and "heap t p = Some ih"
  shows "reroute_entry departed healthy draws reqID (t, jobs, over) =
     (if stranded departed ih
      then (t\<lparr>heap := (heap t)(p \<mapsto> reroute_inflight (pick_random (draws reqID) healthy) ih)\<rparr>,
            jobs @ [\<lparr>j_reqID = reqID, j_ih = p, j_target = pick_random (draws reqID) healthy\<rparr>], over)
      else (t, jobs, if assigned ih \<in> departed then over @ [reqID] else over))"
  using assms by (auto simp: reroute_entry_def stranded_def Let_def)

lemma reroute_fold:
  assumes "distinct ks" and "set ks \<subseteq> dom (requests t)" and "tracker_wf t"
    and "fold (reroute_entry departed healthy draws) ks (t, jobs, over) = (t', jobs', over')"
  shows "requests t' = requests t \<and> next_ptr t' = next_ptr t
     \<and> (\<exists>new. jobs' = jobs @ new \<and> map j_reqID new = filter (\<lambda>i. \<exists>p ih. requests t i = Some p
            \<and> heap t p = Some ih \<and> stranded departed ih) ks
          \<and> (\<forall>j \<in> set new. requests t (j_reqID j) = Some (j_ih j)
               \<and> j_target j = pick_random (draws (j_reqID j)) healthy))
     \<and> heap t' = (\<lambda>p. case heap t p of None \<Rightarrow> None | Some ih \<Rightarrow>
          Some (if (\<exists>i \<in> set ks. requests t i = Some p) \<and> stranded departed ih
                then reroute_inflight (pick_random (draws (req_RequestId (ih_req ih))) healthy) ih else ih))"
  using assms
proof (induction ks arbitrary: t jobs over)
  case Nil
  then show ?case by (auto simp: fun_eq_iff split: option.splits)
next
  case (Cons k ks)
  obtain p ih where p: "requests t k = Some p" "heap t p = Some ih" "req_RequestId (ih_req ih) = k"
    using Cons.prems(2) tracker_wfD(1) [OF Cons.prems(3)] by fastforce
  let ?tgt = "pick_random (draws k) healthy"
  define t1 where "t1 = (if stranded departed ih
      then t\<lparr>heap := (heap t)(p \<mapsto> reroute_inflight ?tgt ih)\<rparr> else t)"
  define new1 where "new1 = (if stranded departed ih
      then [\<lparr>j_reqID = k, j_ih = p, j_target = ?tgt\<rparr>] else [])"
  define over1 where "over1 = (if stranded departed ih \<or> assigned ih \<notin> departed then over
      else over @ [k])"
  have "reroute_entry departed healthy draws k (t, jobs, over) = (t1, jobs @ new1, over1)"
    by (auto simp: reroute_entry_eq [OF p(1,2)] t1_def new1_def over1_def stranded_def)
  with Cons.prems(4) have rest:
      "fold (reroute_entry departed healthy draws) ks (t1, jobs @ new1, over1) = (t', jobs', over')"
    by simp
  have req1: "requests t1 = requests t" "next_ptr t1 = next_ptr t" by (auto simp: t1_def)
  have heap1: "heap t1 q = heap t q" if "q \<noteq> p" for q using that by (auto simp: t1_def)
  have wf1: "tracker_wf t1"
    using Cons.prems(3) p(2) by (auto simp: t1_def intro!: tracker_wf_update)
  have other: "requests t i = Some q \<Longrightarrow> q \<noteq> p" if "i \<in> set ks" for i q
    using tracker_wfD(2) [OF Cons.prems(3), of i p k] p(1) Cons.prems(1) that by auto
  have same: "(\<exists>q ih. requests t1 i = Some q \<and> heap t1 q = Some ih \<and> stranded departed ih)
      \<longleftrightarrow> (\<exists>q ih. requests t i = Some q \<and> heap t q = Some ih \<and> stranded departed ih)"
      if "i \<in> set ks" for i
    using other [OF that] heap1 req1 by metis
  have "distinct ks" "set ks \<subseteq> dom (requests t1)" using Cons.prems(1,2) req1 by auto
  from Cons.IH [OF this wf1 rest] obtain new where new: "jobs' = (jobs @ new1) @ new"
      "map j_reqID new = filter (\<lambda>i. \<exists>p ih. requests t1 i = Some p
            \<and> heap t1 p = Some ih \<and> stranded departed ih) ks"
      "\<forall>j \<in> set new. requests t1 (j_reqID j) = Some (j_ih j)
               \<and> j_target j = pick_random (draws (j_reqID j)) healthy"
    and IH: "requests t' = requests t1" "next_ptr t' = next_ptr t1"
      "heap t' = (\<lambda>p. case heap t1 p of None \<Rightarrow> None | Some ih \<Rightarrow>
          Some (if (\<exists>i \<in> set ks. requests t1 i = Some p) \<and> stranded departed ih
                then reroute_inflight (pick_random (draws (req_RequestId (ih_req ih))) healthy) ih else ih))"
    by auto
  have ids: "map j_reqID (new1 @ new) = filter (\<lambda>i. \<exists>p ih. requests t i = Some p
            \<and> heap t p = Some ih \<and> stranded departed ih) (k # ks)"
    using new(2) p(1,2) same by (auto simp: new1_def cong: filter_cong)
  have jobs: "\<forall>j \<in> set (new1 @ new). requests t (j_reqID j) = Some (j_ih j)
               \<and> j_target j = pick_random (draws (j_reqID j)) healthy"
    using new(3) p(1) req1 by (auto simp: new1_def)
  have heap': "heap t' q = (case heap t q of None \<Rightarrow> None | Some ih \<Rightarrow>
          Some (if (\<exists>i \<in> set (k # ks). requests t i = Some q) \<and> stranded departed ih
                then reroute_inflight (pick_random (draws (req_RequestId (ih_req ih))) healthy) ih else ih))" for q
  proof (cases "q = p")
    case True
    then show ?thesis using p other by (auto simp: IH(3) req1 t1_def)
  next
    case False
    then show ?thesis using p(1) by (auto simp: IH(3) req1 heap1 split: option.splits)
  qed
  have "jobs' = jobs @ (new1 @ new)" using new(1) by simp
  then show ?case using IH(1,2) req1 ids jobs heap' by (intro conjI exI [of _ "new1 @ new"] ext) simp_all
qed

lemma reroute_claim_spec:
  assumes "tracker_wf t" and "iterates (requests t) ks"
    and "reroute_claim departed healthy draws ks t = (t', jobs, over)"
  shows "requests t' = requests t" "next_ptr t' = next_ptr t"
    and "map j_reqID jobs = filter (\<lambda>i. \<exists>p ih. requests t i = Some p
            \<and> heap t p = Some ih \<and> stranded departed ih) ks"
    and "\<forall>j \<in> set jobs. requests t (j_reqID j) = Some (j_ih j)
               \<and> j_target j = pick_random (draws (j_reqID j)) healthy"
    and "heap t' = (\<lambda>p. case heap t p of None \<Rightarrow> None | Some ih \<Rightarrow>
          Some (if p \<in> ran (requests t) \<and> stranded departed ih
                then reroute_inflight (pick_random (draws (req_RequestId (ih_req ih))) healthy) ih else ih))"
proof -
  have ks: "distinct ks" "set ks = dom (requests t)" using assms(2) by (auto simp: iterates_def)
  have ran: "(\<exists>i \<in> set ks. requests t i = Some p) \<longleftrightarrow> p \<in> ran (requests t)" for p
    using ks(2) by (auto simp: ran_def dom_def)
  have sub: "set ks \<subseteq> dom (requests t)" using ks(2) by simp
  note main = reroute_fold [OF ks(1) sub assms(1) assms(3) [unfolded reroute_claim_def], unfolded ran]
  from main show "requests t' = requests t" "next_ptr t' = next_ptr t"
    "map j_reqID jobs = filter (\<lambda>i. \<exists>p ih. requests t i = Some p
            \<and> heap t p = Some ih \<and> stranded departed ih) ks"
    "\<forall>j \<in> set jobs. requests t (j_reqID j) = Some (j_ih j)
               \<and> j_target j = pick_random (draws (j_reqID j)) healthy"
    by auto
  from main show "heap t' = (\<lambda>p. case heap t p of None \<Rightarrow> None | Some ih \<Rightarrow>
          Some (if p \<in> ran (requests t) \<and> stranded departed ih
                then reroute_inflight (pick_random (draws (req_RequestId (ih_req ih))) healthy) ih else ih))"
    by blast
qed

lemma tracker_wf_reroute:
  assumes "tracker_wf t" and "requests t' = requests t" and "next_ptr t' = next_ptr t"
    and "heap t' = (\<lambda>p. case heap t p of None \<Rightarrow> None | Some ih \<Rightarrow> Some (f p ih))"
    and "\<And>p ih. ih_req (f p ih) = ih_req ih"
  shows "tracker_wf t'"
proof -
  have d: "dom (heap t') = dom (heap t)" unfolding assms(4) by (auto split: option.splits)
  have "req_RequestId (ih_req ih) = i" if "requests t i = Some p" "heap t' p = Some ih" for i p ih
    using that tracker_wfD(1) [OF assms(1) that(1)] assms(5) by (auto simp: assms(4))
  then show ?thesis using assms(1) d by (simp add: tracker_wf_def assms(2,3))
qed

lemma reroute_claim_wf:
  assumes "tracker_wf t" and "iterates (requests t) ks"
    and "reroute_claim departed healthy draws ks t = (t', jobs, over)"
  shows "tracker_wf t'"
  by (rule tracker_wf_reroute [OF assms(1) reroute_claim_spec(1,2,5) [OF assms]]) simp

text \<open>After the claims nothing is stranded on those workers, unless its budget is spent.\<close>

lemma reroute_claim_settles:
  assumes "tracker_wf t" and "iterates (requests t) ks" and "healthy \<noteq> []"
    and "\<forall>w \<in> set healthy. wi_WorkerId w \<notin> departed"
    and "reroute_claim departed healthy draws ks t = (t', jobs, over)"
    and "requests t' i = Some p" and "heap t' p = Some ih"
  shows "\<not> stranded departed ih"
proof -
  note sp = reroute_claim_spec [OF assms(1,2,5)]
  have p: "p \<in> ran (requests t)" using assms(6) sp(1) by (auto simp: ran_def)
  obtain ih0 where "heap t p = Some ih0"
      "ih = (if stranded departed ih0
         then reroute_inflight (pick_random (draws (req_RequestId (ih_req ih0))) healthy) ih0 else ih0)"
    using assms(7) p unfolding sp(5) by (auto split: option.splits)
  moreover have "wi_WorkerId (pick_random d healthy) \<notin> departed" for d
    using assms(3,4) by blast
  ultimately show ?thesis by (auto simp: stranded_def)
qed

lemma fold_connFor_keeps:
  "conns addr = Some c \<Longrightarrow> fold (\<lambda>(nc, a) m. snd (connFor nc a m)) others conns addr = Some c"
proof (induction others arbitrary: conns)
  case Nil
  then show ?case by simp
next
  case (Cons x others)
  obtain nc a where x: "x = (nc, a)" by (cases x)
  have "snd (connFor nc a conns) addr = Some c"
    using Cons.prems by (auto simp: connFor_def split: option.splits sum.splits)
  then show ?case using Cons.IH [of "snd (connFor nc a conns)"] by (simp add: x)
qed

lemma fold_delete: "fold (\<lambda>a m. m(a := None)) ks m = (\<lambda>a. if a \<in> set ks then None else m a)"
  by (induction ks arbitrary: m) auto

definition ex_wire :: "string \<Rightarrow> wire_worker" where
  "ex_wire i = \<lparr>wi_WorkerId = i, wi_Address = i\<rparr>"

lemma ex_wire_id [simp]: "wi_WorkerId (ex_wire i) = i"
  by (simp add: ex_wire_def)

text \<open>A table with one request, on \<open>w1\<close>, whose first attempt on \<open>w0\<close> failed.\<close>

definition ex_tracker :: request_tracker where
  "ex_tracker = \<lparr>requests = [''r1'' \<mapsto> 0],
     heap = [0 \<mapsto> \<lparr>ih_req = ex_request, assigned = ''w1'', attempts = 1, dispatched = 2, tried = {''w0''},
       claimed = False, ih_result = []\<rparr>], next_ptr = 1\<rparr>"

lemma ex_tracker_wf: "tracker_wf ex_tracker" "iterates (requests ex_tracker) [''r1'']"
  by (auto simp: tracker_wf_def ex_tracker_def iterates_def split: if_splits)

lemma pollOnce_ok:
  assumes "tracker_wf t" and "iterates (requests t) ks" and "lw_Workers lw \<noteq> []"
    and "pollOnce (Inr lw) draws ks view t = (view', t', jobs)"
  shows "view' = lw_Workers lw \<and> requests t' = requests t \<and> tracker_wf t'
     \<and> map j_reqID jobs = filter (\<lambda>i. \<exists>p ih. requests t i = Some p \<and> heap t p = Some ih
          \<and> stranded (departedIDs view (lw_Workers lw)) ih) ks
     \<and> (\<forall>j \<in> set jobs. requests t (j_reqID j) = Some (j_ih j) \<and> j_target j \<in> set (lw_Workers lw)
          \<and> j_target j = pick_random (draws (j_reqID j)) (lw_Workers lw))
     \<and> heap t' = (\<lambda>p. case heap t p of None \<Rightarrow> None | Some ih \<Rightarrow>
          Some (if p \<in> ran (requests t) \<and> stranded (departedIDs view (lw_Workers lw)) ih
                then reroute_inflight (pick_random (draws (req_RequestId (ih_req ih))) (lw_Workers lw)) ih
                else ih))"
proof (cases "departedIDs view (lw_Workers lw) = {}")
  case True
  then have st: "\<not> stranded (departedIDs view (lw_Workers lw)) ih" for ih by (simp add: stranded_def)
  have eqs: "view' = lw_Workers lw" "t' = t" "jobs = []" using assms(4) True by (simp_all add: pollOnce_def)
  have "filter (\<lambda>i. \<exists>p ih. requests t i = Some p \<and> heap t p = Some ih
      \<and> stranded (departedIDs view (lw_Workers lw)) ih) ks = []"
    using st by (simp add: filter_empty_conv)
  moreover have "heap t = (\<lambda>p. case heap t p of None \<Rightarrow> None | Some ih \<Rightarrow> Some (if p \<in> ran (requests t)
      \<and> stranded (departedIDs view (lw_Workers lw)) ih then f ih else ih))" for f
    using st by (auto simp: fun_eq_iff split: option.split)
  ultimately show ?thesis using assms(1) unfolding eqs by simp
next
  case False
  let ?d = "departedIDs view (lw_Workers lw)"
  have h: "healthyExcept ?d (lw_Workers lw) = lw_Workers lw"
    by (auto simp: healthyExcept_def departedIDs_eq intro: filter_True)
  obtain t2 jobs2 over where c2: "reroute_claim ?d (lw_Workers lw) draws ks t = (t2, jobs2, over)"
    by (metis prod_cases3)
  then have "pollOnce (Inr lw) draws ks view t = (lw_Workers lw, t2, jobs2)"
    using assms(3) False by (simp add: pollOnce_def rerouteFrom_def Let_def h)
  with assms(4) c2 have c: "reroute_claim ?d (lw_Workers lw) draws ks t = (t', jobs, over)"
      and v: "view' = lw_Workers lw" by simp_all
  note sp = reroute_claim_spec [OF assms(1,2) c]
  have "\<forall>j \<in> set jobs. requests t (j_reqID j) = Some (j_ih j) \<and> j_target j \<in> set (lw_Workers lw)
          \<and> j_target j = pick_random (draws (j_reqID j)) (lw_Workers lw)"
    using sp(4) pick_random_in [OF assms(3)] by metis
  then show ?thesis by (intro conjI v sp(1,3,5) reroute_claim_wf [OF assms(1,2) c])
qed

section \<open>Properties\<close>

text \<open>
  What a successful poll does. The view becomes the answer. Exactly the requests in flight that
  are assigned to a worker that left and have budget are claimed: each gets one job, aimed at a
  worker of the new view, its record is reassigned to that worker with one more attempt and one
  more dispatch, and every other record and the table stay as they are.
\<close>

lemma poll_rescues_the_stranded:
  assumes "tracker_wf t" and "iterates (requests t) ks" and "lw_Workers lw \<noteq> []"
    and "pollOnce (Inr lw) draws ks view t = (view', t', jobs)"
  shows "view' = lw_Workers lw \<and> requests t' = requests t \<and> tracker_wf t'
     \<and> map j_reqID jobs = filter (\<lambda>i. \<exists>p ih. requests t i = Some p \<and> heap t p = Some ih
          \<and> stranded (departedIDs view (lw_Workers lw)) ih) ks
     \<and> (\<forall>j \<in> set jobs. requests t (j_reqID j) = Some (j_ih j) \<and> j_target j \<in> set (lw_Workers lw)
          \<and> j_target j = pick_random (draws (j_reqID j)) (lw_Workers lw))
     \<and> heap t' = (\<lambda>p. case heap t p of None \<Rightarrow> None | Some ih \<Rightarrow>
          Some (if p \<in> ran (requests t) \<and> stranded (departedIDs view (lw_Workers lw)) ih
                then reroute_inflight (pick_random (draws (req_RequestId (ih_req ih))) (lw_Workers lw)) ih
                else ih))"
  using assms by (rule pollOnce_ok)

lemma poll_rescues_the_stranded_witness:
  "\<exists>t' j. pollOnce (Inr \<lparr>lw_Workers = [ex_wire ''w2'']\<rparr>) (\<lambda>_. 0) [''r1''] [ex_wire ''w1'', ex_wire ''w2''] ex_tracker
     = ([ex_wire ''w2''], t', [j]) \<and> j_reqID j = ''r1'' \<and> j_target j = ex_wire ''w2''"
proof -
  obtain v t' jobs where p: "pollOnce (Inr \<lparr>lw_Workers = [ex_wire ''w2'']\<rparr>) (\<lambda>_. 0) [''r1'']
      [ex_wire ''w1'', ex_wire ''w2''] ex_tracker = (v, t', jobs)" by (metis prod_cases3)
  have ne: "lw_Workers \<lparr>lw_Workers = [ex_wire ''w2'']\<rparr> \<noteq> []" by simp
  note P = poll_rescues_the_stranded [OF ex_tracker_wf ne p]
  from P have "v = [ex_wire ''w2'']" by simp
  moreover from P have "map j_reqID jobs = [''r1'']"
    by (simp add: ex_tracker_def stranded_def departedIDs_eq maxAttempts_def)
  moreover from P have "\<forall>j \<in> set jobs. j_target j = ex_wire ''w2''" by simp
  ultimately show ?thesis using p by (auto simp: map_eq_Cons_conv)
qed

text \<open>
  The claim is exclusive: once \<^verbatim>\<open>rerouteFrom\<close> has claimed the requests stranded on some workers, a
  second reroute for the same workers, whatever view and whatever order of the table it sees,
  launches nothing and changes nothing.
\<close>

lemma reroute_claim_is_exclusive:
  assumes "tracker_wf t" and "iterates (requests t) ks" and "iterates (requests t) ks'"
    and "healthyExcept departed view \<noteq> []"
    and "rerouteFrom departed draws ks view t = (t', jobs)"
  shows "rerouteFrom departed draws' ks' view' t' = (t', [])"
proof -
  let ?h = "healthyExcept departed view" and ?h' = "healthyExcept departed view'"
  obtain over where c: "reroute_claim departed ?h draws ks t = (t', jobs, over)"
    using assms(4,5) by (auto simp: rerouteFrom_def Let_def split: prod.splits)
  note sp = reroute_claim_spec [OF assms(1,2) c]
  have wf: "tracker_wf t'" by (rule reroute_claim_wf [OF assms(1,2) c])
  have it: "iterates (requests t') ks'" using assms(3) sp(1) by simp
  have nst: "\<not> stranded departed ih" if "requests t' i = Some p" "heap t' p = Some ih" for i p ih
    using reroute_claim_settles [OF assms(1,2,4) _ c that] by (auto simp: set_healthyExcept)
  obtain t2 jobs2 over2 where c2: "reroute_claim departed ?h' draws' ks' t' = (t2, jobs2, over2)"
    by (metis prod_cases3)
  note sp2 = reroute_claim_spec [OF wf it c2]
  have "filter (\<lambda>i. \<exists>p ih. requests t' i = Some p \<and> heap t' p = Some ih \<and> stranded departed ih) ks' = []"
    using nst by (auto simp: filter_empty_conv)
  with sp2(3) have "jobs2 = []" by (metis Nil_is_map_conv)
  moreover have "heap t2 = heap t'"
    using nst unfolding sp2(5) by (fastforce simp: ran_def split: option.splits)
  then have "t2 = t'" using sp2(1,2) by (cases t2; cases t') auto
  ultimately show ?thesis using c2 by (auto simp: rerouteFrom_def Let_def)
qed

lemma reroute_claim_is_exclusive_witness:
  "case rerouteFrom {''w1''} (\<lambda>_. 0) [''r1''] [ex_wire ''w2''] ex_tracker of
     (t', jobs) \<Rightarrow> rerouteFrom {''w1''} (\<lambda>_. 5) [''r1''] [ex_wire ''w3''] t' = (t', [])"
  using reroute_claim_is_exclusive [OF ex_tracker_wf ex_tracker_wf(2), of "{''w1''}" "[ex_wire ''w2'']" "\<lambda>_. 0"]
  by (auto simp: healthyExcept_def split: prod.split)

text \<open>
  What the critical section of \<^verbatim>\<open>attemptFailed\<close> decides. The failed worker joins \<^verbatim>\<open>tried\<close>. A replacement is one
  of the candidates, never a worker that failed this request before, it takes over the assignment,
  keeps the gauge of attempts and spends one dispatch of the budget. No replacement means the
  budget is spent or every candidate has failed, and then one attempt less is in the air.
\<close>

lemma fast_path_claim:
  "case attempt_failed_locked wid candidates draw ih of (ih', replacement, exhausted, dispatches) \<Rightarrow>
     tried ih' = insert wid (tried ih) \<and> dispatches = dispatched ih' \<and> exhausted = (attempts ih' = 0)
     \<and> claimed ih' = claimed ih \<and> ih_result ih' = ih_result ih \<and> ih_req ih' = ih_req ih
     \<and> (case replacement of
          Some w \<Rightarrow> w \<in> set candidates \<and> wi_WorkerId w \<notin> tried ih' \<and> assigned ih' = wi_WorkerId w
            \<and> attempts ih' = attempts ih \<and> dispatched ih' = dispatched ih + 1 \<and> dispatched ih' \<le> maxAttempts
        | None \<Rightarrow> (maxAttempts \<le> dispatched ih \<or> wi_WorkerId ` set candidates \<subseteq> tried ih')
            \<and> assigned ih' = assigned ih \<and> attempts ih' = attempts ih - 1 \<and> dispatched ih' = dispatched ih)"
proof -
  obtain ih' repl ex d where L: "attempt_failed_locked wid candidates draw ih = (ih', repl, ex, d)"
    by (metis prod_cases4)
  show ?thesis
  proof (cases repl)
    case None
    note np = locked_not_replaced [OF L [unfolded None]]
    have "maxAttempts \<le> dispatched ih \<or> wi_WorkerId ` set candidates \<subseteq> tried ih'"
      using np(4) locked_frame(4) [OF L] by (metis image_subsetI linorder_not_le)
    then show ?thesis by (simp add: L None locked_frame [OF L] np(1-3))
  next
    case (Some w)
    show ?thesis using locked_frame [OF L] locked_replaced [OF L [unfolded Some]] L Some by auto
  qed
qed

text \<open>
  The slow path does not consult \<^verbatim>\<open>tried\<close>: a poll can send a request back to a worker on which
  it has provably failed, although the fast path would have refused that worker.
\<close>

lemma reroute_may_repeat_a_failed_worker:
  "\<exists>t' j ih. rerouteFrom {''w1''} (\<lambda>_. 0) [''r1''] [ex_wire ''w0''] ex_tracker = (t', [j])
     \<and> heap t' (j_ih j) = Some ih \<and> wi_WorkerId (j_target j) \<in> tried ih
     \<and> attempt_failed_locked ''w1'' [ex_wire ''w0''] 0 (the (heap ex_tracker 0))
         = ((the (heap ex_tracker 0))\<lparr>attempts := 0, tried := {''w1'', ''w0''}\<rparr>, None, True, 2)"
  by (simp add: rerouteFrom_def healthyExcept_def reroute_claim_def reroute_entry_def ex_tracker_def
      maxAttempts_def reroute_inflight_def attempt_failed_locked_def Let_def)

text \<open>
  Connections are cached: once a dial of an address has succeeded, every later use of the address
  gets that same connection and dials nothing, whatever other addresses were used in between.
\<close>

lemma connection_reused:
  assumes "connFor newClient addr conns = (Inr c, conns1)"
  shows "connFor newClient' addr (fold (\<lambda>(nc, a) m. snd (connFor nc a m)) others conns1)
     = (Inr c, fold (\<lambda>(nc, a) m. snd (connFor nc a m)) others conns1)"
proof -
  have "conns1 addr = Some c" using assms by (auto simp: connFor_def split: option.splits sum.splits)
  then show ?thesis using fold_connFor_keeps [of conns1 addr c others] by (simp add: connFor_def)
qed

text \<open>
  \<^verbatim>\<open>Close\<close> closes every cached connection, as often as it is cached, and leaves the cache empty.
\<close>

lemma close_drops_everything:
  assumes "iterates conns ks"
  shows "snd (Close_conns ks conns) = Map.empty \<and> set (fst (Close_conns ks conns)) = ran conns
     \<and> length (fst (Close_conns ks conns)) = card (dom conns)"
proof -
  have ks: "distinct ks" "set ks = dom conns" using assms by (auto simp: iterates_def)
  have "fold (\<lambda>a m. m(a := None)) ks conns = Map.empty"
    unfolding fold_delete using ks(2) by (auto simp: fun_eq_iff)
  then show ?thesis
    using set_range_values_iterates [OF assms] length_range_values [of ks conns] ks
      distinct_card [OF ks(1)] by (simp add: Close_conns_def)
qed

end
