(* ===== verification/Gateway_System.thy ===== *)
theory Gateway_System
  imports Gateway
begin

text \<open>
  The running gateway (\<^verbatim>\<open>internal/gateway/gateway.go\<close>): any number of handlers, attempts and the
  poll loop, interleaved. A step is what one goroutine does between two points where others can
  intervene: a critical section under one lock, one operation on the latch or the channel, or the
  sending or return of one RPC.

  The program points are named after what has just happened. \<open>attempt_step\<close> is one step of
  \<^verbatim>\<open>attempt\<close>/\<^verbatim>\<open>attemptFailed\<close>/\<^verbatim>\<open>settle\<close> on the request's record, \<open>gs_step\<close> a step of the gateway. What the
  workers answer, when, and whether, is left open; so are arrivals, cancellations and polls.
\<close>

section \<open>Program points\<close>

datatype attempt_pc =
    AStart wire_worker
  | AAir wire_worker
  | AFailed wire_worker go_error
  | ARetry wire_worker go_error
  | ACands wire_worker go_error "wire_worker list"
  | AExhaust attempt_result
  | ASettle attempt_result
  | ASend attempt_result
  | ADone

record attempt_goroutine =
  ga_ih :: ptr
  ga_pc :: attempt_pc

type_synonym outcome = "go_error + inference_response option"

datatype handler_pc =
    HStart
  | HPicked wire_worker
  | HRegistered ptr wire_worker
  | HWaiting ptr
  | HReturning ptr outcome
  | HDone outcome

record handler_goroutine =
  gh_req :: inference_request
  gh_pc :: handler_pc

datatype poll_pc =
    PIdle
  | PFetched "wire_worker list"
  | PDeparted "string set"
  | PCandidates "string set" "wire_worker list"
  | PFiring "job list"

record gateway_system =
  gs_view :: "wire_worker list"
  gs_tracker :: request_tracker
  gs_handlers :: "handler_goroutine list"
  gs_attempts :: "attempt_goroutine list"
  gs_poll :: poll_pc

text \<open>
  What a step does: an attempt calls a worker, gets its reply, wins or loses the race or does other
  work for its record; a handler returns to its client; anything else.
\<close>

datatype gs_label =
    LCall ptr wire_worker inference_request
  | LReply ptr wire_worker "go_error + inference_response"
  | LWin ptr attempt_result
  | LLose ptr attempt_result
  | LWork ptr
  | LReturn inference_request outcome
  | LTau

section \<open>Steps of an attempt\<close>

inductive attempt_step ::
  "wire_worker list \<Rightarrow> ptr \<Rightarrow> inflight \<Rightarrow> attempt_pc \<Rightarrow> gs_label \<Rightarrow> inflight \<Rightarrow> attempt_pc \<Rightarrow> bool"
  for view :: "wire_worker list" and p :: ptr and ih :: inflight where
  as_call: "attempt_step view p ih (AStart w) (LCall p w (ih_req ih)) ih (AAir w)"
| as_success: "attempt_step view p ih (AAir w) (LReply p w (Inr resp)) ih (ASettle (success_result w resp))"
| as_error: "attempt_step view p ih (AAir w) (LReply p w (Inl err)) ih (AFailed w err)"
| as_late: "claimed ih \<Longrightarrow> attempt_step view p ih (AFailed w err) (LWork p) ih ADone"
| as_terminal: "\<not> claimed ih \<Longrightarrow> \<not> retryable err \<Longrightarrow>
    attempt_step view p ih (AFailed w err) (LWork p) ih (ASettle (error_result w err))"
| as_retry: "\<not> claimed ih \<Longrightarrow> retryable err \<Longrightarrow>
    attempt_step view p ih (AFailed w err) (LWork p) ih (ARetry w err)"
| as_snapshot: "attempt_step view p ih (ARetry w err) (LWork p) ih
    (ACands w err (healthyExcept {wi_WorkerId w} view))"
| as_replace: "attempt_failed_locked (wi_WorkerId w) candidates draw ih = (ih', Some replacement, ex, d) \<Longrightarrow>
    attempt_step view p ih (ACands w err candidates) (LWork p) ih' (AStart replacement)"
| as_exhaust: "attempt_failed_locked (wi_WorkerId w) candidates draw ih = (ih', None, True, d) \<Longrightarrow>
    attempt_step view p ih (ACands w err candidates) (LWork p) ih' (AExhaust (error_result w (exhausted_error d err)))"
| as_over: "attempt_failed_locked (wi_WorkerId w) candidates draw ih = (ih', None, False, d) \<Longrightarrow>
    attempt_step view p ih (ACands w err candidates) (LWork p) ih' ADone"
| as_win: "pc = ASettle r \<or> pc = AExhaust r \<Longrightarrow> cas_claim ih = (True, ih') \<Longrightarrow>
    attempt_step view p ih pc (LWin p r) ih' (ASend r)"
| as_lose: "pc = ASettle r \<or> pc = AExhaust r \<Longrightarrow> cas_claim ih = (False, ih') \<Longrightarrow>
    attempt_step view p ih pc (LLose p r) ih' ADone"
| as_send: "chan_send 1 r (ih_result ih) = Some buf \<Longrightarrow>
    attempt_step view p ih (ASend r) (LWork p) (ih\<lparr>ih_result := buf\<rparr>) ADone"

inductive_cases attempt_stepE: "attempt_step view p ih pc l ih' pc'"
inductive_cases as_startE: "attempt_step view p ih (AStart w) l ih' pc'"
inductive_simps attempt_step_done [simp]: "attempt_step view p ih ADone l ih' pc'"

section \<open>Steps of the gateway\<close>

definition set_handler :: "nat \<Rightarrow> handler_pc \<Rightarrow> gateway_system \<Rightarrow> gateway_system" where
  "set_handler i pc s =
     s\<lparr>gs_handlers := (gs_handlers s)[i := \<lparr>gh_req = gh_req (gs_handlers s ! i), gh_pc = pc\<rparr>]\<rparr>"

definition handler_at :: "nat \<Rightarrow> handler_pc \<Rightarrow> gateway_system \<Rightarrow> bool" where
  "handler_at i pc s \<longleftrightarrow> i < length (gs_handlers s) \<and> gh_pc (gs_handlers s ! i) = pc"

abbreviation handler_req :: "nat \<Rightarrow> gateway_system \<Rightarrow> inference_request" where
  "handler_req i s \<equiv> gh_req (gs_handlers s ! i)"

definition launch :: "ptr \<Rightarrow> wire_worker \<Rightarrow> gateway_system \<Rightarrow> gateway_system" where
  "launch p w s = s\<lparr>gs_attempts := gs_attempts s @ [\<lparr>ga_ih = p, ga_pc = AStart w\<rparr>]\<rparr>"

definition set_record :: "ptr \<Rightarrow> inflight \<Rightarrow> gateway_system \<Rightarrow> gateway_system" where
  "set_record p ih s =
     s\<lparr>gs_tracker := (gs_tracker s)\<lparr>heap := (heap (gs_tracker s))(p \<mapsto> ih)\<rparr>\<rparr>"

definition set_attempt :: "nat \<Rightarrow> attempt_pc \<Rightarrow> gateway_system \<Rightarrow> gateway_system" where
  "set_attempt i pc s =
     s\<lparr>gs_attempts := (gs_attempts s)[i := \<lparr>ga_ih = ga_ih (gs_attempts s ! i), ga_pc = pc\<rparr>]\<rparr>"

inductive gs_step :: "gateway_system \<Rightarrow> gs_label \<Rightarrow> gateway_system \<Rightarrow> bool" for s :: gateway_system where
  gs_arrive: "gs_step s LTau (s\<lparr>gs_handlers := gs_handlers s @ [\<lparr>gh_req = req, gh_pc = HStart\<rparr>]\<rparr>)"
| gs_no_id: "handler_at i HStart s \<Longrightarrow> req_RequestId (handler_req i s) = '''' \<Longrightarrow>
    gs_step s (LReturn (handler_req i s) (Inl missing_id_error)) (set_handler i (HDone (Inl missing_id_error)) s)"
| gs_no_worker: "handler_at i HStart s \<Longrightarrow> req_RequestId (handler_req i s) \<noteq> '''' \<Longrightarrow>
    pickWorker draw (gs_view s) = Inl err \<Longrightarrow>
    gs_step s (LReturn (handler_req i s) (Inl err)) (set_handler i (HDone (Inl err)) s)"
| gs_pick: "handler_at i HStart s \<Longrightarrow> req_RequestId (handler_req i s) \<noteq> '''' \<Longrightarrow>
    pickWorker draw (gs_view s) = Inr w \<Longrightarrow>
    gs_step s LTau (set_handler i (HPicked w) s)"
| gs_duplicate: "handler_at i (HPicked w) s \<Longrightarrow>
    register (handler_req i s) (wi_WorkerId w) (gs_tracker s) = (Inl err, t') \<Longrightarrow>
    gs_step s (LReturn (handler_req i s) (Inl err)) (set_handler i (HDone (Inl err)) (s\<lparr>gs_tracker := t'\<rparr>))"
| gs_register: "handler_at i (HPicked w) s \<Longrightarrow>
    register (handler_req i s) (wi_WorkerId w) (gs_tracker s) = (Inr p, t') \<Longrightarrow>
    gs_step s LTau (set_handler i (HRegistered p w) (s\<lparr>gs_tracker := t'\<rparr>))"
| gs_launch: "handler_at i (HRegistered p w) s \<Longrightarrow>
    gs_step s LTau (launch p w (set_handler i (HWaiting p) s))"
| gs_receive: "handler_at i (HWaiting p) s \<Longrightarrow> heap (gs_tracker s) p = Some ih \<Longrightarrow>
    take_result ih = Some (r, ih') \<Longrightarrow>
    gs_step s LTau (set_record p ih' (set_handler i (HReturning p (outcome_of r)) s))"
| gs_give_up: "handler_at i (HWaiting p) s \<Longrightarrow>
    gs_step s LTau (set_handler i (HReturning p (Inl (from_context_error e))) s)"
| gs_return: "handler_at i (HReturning p out) s \<Longrightarrow>
    gs_step s (LReturn (handler_req i s) out)
      (set_handler i (HDone out) (s\<lparr>gs_tracker := unregister (req_RequestId (handler_req i s)) (gs_tracker s)\<rparr>))"
| gs_attempt: "i < length (gs_attempts s) \<Longrightarrow> gs_attempts s ! i = \<lparr>ga_ih = p, ga_pc = pc\<rparr> \<Longrightarrow>
    heap (gs_tracker s) p = Some ih \<Longrightarrow> attempt_step (gs_view s) p ih pc l ih' pc' \<Longrightarrow>
    gs_step s l (set_record p ih' (set_attempt i pc' s))"
| gs_poll_failed: "gs_poll s = PIdle \<Longrightarrow> gs_step s LTau s"
| gs_poll_fetch: "gs_poll s = PIdle \<Longrightarrow> gs_step s LTau (s\<lparr>gs_poll := PFetched (lw_Workers (resp :: list_workers_response))\<rparr>)"
| gs_poll_same: "gs_poll s = PFetched fresh \<Longrightarrow> departedIDs (gs_view s) fresh = {} \<Longrightarrow>
    gs_step s LTau (s\<lparr>gs_view := fresh, gs_poll := PIdle\<rparr>)"
| gs_poll_departed: "gs_poll s = PFetched fresh \<Longrightarrow> departedIDs (gs_view s) fresh \<noteq> {} \<Longrightarrow>
    gs_step s LTau (s\<lparr>gs_view := fresh, gs_poll := PDeparted (departedIDs (gs_view s) fresh)\<rparr>)"
| gs_poll_nobody: "gs_poll s = PDeparted departed \<Longrightarrow> healthyExcept departed (gs_view s) = [] \<Longrightarrow>
    gs_step s LTau (s\<lparr>gs_poll := PIdle\<rparr>)"
| gs_poll_snapshot: "gs_poll s = PDeparted departed \<Longrightarrow> healthyExcept departed (gs_view s) \<noteq> [] \<Longrightarrow>
    gs_step s LTau (s\<lparr>gs_poll := PCandidates departed (healthyExcept departed (gs_view s))\<rparr>)"
| gs_poll_claim: "gs_poll s = PCandidates departed healthy \<Longrightarrow> iterates (requests (gs_tracker s)) ks \<Longrightarrow>
    reroute_claim departed healthy draws ks (gs_tracker s) = (t', jobs, overBudget) \<Longrightarrow>
    gs_step s LTau (s\<lparr>gs_tracker := t', gs_poll := PFiring jobs\<rparr>)"
| gs_poll_fire: "gs_poll s = PFiring (j # js) \<Longrightarrow>
    gs_step s LTau (launch (j_ih j) (j_target j) (s\<lparr>gs_poll := PFiring js\<rparr>))"
| gs_poll_end: "gs_poll s = PFiring [] \<Longrightarrow> gs_step s LTau (s\<lparr>gs_poll := PIdle\<rparr>)"

inductive_cases gs_stepE: "gs_step s l t"

text \<open>\<^verbatim>\<open>New\<close>: nothing runs yet. The view starts empty and is filled by the first poll.\<close>

definition gateway_new :: gateway_system where
  "gateway_new = \<lparr>gs_view = [], gs_tracker = NewRequestTracker, gs_handlers = [], gs_attempts = [],
     gs_poll = PIdle\<rparr>"

definition gs_init :: "gateway_system \<Rightarrow> bool" where
  "gs_init s \<longleftrightarrow> s = gateway_new"

end
