(* ===== verification/Gateway_Invariant.thy ===== *)
theory Gateway_Invariant
  imports Gateway_System
begin

text \<open>
  The invariant of the running gateway: what the counters of a request's record say about the
  goroutines that work on it, what the latch says about results on their way, and which handler
  owns which record.
\<close>

section \<open>Counting goroutines\<close>

text \<open>
  An attempt is counted in the record's \<^verbatim>\<open>attempts\<close> until \<^verbatim>\<open>attemptFailed\<close> has taken it out, or the
  race is decided.
\<close>

fun counted :: "attempt_pc \<Rightarrow> bool" where
  "counted ADone = False"
| "counted (AExhaust r) = False"
| "counted (ASend r) = False"
| "counted pc = True"

fun exhausting :: "attempt_pc \<Rightarrow> bool" where
  "exhausting (AExhaust r) = True"
| "exhausting pc = False"

fun sending :: "attempt_pc \<Rightarrow> bool" where
  "sending (ASend r) = True"
| "sending pc = False"

fun uncalled :: "attempt_pc \<Rightarrow> bool" where
  "uncalled (AStart w) = True"
| "uncalled pc = False"

text \<open>Attempts already counted in the record whose goroutine does not exist yet.\<close>

fun jobs_of :: "poll_pc \<Rightarrow> job list" where
  "jobs_of (PFiring js) = js"
| "jobs_of pc = []"

fun launching :: "ptr \<Rightarrow> handler_pc \<Rightarrow> bool" where
  "launching p (HRegistered q w) = (q = p)"
| "launching p pc = False"

fun expecting :: "ptr \<Rightarrow> handler_pc \<Rightarrow> bool" where
  "expecting p (HRegistered q w) = (q = p)"
| "expecting p (HWaiting q) = (q = p)"
| "expecting p pc = False"

fun holding :: "ptr \<Rightarrow> handler_pc \<Rightarrow> bool" where
  "holding p (HRegistered q w) = (q = p)"
| "holding p (HWaiting q) = (q = p)"
| "holding p (HReturning q out) = (q = p)"
| "holding p pc = False"

lemma expecting_holding: "expecting p pc \<Longrightarrow> holding p pc"
  by (cases pc) auto

lemma launching_expecting: "launching p pc \<Longrightarrow> expecting p pc"
  by (cases pc) auto

definition attempts_at :: "(attempt_pc \<Rightarrow> bool) \<Rightarrow> ptr \<Rightarrow> gateway_system \<Rightarrow> nat" where
  "attempts_at P p s = count_if (\<lambda>a. ga_ih a = p \<and> P (ga_pc a)) (gs_attempts s)"

definition handlers_at :: "(handler_pc \<Rightarrow> bool) \<Rightarrow> gateway_system \<Rightarrow> nat" where
  "handlers_at P s = count_if (\<lambda>h. P (gh_pc h)) (gs_handlers s)"

definition owed :: "ptr \<Rightarrow> gateway_system \<Rightarrow> nat" where
  "owed p s = count_if (\<lambda>j. j_ih j = p) (jobs_of (gs_poll s)) + handlers_at (launching p) s"

definition live :: "ptr \<Rightarrow> gateway_system \<Rightarrow> nat" where
  "live p s = attempts_at counted p s + owed p s"

section \<open>The invariant\<close>

text \<open>
  A record, with \<open>c\<close> live attempts, \<open>x\<close> attempts about to report exhaustion, \<open>k\<close> results between
  the latch and the channel, and \<open>wt\<close>: its handler still waits.
\<close>

definition record_ok :: "inflight \<Rightarrow> nat \<Rightarrow> nat \<Rightarrow> nat \<Rightarrow> bool \<Rightarrow> bool" where
  "record_ok ih c x k wt \<longleftrightarrow> 1 \<le> dispatched ih \<and> dispatched ih \<le> maxAttempts
     \<and> (\<not> claimed ih \<longrightarrow> attempts ih = int c \<and> k = 0 \<and> ih_result ih = [] \<and> (c = 0 \<longrightarrow> 0 < x))
     \<and> k + length (ih_result ih) \<le> 1 \<and> (claimed ih \<and> wt \<longrightarrow> k + length (ih_result ih) = 1)"

definition records_ok :: "gateway_system \<Rightarrow> bool" where
  "records_ok s \<longleftrightarrow> (\<forall>p ih. heap (gs_tracker s) p = Some ih \<longrightarrow>
     record_ok ih (live p s) (attempts_at exhausting p s) (attempts_at sending p s)
       (0 < handlers_at (expecting p) s))"

definition refs_ok :: "gateway_system \<Rightarrow> bool" where
  "refs_ok s \<longleftrightarrow> tracker_wf (gs_tracker s)
     \<and> (\<forall>a \<in> set (gs_attempts s). ga_ih a \<in> dom (heap (gs_tracker s)))
     \<and> (\<forall>j \<in> set (jobs_of (gs_poll s)). j_ih j \<in> dom (heap (gs_tracker s)))"

definition owner_ok :: "request_tracker \<Rightarrow> handler_goroutine \<Rightarrow> bool" where
  "owner_ok t h \<longleftrightarrow> (\<forall>p. holding p (gh_pc h) \<longrightarrow> requests t (req_RequestId (gh_req h)) = Some p
     \<and> (\<exists>ih. heap t p = Some ih \<and> ih_req ih = gh_req h))"

definition owners_ok :: "gateway_system \<Rightarrow> bool" where
  "owners_ok s \<longleftrightarrow> (\<forall>h \<in> set (gs_handlers s). owner_ok (gs_tracker s) h)
     \<and> (\<forall>p. handlers_at (holding p) s = of_bool (p \<in> ran (requests (gs_tracker s))))"

definition gs_inv :: "gateway_system \<Rightarrow> bool" where
  "gs_inv s \<longleftrightarrow> refs_ok s \<and> records_ok s \<and> owners_ok s"

lemma owners_okD:
  assumes "owners_ok s" and "handler_at i pc s" and "holding p pc"
  shows "requests (gs_tracker s) (req_RequestId (handler_req i s)) = Some p"
    and "\<exists>ih. heap (gs_tracker s) p = Some ih \<and> ih_req ih = handler_req i s"
proof -
  have "gs_handlers s ! i \<in> set (gs_handlers s)" using assms(2) by (simp add: handler_at_def)
  with assms show "requests (gs_tracker s) (req_RequestId (handler_req i s)) = Some p"
    "\<exists>ih. heap (gs_tracker s) p = Some ih \<and> ih_req ih = handler_req i s"
    by (auto simp: owners_ok_def owner_ok_def handler_at_def)
qed

section \<open>How steps move the counts\<close>

lemma handler_atD: "handler_at i pc s \<Longrightarrow> i < length (gs_handlers s) \<and> gh_pc (gs_handlers s ! i) = pc"
  by (simp add: handler_at_def)

lemma state_sel [simp]:
  "gs_view (set_handler i pc s) = gs_view s" "gs_tracker (set_handler i pc s) = gs_tracker s"
  "gs_attempts (set_handler i pc s) = gs_attempts s" "gs_poll (set_handler i pc s) = gs_poll s"
  "gs_view (set_attempt i apc s) = gs_view s" "gs_tracker (set_attempt i apc s) = gs_tracker s"
  "gs_handlers (set_attempt i apc s) = gs_handlers s" "gs_poll (set_attempt i apc s) = gs_poll s"
  "gs_view (set_record p ih s) = gs_view s" "gs_handlers (set_record p ih s) = gs_handlers s"
  "gs_attempts (set_record p ih s) = gs_attempts s" "gs_poll (set_record p ih s) = gs_poll s"
  "gs_view (launch p w s) = gs_view s" "gs_handlers (launch p w s) = gs_handlers s"
  "gs_tracker (launch p w s) = gs_tracker s" "gs_poll (launch p w s) = gs_poll s"
  "gs_attempts (launch p w s) = gs_attempts s @ [\<lparr>ga_ih = p, ga_pc = AStart w\<rparr>]"
  "heap (gs_tracker (set_record p ih s)) = (heap (gs_tracker s))(p \<mapsto> ih)"
  "requests (gs_tracker (set_record p ih s)) = requests (gs_tracker s)"
  by (simp_all add: set_handler_def set_attempt_def set_record_def launch_def)

lemma counts_congruent [simp]:
  "handlers_at Q (set_attempt i apc s) = handlers_at Q s"
  "handlers_at Q (set_record p ih s) = handlers_at Q s" "handlers_at Q (launch p w s) = handlers_at Q s"
  "attempts_at P q (set_handler i pc s) = attempts_at P q s"
  "attempts_at P q (set_record p ih s) = attempts_at P q s"
  "handlers_at Q (s\<lparr>gs_tracker := t\<rparr>) = handlers_at Q s" "attempts_at P q (s\<lparr>gs_tracker := t\<rparr>) = attempts_at P q s"
  "handlers_at Q (s\<lparr>gs_view := v\<rparr>) = handlers_at Q s" "attempts_at P q (s\<lparr>gs_view := v\<rparr>) = attempts_at P q s"
  "handlers_at Q (s\<lparr>gs_poll := pp\<rparr>) = handlers_at Q s" "attempts_at P q (s\<lparr>gs_poll := pp\<rparr>) = attempts_at P q s"
  "owed q (s\<lparr>gs_tracker := t\<rparr>) = owed q s" "owed q (s\<lparr>gs_view := v\<rparr>) = owed q s"
  "owed q (set_attempt i apc s) = owed q s" "owed q (set_record p ih s) = owed q s"
  "owed q (launch p w s) = owed q s"
  by (simp_all add: handlers_at_def attempts_at_def owed_def)

lemma attempts_at_launch [simp]:
  "attempts_at P q (launch p w s) = attempts_at P q s + of_bool (q = p \<and> P (AStart w))"
  by (simp add: attempts_at_def)

definition handlers_but :: "(handler_pc \<Rightarrow> bool) \<Rightarrow> nat \<Rightarrow> gateway_system \<Rightarrow> nat" where
  "handlers_but P i s = count_others (\<lambda>h. P (gh_pc h)) i (gs_handlers s)"

definition attempts_but :: "(attempt_pc \<Rightarrow> bool) \<Rightarrow> ptr \<Rightarrow> nat \<Rightarrow> gateway_system \<Rightarrow> nat" where
  "attempts_but P p i s = count_others (\<lambda>a. ga_ih a = p \<and> P (ga_pc a)) i (gs_attempts s)"

lemma handlers_at_split:
  "handler_at i pc s \<Longrightarrow> handlers_at P s = handlers_but P i s + of_bool (P pc)"
  by (auto simp: handlers_at_def handlers_but_def handler_at_def count_if_split)

lemma handlers_at_set:
  "handler_at i pc s \<Longrightarrow> handlers_at P (set_handler i pc' s) = handlers_but P i s + of_bool (P pc')"
  by (simp add: handlers_at_def handlers_but_def handler_at_def set_handler_def count_if_split_update)

lemma attempts_at_split:
  "i < length (gs_attempts s) \<Longrightarrow> gs_attempts s ! i = \<lparr>ga_ih = p, ga_pc = pc\<rparr> \<Longrightarrow>
     attempts_at P q s = attempts_but P q i s + of_bool (q = p \<and> P pc)"
  by (auto simp: attempts_at_def attempts_but_def count_if_split)

lemma attempts_at_set:
  "i < length (gs_attempts s) \<Longrightarrow> gs_attempts s ! i = \<lparr>ga_ih = p, ga_pc = pc\<rparr> \<Longrightarrow>
     attempts_at P q (set_attempt i pc' s) = attempts_but P q i s + of_bool (q = p \<and> P pc')"
  by (auto simp: attempts_at_def attempts_but_def set_attempt_def count_if_split_update)

section \<open>How steps move a record\<close>

lemma record_ok_weaken: "record_ok ih c x k wt \<Longrightarrow> (wt' \<Longrightarrow> wt) \<Longrightarrow> record_ok ih c x k wt'"
  by (auto simp: record_ok_def)

lemma record_ok_new: "record_ok (new_inflight q w) 1 0 0 wt"
  by (simp add: record_ok_def maxAttempts_def)

lemma record_ok_receive:
  "record_ok ih c x k wt \<Longrightarrow> take_result ih = Some (r, ih') \<Longrightarrow> record_ok ih' c x k False"
  by (auto simp: record_ok_def take_result_def)

lemma record_ok_reroute:
  "record_ok ih c x k wt \<Longrightarrow> stranded d ih \<Longrightarrow> record_ok (reroute_inflight w ih) (Suc c) x k wt"
  by (auto simp: record_ok_def stranded_def)

lemma record_ok_latch: "record_ok ih c x k wt \<Longrightarrow> latch_wf ih"
  by (auto simp: record_ok_def latch_wf_def)

text \<open>
  One step of one attempt, with \<open>c\<close>, \<open>x\<close> and \<open>k\<close> the counts of the others.
\<close>

lemma attempt_step_record_ok:
  assumes "attempt_step view p ih pc l ih' pc'"
    and "record_ok ih (c + of_bool (counted pc)) (x + of_bool (exhausting pc)) (k + of_bool (sending pc)) wt"
  shows "record_ok ih' (c + of_bool (counted pc')) (x + of_bool (exhausting pc')) (k + of_bool (sending pc')) wt"
  using assms
proof cases
  case (as_replace w candidates draw replacement ex d err)
  with locked_frame [OF as_replace(4)] locked_replaced [OF as_replace(4)] assms(2)
  show ?thesis by (auto simp: record_ok_def)
next
  case (as_exhaust w candidates draw d err)
  with locked_frame [OF as_exhaust(4)] locked_not_replaced [OF as_exhaust(4)] assms(2)
  show ?thesis by (auto simp: record_ok_def)
next
  case (as_over w candidates draw d err)
  with locked_frame [OF as_over(4)] locked_not_replaced [OF as_over(4)] assms(2)
  show ?thesis by (auto simp: record_ok_def)
next
  case (as_win r)
  then show ?thesis using assms(2) by (auto simp: record_ok_def cas_claim_def split: if_splits)
next
  case (as_lose r)
  then show ?thesis using assms(2) by (auto simp: record_ok_def cas_claim_def split: if_splits)
qed (use assms(2) in \<open>auto simp: record_ok_def\<close>)

lemma attempt_step_req:
  assumes "attempt_step view p ih pc l ih' pc'"
  shows "ih_req ih' = ih_req ih"
  using assms
proof cases
  case (as_replace w candidates draw replacement ex d err)
  then show ?thesis using locked_frame [OF as_replace(4)] by simp
next
  case (as_exhaust w candidates draw d err)
  then show ?thesis using locked_frame [OF as_exhaust(4)] by simp
next
  case (as_over w candidates draw d err)
  then show ?thesis using locked_frame [OF as_over(4)] by simp
qed (auto simp: cas_claim_def split: if_splits)

section \<open>The table\<close>

lemma tracker_wf_register:
  assumes "tracker_wf t" and "register req w t = (Inr p, t')"
  shows "tracker_wf t'"
proof -
  have t': "requests t (req_RequestId req) = None" "p = next_ptr t"
      "requests t' = (requests t)(req_RequestId req \<mapsto> p)"
      "heap t' = (heap t)(p \<mapsto> new_inflight req w)" "next_ptr t' = p + 1"
    using assms(2) by (auto simp: register_Inr)
  have fresh: "heap t p = None" using assms(1) t'(2) by (auto simp: tracker_wf_def dom_def)
  then have nr: "p \<notin> ran (requests t)" using assms(1) by (auto simp: tracker_wf_def)
  have "inj_on (requests t') (dom (requests t'))"
    using assms(1) nr unfolding t'(3) by (auto simp: tracker_wf_def inj_on_def ran_def dom_def)
  moreover have "ran (requests t') \<subseteq> dom (heap t')"
    using assms(1) t'(1) unfolding t'(3,4) by (auto simp: tracker_wf_def)
  moreover have "\<forall>q. q \<in> dom (heap t') \<longrightarrow> q < next_ptr t'"
    using assms(1) t'(2) unfolding t'(4,5) by (auto simp: tracker_wf_def less_Suc_eq)
  moreover have "\<forall>i q ih. requests t' i = Some q \<longrightarrow> heap t' q = Some ih \<longrightarrow> req_RequestId (ih_req ih) = i"
    using assms(1) nr unfolding t'(3,4) by (auto simp: tracker_wf_def ran_def)
  ultimately show ?thesis using assms(1) t'(3) by (simp add: tracker_wf_def)
qed

lemma tracker_wf_unregister: "tracker_wf t \<Longrightarrow> tracker_wf (unregister i t)"
  by (auto simp: tracker_wf_def inj_on_def ran_def dom_def elim: rev_finite_subset)

text \<open>
  The jobs of a claim: as many for a record as the claim counted in it.
\<close>

lemma reroute_claim_jobs:
  assumes "tracker_wf t" and "iterates (requests t) ks"
    and "reroute_claim departed healthy draws ks t = (t', jobs, over)" and "heap t p = Some ih"
  shows "count_if (\<lambda>j. j_ih j = p) jobs = of_bool (p \<in> ran (requests t) \<and> stranded departed ih)"
proof -
  note sp = reroute_claim_spec [OF assms(1-3)]
  define Q where "Q = (\<lambda>i. \<exists>p ih. requests t i = Some p \<and> heap t p = Some ih \<and> stranded departed ih)"
  have ids: "map j_reqID jobs = filter Q ks" using sp(3) by (simp add: Q_def)
  have ks: "distinct ks" "set ks = dom (requests t)" using assms(2) by (auto simp: iterates_def)
  have "filter (\<lambda>j. j_ih j = p) jobs = filter (\<lambda>j. requests t (j_reqID j) = Some p) jobs"
    using sp(4) by (intro filter_cong) auto
  then have "count_if (\<lambda>j. j_ih j = p) jobs = length (filter (\<lambda>j. requests t (j_reqID j) = Some p) jobs)"
    by (simp add: count_if_def)
  also have "\<dots> = length (filter (\<lambda>i. requests t i = Some p) (map j_reqID jobs))"
    by (simp add: filter_map o_def)
  also have "\<dots> = length (filter (\<lambda>i. requests t i = Some p \<and> Q i) ks)"
    unfolding ids by (simp add: conj_commute)
  also have "\<dots> = of_bool (p \<in> ran (requests t) \<and> stranded departed ih)"
  proof (cases "p \<in> ran (requests t) \<and> stranded departed ih")
    case True
    then obtain i where i: "requests t i = Some p" by (auto simp: ran_def)
    have "requests t i' = Some p \<and> Q i' \<longleftrightarrow> i' = i" for i'
      using i True assms(4) tracker_wfD(2) [OF assms(1)] by (auto simp: Q_def)
    moreover have "{i} \<inter> set ks = {i}" using ks(2) i by auto
    then have "length (filter (\<lambda>i'. i' = i) ks) = 1" using ks(1) by (simp add: distinct_length_filter)
    ultimately show ?thesis using True by simp
  next
    case False
    then have "\<not> (requests t i = Some p \<and> Q i)" for i
      using assms(4) by (auto simp: Q_def ran_def)
    then show ?thesis using False by simp
  qed
  finally show ?thesis .
qed

section \<open>Preservation: references\<close>

lemma attempt_goroutine_in:
  "i < length (gs_attempts s) \<Longrightarrow> gs_attempts s ! i = \<lparr>ga_ih = p, ga_pc = pc\<rparr> \<Longrightarrow>
     a \<in> set (gs_attempts (set_attempt i pc' s)) \<Longrightarrow> a \<in> set (gs_attempts s) \<or> ga_ih a = p"
  by (auto simp: set_attempt_def dest!: set_update_subset_insert [THEN subsetD])

lemma refs_ok_set_record:
  assumes "refs_ok s" and "heap (gs_tracker s) p = Some ih" and "ih_req ih' = ih_req ih"
  shows "refs_ok (set_record p ih' s)"
  using assms tracker_wf_update [of "gs_tracker s" p ih ih'] by (auto simp: refs_ok_def set_record_def)

lemma refs_ok_tracker:
  "refs_ok s \<Longrightarrow> tracker_wf t \<Longrightarrow> dom (heap (gs_tracker s)) \<subseteq> dom (heap t) \<Longrightarrow> refs_ok (s\<lparr>gs_tracker := t\<rparr>)"
  by (simp add: refs_ok_def) blast

lemma refs_ok_handler: "refs_ok (set_handler i pc s) = refs_ok s"
  by (simp add: refs_ok_def)

lemma take_result_req: "take_result ih = Some (r, ih') \<Longrightarrow> ih_req ih' = ih_req ih"
  by (auto simp: take_result_def)

lemma refs_ok_step:
  assumes "gs_inv s" and "gs_step s l t"
  shows "refs_ok t"
proof -
  have rf: "refs_ok s" and ow: "owners_ok s" using assms(1) by (auto simp: gs_inv_def)
  from assms(2) show ?thesis
  proof cases
    case (gs_register i w p t')
    then have "dom (heap (gs_tracker s)) \<subseteq> dom (heap t')" by (auto simp: register_Inr)
    with rf tracker_wf_register [OF _ gs_register(4)] show ?thesis
      unfolding gs_register refs_ok_handler by (intro refs_ok_tracker) (auto simp: refs_ok_def)
  next
    case (gs_duplicate i w err t')
    then have "t' = gs_tracker s" by (simp add: register_Inl)
    with rf show ?thesis unfolding gs_duplicate by (simp add: refs_ok_handler refs_ok_def)
  next
    case (gs_launch i p w)
    then have "p \<in> dom (heap (gs_tracker s))"
      using owners_okD [OF ow gs_launch(3), of p] by auto
    with rf show ?thesis unfolding gs_launch by (simp add: refs_ok_def)
  next
    case (gs_receive i p ih r ih')
    with rf show ?thesis
      unfolding gs_receive(2) by (intro refs_ok_set_record [where ih = ih]) (auto simp: refs_ok_handler dest: take_result_req)
  next
    case (gs_return i p out)
    with rf show ?thesis
      using tracker_wf_unregister unfolding gs_return refs_ok_handler
      by (intro refs_ok_tracker) (auto simp: refs_ok_def)
  next
    case (gs_attempt i p pc ih ih' pc')
    have "refs_ok (set_attempt i pc' s)"
      using rf attempt_goroutine_in [OF gs_attempt(2,3)] gs_attempt(4) by (fastforce simp: refs_ok_def)
    then show ?thesis
      unfolding gs_attempt(1) using gs_attempt(4) attempt_step_req [OF gs_attempt(5)]
      by (intro refs_ok_set_record [where ih = ih]) auto
  next
    case (gs_poll_claim departed healthy ks draws t' jobs overBudget)
    have wf: "tracker_wf (gs_tracker s)" using rf by (simp add: refs_ok_def)
    note sp = reroute_claim_spec [OF wf gs_poll_claim(4,5)]
    have d: "dom (heap t') = dom (heap (gs_tracker s))" unfolding sp(5) by (auto split: option.splits)
    have "\<forall>j \<in> set jobs. j_ih j \<in> dom (heap (gs_tracker s))"
      using sp(4) tracker_wfD(1) [OF wf] by blast
    with rf d reroute_claim_wf [OF wf gs_poll_claim(4,5)] show ?thesis
      unfolding gs_poll_claim(2) by (simp add: refs_ok_def)
  qed (use rf in \<open>auto simp: refs_ok_handler\<close>, auto simp: refs_ok_def)
qed

section \<open>Preservation: records\<close>

lemma handler_at_tracker [simp]: "handler_at i pc (s\<lparr>gs_tracker := t\<rparr>) = handler_at i pc s"
  by (simp add: handler_at_def)

lemma handlers_at_neutral:
  "handler_at i pc s \<Longrightarrow> P pc = P pc' \<Longrightarrow> handlers_at P (set_handler i pc' s) = handlers_at P s"
  by (simp add: handlers_at_split handlers_at_set)

lemma owed_neutral:
  "handler_at i pc s \<Longrightarrow> launching p pc = launching p pc' \<Longrightarrow> owed p (set_handler i pc' s) = owed p s"
  by (simp add: owed_def handlers_at_neutral)

lemma records_okD:
  "records_ok s \<Longrightarrow> heap (gs_tracker s) p = Some ih \<Longrightarrow>
     record_ok ih (live p s) (attempts_at exhausting p s) (attempts_at sending p s)
       (0 < handlers_at (expecting p) s)"
  by (simp add: records_ok_def)

lemma records_ok_neutral:
  assumes "records_ok s" and "handler_at i pc s"
    and "\<And>p. launching p pc = launching p pc'" and "\<And>p. expecting p pc' \<Longrightarrow> expecting p pc"
    and "heap t = heap (gs_tracker s)"
  shows "records_ok (set_handler i pc' (s\<lparr>gs_tracker := t\<rparr>))"
  unfolding records_ok_def
proof (intro allI impI)
  let ?s = "set_handler i pc' (s\<lparr>gs_tracker := t\<rparr>)"
  fix p ih
  assume "heap (gs_tracker ?s) p = Some ih"
  then have "heap (gs_tracker s) p = Some ih" using assms(5) by simp
  note ok = records_okD [OF assms(1) this]
  have h: "handler_at i pc (s\<lparr>gs_tracker := t\<rparr>)" using assms(2) by simp
  have "live p ?s = live p s" by (simp add: live_def owed_neutral [OF h assms(3)])
  moreover have "handlers_at (expecting p) ?s \<le> handlers_at (expecting p) s"
    using assms(2) assms(4) [of p] by (simp add: handlers_at_set [OF h] handlers_at_split of_bool_def)
      (simp add: handlers_but_def)
  ultimately show "record_ok ih (live p ?s) (attempts_at exhausting p ?s) (attempts_at sending p ?s)
      (0 < handlers_at (expecting p) ?s)"
    using record_ok_weaken [OF ok] by simp
qed

lemma records_ok_neutral':
  assumes "records_ok s" and "handler_at i pc s"
    and "\<And>p. launching p pc = launching p pc'" and "\<And>p. expecting p pc' \<Longrightarrow> expecting p pc"
  shows "records_ok (set_handler i pc' s)"
proof -
  have "s\<lparr>gs_tracker := gs_tracker s\<rparr> = s" by simp
  with records_ok_neutral [OF assms, where t = "gs_tracker s"] show ?thesis by simp
qed

lemma count_others_le: "count_others P i xs \<le> count_if P xs"
proof (cases "i < length xs")
  case True
  then show ?thesis using count_if_split [of i xs P] by simp
next
  case False
  then show ?thesis by (simp add: count_others_def)
qed

lemma nobody_waits:
  assumes "owners_ok s" and "handler_at i pc s" and "holding p pc"
  shows "handlers_but (expecting p) i s = 0" and "handlers_but (holding p) i s = 0"
proof -
  have "handlers_at (holding p) s \<le> 1" using assms(1) by (simp add: owners_ok_def)
  then show "handlers_but (holding p) i s = 0"
    using handlers_at_split [OF assms(2), of "holding p"] assms(3) by simp
  moreover have "handlers_but (expecting p) i s \<le> handlers_but (holding p) i s"
    unfolding handlers_but_def count_others_def by (intro count_if_mono) (simp add: expecting_holding)
  ultimately show "handlers_but (expecting p) i s = 0" by simp
qed

lemma unborn:
  assumes "gs_inv s" and "heap (gs_tracker s) p = None"
  shows "attempts_at P p s = 0" and "handlers_at (holding p) s = 0" and "owed p s = 0"
    and "handlers_at (expecting p) s = 0"
proof -
  have rf: "refs_ok s" and ow: "owners_ok s" using assms(1) by (auto simp: gs_inv_def)
  have "p \<notin> ran (requests (gs_tracker s))"
    using rf assms(2) by (auto simp: refs_ok_def tracker_wf_def)
  then show h: "handlers_at (holding p) s = 0" using ow by (simp add: owners_ok_def)
  show "attempts_at P p s = 0"
    using rf assms(2) by (auto simp: refs_ok_def attempts_at_def count_if_zero)
  have "handlers_at (expecting p) s \<le> handlers_at (holding p) s"
    "handlers_at (launching p) s \<le> handlers_at (expecting p) s"
    unfolding handlers_at_def by (auto intro!: count_if_mono expecting_holding launching_expecting)
  then show "handlers_at (expecting p) s = 0" "owed p s = 0"
    using h rf assms(2) by (auto simp: owed_def refs_ok_def count_if_zero)
qed

lemma live_split_attempt:
  "i < length (gs_attempts s) \<Longrightarrow> gs_attempts s ! i = \<lparr>ga_ih = p, ga_pc = pc\<rparr> \<Longrightarrow>
     live q s = (attempts_but counted q i s + owed q s) + of_bool (q = p \<and> counted pc)"
  "i < length (gs_attempts s) \<Longrightarrow> gs_attempts s ! i = \<lparr>ga_ih = p, ga_pc = pc\<rparr> \<Longrightarrow>
     live q (set_record p' ih (set_attempt i pc' s))
       = (attempts_but counted q i s + owed q s) + of_bool (q = p \<and> counted pc')"
  by (simp_all add: live_def attempts_at_split attempts_at_set)

text \<open>
  The kinds of steps, by what they do to the heap, the attempts, the dispatches announced and the handlers that wait:
  most touch none of them, the others announce, launch, deliver, register, claim, or are a step of an attempt.
\<close>

lemma handlers_wait_neutral:
  assumes "handler_at i pc s" and "expecting p pc' \<Longrightarrow> expecting p pc" and "0 < handlers_at (expecting p) (set_handler i pc' s)"
  shows "0 < handlers_at (expecting p) s"
  using assms(2,3) by (simp add: handlers_at_split [OF assms(1)] handlers_at_set [OF assms(1)] of_bool_def split: if_splits)

lemma registered_counts:
  assumes inv: "gs_inv s" and h: "handler_at i (HPicked w) s" and reg: "register (handler_req i s) (wi_WorkerId w) (gs_tracker s) = (Inr q, t')"
  shows "heap (gs_tracker s) q = None" and "heap t' = (heap (gs_tracker s))(q \<mapsto> new_inflight (handler_req i s) (wi_WorkerId w))"
    and "owed p (set_handler i (HRegistered q w) (s\<lparr>gs_tracker := t'\<rparr>)) = owed p s + of_bool (p = q)"
    and "p \<noteq> q \<Longrightarrow> handlers_at (expecting p) (set_handler i (HRegistered q w) (s\<lparr>gs_tracker := t'\<rparr>)) = handlers_at (expecting p) s"
proof -
  have "q = next_ptr (gs_tracker s)" using reg by (auto simp: register_Inr)
  then show none: "heap (gs_tracker s) q = None" using inv by (auto simp: gs_inv_def refs_ok_def tracker_wf_def dom_def)
  show "heap t' = (heap (gs_tracker s))(q \<mapsto> new_inflight (handler_req i s) (wi_WorkerId w))" using reg by (auto simp: register_Inr)
  have h': "handler_at i (HPicked w) (s\<lparr>gs_tracker := t'\<rparr>)" using h by simp
  show "owed p (set_handler i (HRegistered q w) (s\<lparr>gs_tracker := t'\<rparr>)) = owed p s + of_bool (p = q)"
    using handlers_at_set [OF h', of "launching p" "HRegistered q w"] handlers_at_split [OF h', of "launching p"]
    by (simp add: owed_def)
  show "p \<noteq> q \<Longrightarrow> handlers_at (expecting p) (set_handler i (HRegistered q w) (s\<lparr>gs_tracker := t'\<rparr>)) = handlers_at (expecting p) s"
    by (simp add: handlers_at_neutral [OF h'])
qed

lemma gs_step_kinds:
  assumes inv: "gs_inv s" and step: "gs_step s l t"
  obtains
    (quiet) "l = LTau \<or> (\<exists>req out. l = LReturn req out)" "heap (gs_tracker t) = heap (gs_tracker s)"
      "gs_attempts t = gs_attempts s" "\<And>p. owed p t = owed p s"
      "\<And>p. 0 < handlers_at (expecting p) t \<Longrightarrow> 0 < handlers_at (expecting p) s"
  | (launched) q w where "l = LTau" "heap (gs_tracker t) = heap (gs_tracker s)"
      "gs_attempts t = gs_attempts s @ [\<lparr>ga_ih = q, ga_pc = AStart w\<rparr>]" "\<And>p. owed p s = owed p t + of_bool (p = q)"
      "\<And>p. 0 < handlers_at (expecting p) t \<Longrightarrow> 0 < handlers_at (expecting p) s"
  | (received) q ih r ih' where "l = LTau" "heap (gs_tracker s) q = Some ih" "take_result ih = Some (r, ih')"
      "heap (gs_tracker t) = (heap (gs_tracker s))(q \<mapsto> ih')" "gs_attempts t = gs_attempts s" "\<And>p. owed p t = owed p s"
      "handlers_at (expecting q) t = 0" "\<And>p. 0 < handlers_at (expecting p) t \<Longrightarrow> 0 < handlers_at (expecting p) s"
  | (registered) q req wid where "l = LTau" "heap (gs_tracker s) q = None"
      "heap (gs_tracker t) = (heap (gs_tracker s))(q \<mapsto> new_inflight req wid)" "gs_attempts t = gs_attempts s"
      "\<And>p. owed p t = owed p s + of_bool (p = q)"
      "\<And>p. p \<noteq> q \<Longrightarrow> 0 < handlers_at (expecting p) t \<Longrightarrow> 0 < handlers_at (expecting p) s"
  | (claimed) d tgt where "l = LTau" "gs_attempts t = gs_attempts s"
      "\<And>p ih. heap (gs_tracker s) p = Some ih \<Longrightarrow> heap (gs_tracker t) p =
         Some (if p \<in> ran (requests (gs_tracker s)) \<and> stranded d ih then reroute_inflight (tgt ih) ih else ih)"
      "\<And>p. heap (gs_tracker s) p = None \<Longrightarrow> heap (gs_tracker t) p = None"
      "\<And>p ih. heap (gs_tracker s) p = Some ih \<Longrightarrow>
         owed p t = owed p s + of_bool (p \<in> ran (requests (gs_tracker s)) \<and> stranded d ih)"
      "\<And>p. 0 < handlers_at (expecting p) t \<Longrightarrow> 0 < handlers_at (expecting p) s"
  | (attempted) i q pc ih ih' pc' where "i < length (gs_attempts s)" "gs_attempts s ! i = \<lparr>ga_ih = q, ga_pc = pc\<rparr>"
      "heap (gs_tracker s) q = Some ih" "attempt_step (gs_view s) q ih pc l ih' pc'" "t = set_record q ih' (set_attempt i pc' s)"
proof -
  have quietly: thesis if "handler_at i pc s" "l = LTau \<or> (\<exists>req out. l = LReturn req out)" "t = set_handler i pc' (s\<lparr>gs_tracker := u\<rparr>)"
      "heap u = heap (gs_tracker s)" "\<And>p. \<not> expecting p pc'" "\<And>p. launching p pc = launching p pc'" for i pc pc' u
  proof -
    have h: "handler_at i pc (s\<lparr>gs_tracker := u\<rparr>)" using that(1) by simp
    show thesis
      by (rule quiet [OF that(2)]) (use that handlers_wait_neutral [OF h] in \<open>auto simp: owed_neutral [OF h]\<close>)
  qed
  from step show thesis
  proof cases
    case (gs_no_id i)
    show thesis by (rule quietly [OF gs_no_id(3), where u = "gs_tracker s" and pc' = "HDone (Inl missing_id_error)"]) (use gs_no_id(1,2) in simp_all)
  next
    case (gs_no_worker i draw err)
    show thesis by (rule quietly [OF gs_no_worker(3), where u = "gs_tracker s" and pc' = "HDone (Inl err)"]) (use gs_no_worker(1,2) in simp_all)
  next
    case (gs_pick i draw w)
    show thesis by (rule quietly [OF gs_pick(3), where u = "gs_tracker s" and pc' = "HPicked w"]) (use gs_pick(1,2) in simp_all)
  next
    case (gs_duplicate i w err t')
    show thesis by (rule quietly [OF gs_duplicate(3), where u = t' and pc' = "HDone (Inl err)"]) (use gs_duplicate(1,2,4) in \<open>simp_all add: register_Inl\<close>)
  next
    case (gs_give_up i q e)
    show thesis by (rule quietly [OF gs_give_up(3), where u = "gs_tracker s" and pc' = "HReturning q (Inl (from_context_error e))"]) (use gs_give_up(1,2) in simp_all)
  next
    case (gs_return i q out)
    show thesis by (rule quietly [OF gs_return(3) _ gs_return(2)]) (use gs_return(1) in simp_all)
  next
    case (gs_register i w q t')
    note c = registered_counts [OF inv gs_register(3,4)]
    show thesis by (rule registered [OF gs_register(1) c(1)]) (use c gs_register(2) in simp_all)
  next
    case (gs_launch i q w)
    show thesis
      by (rule launched [OF gs_launch(1), of q w])
        (use gs_launch(2) handlers_wait_neutral [OF gs_launch(3)] in
          \<open>simp_all add: owed_def handlers_at_split [OF gs_launch(3)] handlers_at_set [OF gs_launch(3)]\<close>)
  next
    case (gs_receive i q ih r ih')
    have "handlers_at (expecting q) t = 0"
      using nobody_waits(1) [OF _ gs_receive(3), of q] inv by (simp add: gs_receive(2) handlers_at_set [OF gs_receive(3)] gs_inv_def)
    then show thesis
      by (intro received [OF gs_receive(1,4,5)])
        (use gs_receive(2) handlers_wait_neutral [OF gs_receive(3), where pc' = "HReturning q (outcome_of r)"] in
          \<open>auto simp: owed_neutral [OF gs_receive(3)]\<close>)
  next
    case (gs_attempt i q pc ih ih' pc')
    show thesis by (rule attempted [OF gs_attempt(2-5) gs_attempt(1)])
  next
    case (gs_poll_claim d ws ks draws t' jobs over)
    have wf: "tracker_wf (gs_tracker s)" using inv by (simp add: gs_inv_def refs_ok_def)
    note sp = reroute_claim_spec [OF wf gs_poll_claim(4,5)]
    have "owed p t = owed p s + of_bool (p \<in> ran (requests (gs_tracker s)) \<and> stranded d ih)"
      if "heap (gs_tracker s) p = Some ih" for p ih
      using reroute_claim_jobs [OF wf gs_poll_claim(4,5) that] gs_poll_claim(2,3) by (simp add: owed_def handlers_at_def)
    then show thesis
      by (intro claimed [OF gs_poll_claim(1), of d "\<lambda>ih. pick_random (draws (req_RequestId (ih_req ih))) ws"])
        (simp_all add: gs_poll_claim(2) sp(5))
  next
    case (gs_poll_fire j js)
    show thesis
      by (rule launched [OF gs_poll_fire(1), of "j_ih j" "j_target j"])
        (use gs_poll_fire(2,3) in \<open>simp_all add: owed_def eq_commute\<close>)
  next
    case (gs_arrive req)
    show thesis by (rule quiet) (simp_all add: gs_arrive owed_def handlers_at_def)
  qed (rule quiet; simp add: owed_def)+
qed

lemma records_ok_step:
  assumes inv: "gs_inv s" and step: "gs_step s l t"
  shows "records_ok t"
proof -
  have ro: "records_ok s" using inv by (simp add: gs_inv_def)
  have weaken: "record_ok ih (live p s) (attempts_at exhausting p s) (attempts_at sending p s) wt"
    if "heap (gs_tracker s) p = Some ih" "wt \<Longrightarrow> 0 < handlers_at (expecting p) s" for p ih wt
    using record_ok_weaken [OF records_okD [OF ro that(1)]] that(2) by blast
  from inv step show ?thesis
  proof (cases rule: gs_step_kinds)
    case quiet
    then show ?thesis using weaken by (auto simp: records_ok_def live_def attempts_at_def)
  next
    case (launched q w)
    have "live p t = live p s" "attempts_at exhausting p t = attempts_at exhausting p s" "attempts_at sending p t = attempts_at sending p s" for p
      using launched(3) launched(4) [of p] by (auto simp: live_def attempts_at_def)
    then show ?thesis using launched(2,5) weaken by (simp add: records_ok_def)
  next
    case (received q ih r ih')
    have same: "live p t = live p s" "attempts_at P p t = attempts_at P p s" for p P
      using received(5,6) by (simp_all add: live_def attempts_at_def)
    have "record_ok ih' (live q s) (attempts_at exhausting q s) (attempts_at sending q s) False"
      by (rule record_ok_receive [OF records_okD [OF ro received(2)] received(3)])
    then show ?thesis using received(4,7,8) weaken by (auto simp: records_ok_def same)
  next
    case (registered q req wid)
    have "live q t = 1" "attempts_at P q t = 0" for P
      using registered(4,5) unborn(1,3) [OF inv registered(2)] by (simp_all add: live_def attempts_at_def)
    moreover have "live p t = live p s" "attempts_at P p t = attempts_at P p s" if "p \<noteq> q" for p P
      using registered(4,5) that by (simp_all add: live_def attempts_at_def)
    ultimately show ?thesis
      using registered(3,6) weaken record_ok_new [unfolded One_nat_def] by (auto simp: records_ok_def)
  next
    case (claimed d tgt)
    have same: "attempts_at P p t = attempts_at P p s" for P p using claimed(2) by (simp add: attempts_at_def)
    show ?thesis unfolding records_ok_def
    proof (intro allI impI)
      fix p ih'
      assume p: "heap (gs_tracker t) p = Some ih'"
      then obtain ih where ih: "heap (gs_tracker s) p = Some ih" using claimed(4) [of p] by (cases "heap (gs_tracker s) p") auto
      show "record_ok ih' (live p t) (attempts_at exhausting p t) (attempts_at sending p t) (0 < handlers_at (expecting p) t)"
        using weaken [OF ih] claimed(3) [OF ih] claimed(5) [OF ih] claimed(6) [of p] p record_ok_reroute
        by (auto simp: live_def same split: if_splits)
    qed
  next
    case (attempted i q pc ih ih' pc')
    note split = live_split_attempt [OF attempted(1,2)] attempts_at_split [OF attempted(1,2)] attempts_at_set [OF attempted(1,2)]
    have "record_ok ih' (live q t) (attempts_at exhausting q t) (attempts_at sending q t) (0 < handlers_at (expecting q) t)"
      using attempt_step_record_ok [OF attempted(4)] records_okD [OF ro attempted(3)] by (simp add: attempted(5) split)
    moreover have "live p t = live p s" "attempts_at P p t = attempts_at P p s" if "p \<noteq> q" for p P
      using that by (simp_all add: attempted(5) split)
    ultimately show ?thesis using records_okD [OF ro] by (auto simp: records_ok_def attempted(5))
  qed
qed

section \<open>Preservation: owners\<close>

lemma count_others_zero:
  assumes "count_others P i xs = 0" and "j < length xs" and "j \<noteq> i"
  shows "\<not> P (xs ! j)"
proof -
  have "xs ! j \<in> set (take i xs @ drop (Suc i) xs)"
  proof (cases "j < i")
    case True
    then have "take i xs ! j = xs ! j" "j < length (take i xs)" using assms(2) by auto
    then show ?thesis by (metis Un_iff nth_mem set_append)
  next
    case False
    then have "drop (Suc i) xs ! (j - Suc i) = xs ! j" "j - Suc i < length (drop (Suc i) xs)"
      using assms(2,3) by auto
    then show ?thesis by (metis Un_iff nth_mem set_append)
  qed
  with assms(1) show ?thesis by (auto simp: count_others_def count_if_zero)
qed

definition extends :: "request_tracker \<Rightarrow> request_tracker \<Rightarrow> bool" where
  "extends t t' \<longleftrightarrow> (\<forall>p ih. heap t p = Some ih \<longrightarrow> (\<exists>ih'. heap t' p = Some ih' \<and> ih_req ih' = ih_req ih))"

lemma owner_ok_extends:
  "extends t t' \<Longrightarrow> requests t' = requests t \<Longrightarrow> owner_ok t h \<Longrightarrow> owner_ok t' h"
  by (fastforce simp: owner_ok_def extends_def)

lemma owners_ok_frame:
  assumes "owners_ok s" and "gs_handlers t = gs_handlers s"
    and "requests (gs_tracker t) = requests (gs_tracker s)" and "extends (gs_tracker s) (gs_tracker t)"
  shows "owners_ok t"
  using assms owner_ok_extends by (auto simp: owners_ok_def handlers_at_def)

text \<open>A handler moves and keeps its record, or never had one.\<close>

lemma owners_ok_move:
  assumes "owners_ok s" and "handler_at i pc s" and "\<And>p. holding p pc' = holding p pc"
  shows "owners_ok (set_handler i pc' s)"
proof -
  have "owner_ok (gs_tracker s) (gs_handlers s ! i)"
    using assms(1,2) by (auto simp: owners_ok_def handler_at_def)
  then have "owner_ok (gs_tracker s) \<lparr>gh_req = handler_req i s, gh_pc = pc'\<rparr>"
    using assms(2,3) by (auto simp: owner_ok_def handler_at_def)
  moreover have "handlers_at (holding p) (set_handler i pc' s) = handlers_at (holding p) s" for p
    using assms(3) by (simp add: handlers_at_neutral [OF assms(2)])
  ultimately show ?thesis
    using assms(1) unfolding owners_ok_def
    by (auto simp: set_handler_def dest!: set_update_subset_insert [THEN subsetD])
qed

lemma owners_ok_register:
  assumes "gs_inv s" and "handler_at i (HPicked w) s"
    and "register (handler_req i s) (wi_WorkerId w) (gs_tracker s) = (Inr p, t')"
  shows "owners_ok (set_handler i (HRegistered p w) (s\<lparr>gs_tracker := t'\<rparr>))"
proof -
  have rf: "refs_ok s" and ow: "owners_ok s" using assms(1) by (auto simp: gs_inv_def)
  let ?id = "req_RequestId (handler_req i s)"
  have reg: "requests (gs_tracker s) ?id = None" "p = next_ptr (gs_tracker s)"
      "requests t' = (requests (gs_tracker s))(?id \<mapsto> p)"
      "heap t' = (heap (gs_tracker s))(p \<mapsto> new_inflight (handler_req i s) (wi_WorkerId w))"
    using assms(3) by (auto simp: register_Inr)
  have none: "heap (gs_tracker s) p = None"
    using rf reg(2) by (auto simp: refs_ok_def tracker_wf_def dom_def)
  have h: "handler_at i (HPicked w) (s\<lparr>gs_tracker := t'\<rparr>)" using assms(2) by simp
  have "owner_ok t' h'" if "h' \<in> set (gs_handlers s)" for h'
  proof -
    have "owner_ok (gs_tracker s) h'" using ow that by (simp add: owners_ok_def)
    then show ?thesis using reg(1) none by (auto simp: owner_ok_def reg(3,4))
  qed
  moreover have "owner_ok t' \<lparr>gh_req = handler_req i s, gh_pc = HRegistered p w\<rparr>"
    by (auto simp: owner_ok_def reg(3,4))
  moreover have "ran (requests t') = insert p (ran (requests (gs_tracker s)))"
    using reg(1) by (simp add: reg(3))
  moreover have "p \<notin> ran (requests (gs_tracker s))"
    using rf none by (auto simp: refs_ok_def tracker_wf_def)
  moreover have "handlers_at (holding q) (set_handler i (HRegistered p w) (s\<lparr>gs_tracker := t'\<rparr>))
      = handlers_at (holding q) s + of_bool (q = p)" for q
    using handlers_at_split [OF h, of "holding q"] by (simp add: handlers_at_set [OF h])
  ultimately show ?thesis
    using ow unfolding owners_ok_def
    by (auto simp: set_handler_def dest!: set_update_subset_insert [THEN subsetD])
qed

lemma owners_ok_return:
  assumes "gs_inv s" and "handler_at i (HReturning p out) s"
  shows "owners_ok (set_handler i (HDone out)
    (s\<lparr>gs_tracker := unregister (req_RequestId (handler_req i s)) (gs_tracker s)\<rparr>))"
proof -
  have rf: "refs_ok s" and ow: "owners_ok s" using assms(1) by (auto simp: gs_inv_def)
  let ?id = "req_RequestId (handler_req i s)" and ?t = "gs_tracker s"
  let ?t' = "unregister ?id ?t"
  let ?s = "set_handler i (HDone out) (s\<lparr>gs_tracker := ?t'\<rparr>)"
  have own: "requests ?t ?id = Some p" using owners_okD(1) [OF ow assms(2), of p] by simp
  have alone: "handlers_but (holding p) i s = 0" using nobody_waits(2) [OF ow assms(2), of p] by simp
  have h: "handler_at i (HReturning p out) (s\<lparr>gs_tracker := ?t'\<rparr>)" using assms(2) by simp
  have "owner_ok ?t' (gs_handlers ?s ! j)" if "j < length (gs_handlers ?s)" for j
  proof (cases "j = i")
    case True
    then show ?thesis using that by (simp add: set_handler_def owner_ok_def)
  next
    case False
    then have j: "j < length (gs_handlers s)" "gs_handlers ?s ! j = gs_handlers s ! j"
      using that by (auto simp: set_handler_def)
    have "\<not> holding p (gh_pc (gs_handlers s ! j))"
      using count_others_zero [OF alone [unfolded handlers_but_def] j(1) False] .
    moreover have "owner_ok ?t (gs_handlers s ! j)" using ow j(1) by (simp add: owners_ok_def)
    ultimately show ?thesis using own j(2) by (fastforce simp: owner_ok_def)
  qed
  then have "\<forall>h \<in> set (gs_handlers ?s). owner_ok ?t' h" by (metis in_set_conv_nth)
  moreover have "ran (requests ?t') = ran (requests ?t) - {p}"
  proof -
    have "(\<exists>j. j \<noteq> ?id \<and> requests ?t j = Some q) \<longleftrightarrow> (\<exists>j. requests ?t j = Some q) \<and> q \<noteq> p" for q
      using rf own tracker_wfD(2) [of ?t] unfolding refs_ok_def by (metis option.inject)
    then show ?thesis by (auto simp: ran_def)
  qed
  moreover have "handlers_at (holding q) ?s + of_bool (q = p) = handlers_at (holding q) s" for q
    using handlers_at_split [OF h, of "holding q"] by (simp add: handlers_at_set [OF h])
  then have "handlers_at (holding q) ?s + of_bool (q = p) = of_bool (q \<in> ran (requests ?t))" for q
    using ow by (simp add: owners_ok_def)
  note sum = this
  have "handlers_at (holding q) ?s = of_bool (q \<in> ran (requests ?t) \<and> q \<noteq> p)" for q
    by (cases "q = p"; cases "q \<in> ran (requests ?t)") (use sum [of q] in simp_all)
  ultimately show ?thesis unfolding owners_ok_def by simp
qed

lemma owners_ok_step:
  assumes "gs_inv s" and "gs_step s l t"
  shows "owners_ok t"
proof -
  have rf: "refs_ok s" and ow: "owners_ok s" using assms(1) by (auto simp: gs_inv_def)
  from assms(2) show ?thesis
  proof cases
    case (gs_arrive req)
    with ow show ?thesis by (auto simp: owners_ok_def handlers_at_def owner_ok_def)
  next
    case (gs_no_id i)
    show ?thesis unfolding gs_no_id(2) by (rule owners_ok_move [OF ow gs_no_id(3)]) simp
  next
    case (gs_no_worker i draw err)
    show ?thesis unfolding gs_no_worker(2) by (rule owners_ok_move [OF ow gs_no_worker(3)]) simp
  next
    case (gs_pick i draw w)
    show ?thesis unfolding gs_pick(2) by (rule owners_ok_move [OF ow gs_pick(3)]) simp
  next
    case (gs_duplicate i w err t')
    then have "s\<lparr>gs_tracker := t'\<rparr> = s" by (simp add: register_Inl)
    then show ?thesis unfolding gs_duplicate(2) using owners_ok_move [OF ow gs_duplicate(3)] by simp
  next
    case (gs_register i w p t')
    show ?thesis unfolding gs_register(2) by (rule owners_ok_register [OF assms(1) gs_register(3,4)])
  next
    case (gs_launch i p w)
    have "owners_ok (set_handler i (HWaiting p) s)" by (rule owners_ok_move [OF ow gs_launch(3)]) simp
    then show ?thesis unfolding gs_launch(2) by (rule owners_ok_frame) (auto simp: extends_def)
  next
    case (gs_receive i p ih r ih')
    have "owners_ok (set_handler i (HReturning p (outcome_of r)) s)"
      by (rule owners_ok_move [OF ow gs_receive(3)]) simp
    then show ?thesis unfolding gs_receive(2)
      by (rule owners_ok_frame) (use gs_receive(4) take_result_req [OF gs_receive(5)] in \<open>auto simp: extends_def\<close>)
  next
    case (gs_give_up i p e)
    show ?thesis unfolding gs_give_up(2) by (rule owners_ok_move [OF ow gs_give_up(3)]) simp
  next
    case (gs_return i p out)
    show ?thesis unfolding gs_return(2) by (rule owners_ok_return [OF assms(1) gs_return(3)])
  next
    case (gs_attempt i p pc ih ih' pc')
    show ?thesis unfolding gs_attempt(1)
      by (rule owners_ok_frame [OF ow])
        (use gs_attempt(4) attempt_step_req [OF gs_attempt(5)] in \<open>auto simp: extends_def\<close>)
  next
    case (gs_poll_claim departed healthy ks draws t' jobs overBudget)
    have wf: "tracker_wf (gs_tracker s)" using rf by (simp add: refs_ok_def)
    note sp = reroute_claim_spec [OF wf gs_poll_claim(4,5)]
    show ?thesis unfolding gs_poll_claim(2)
      by (rule owners_ok_frame [OF ow]) (use sp(1) in \<open>auto simp: extends_def sp(5)\<close>)
  next
    case (gs_poll_fire j js)
    then show ?thesis using ow by (auto intro!: owners_ok_frame [OF ow] simp: extends_def)
  qed (use ow in \<open>auto intro!: owners_ok_frame [OF ow] simp: extends_def\<close>)
qed

lemma gs_inv_step: "gs_inv s \<Longrightarrow> gs_step s l t \<Longrightarrow> gs_inv t"
  by (simp add: gs_inv_def [of t] refs_ok_step records_ok_step owners_ok_step)

lemma gs_inv_init: "gs_init s \<Longrightarrow> gs_inv s"
  by (auto simp: gs_init_def gateway_new_def gs_inv_def refs_ok_def records_ok_def owners_ok_def
      handlers_at_def NewRequestTracker_def tracker_wf_def)

interpretation gs: state_invariant gs_init gs_step gs_inv
  by unfold_locales (auto intro: gs_inv_init gs_inv_step)

end
