(* ===== verification/Gateway_Traces.thy ===== *)
theory Gateway_Traces
  imports Gateway_Invariant
begin

text \<open>
  What the executions of the running gateway show: how often workers are called for a request, how
  often a race is won, and where the answers come from. A trace is the list of the labels.
\<close>

section \<open>Counting calls and wins\<close>

fun is_call :: "ptr \<Rightarrow> gs_label \<Rightarrow> bool" where
  "is_call p (LCall q w req) = (q = p)"
| "is_call p l = False"

fun is_win :: "ptr \<Rightarrow> gs_label \<Rightarrow> bool" where
  "is_win p (LWin q r) = (q = p)"
| "is_win p l = False"

text \<open>A call fails when its reply is a retryable error; a call that has not failed is in the air, or its attempt offers what it got.\<close>

fun is_failure :: "ptr \<Rightarrow> gs_label \<Rightarrow> bool" where
  "is_failure p (LReply q w (Inl e)) = (q = p \<and> retryable e)"
| "is_failure p l = False"

fun unfailed :: "attempt_pc \<Rightarrow> bool" where
  "unfailed (AAir w) = True"
| "unfailed (AFailed w e) = (\<not> retryable e)"
| "unfailed (ASettle r) = True"
| "unfailed pc = False"

definition trace_counts :: "gs_label list \<Rightarrow> gateway_system \<Rightarrow> ptr \<Rightarrow> bool" where
  "trace_counts ls s p \<longleftrightarrow> (case heap (gs_tracker s) p of
      None \<Rightarrow> count_if (is_call p) ls = 0 \<and> count_if (is_win p) ls = 0 \<and> count_if (is_failure p) ls = 0
    | Some ih \<Rightarrow> int (count_if (is_call p) ls + attempts_at uncalled p s + owed p s) = dispatched ih
        \<and> count_if (is_win p) ls = of_bool (claimed ih)
        \<and> (claimed ih \<or> count_if (is_call p) ls = count_if (is_failure p) ls + attempts_at unfailed p s))"

lemma attempt_step_calls:
  assumes "attempt_step view p ih pc l ih' pc'"
  shows "of_bool (is_call p l) + of_bool (uncalled pc') + dispatched ih = dispatched ih' + of_bool (uncalled pc)"
    and "of_bool (is_win p l) + of_bool (claimed ih) = (of_bool (claimed ih') :: nat)"
    and "is_call q l \<Longrightarrow> q = p" and "is_win q l \<Longrightarrow> q = p" and "is_failure q l \<Longrightarrow> q = p"
    and "claimed ih \<Longrightarrow> claimed ih'"
    and "\<not> claimed ih' \<Longrightarrow> of_bool (is_call p l) + of_bool (unfailed pc) = (of_bool (is_failure p l) + of_bool (unfailed pc') :: nat)"
proof -
  have "of_bool (is_call p l) + of_bool (uncalled pc') + dispatched ih = dispatched ih' + of_bool (uncalled pc)
      \<and> of_bool (is_win p l) + of_bool (claimed ih) = (of_bool (claimed ih') :: nat)
      \<and> (is_call q l \<longrightarrow> q = p) \<and> (is_win q l \<longrightarrow> q = p) \<and> (is_failure q l \<longrightarrow> q = p) \<and> (claimed ih \<longrightarrow> claimed ih')
      \<and> (\<not> claimed ih' \<longrightarrow> of_bool (is_call p l) + of_bool (unfailed pc) = (of_bool (is_failure p l) + of_bool (unfailed pc') :: nat))"
    using assms
  proof cases
    case (as_replace w candidates draw replacement ex d err)
    then show ?thesis using locked_frame [OF as_replace(4)] locked_replaced [OF as_replace(4)] by simp
  next
    case (as_exhaust w candidates draw d err)
    then show ?thesis using locked_frame [OF as_exhaust(4)] locked_not_replaced [OF as_exhaust(4)] by simp
  next
    case (as_over w candidates draw d err)
    then show ?thesis using locked_frame [OF as_over(4)] locked_not_replaced [OF as_over(4)] by simp
  qed (auto simp: cas_claim_def split: if_splits)
  then show "of_bool (is_call p l) + of_bool (uncalled pc') + dispatched ih = dispatched ih' + of_bool (uncalled pc)"
    "of_bool (is_win p l) + of_bool (claimed ih) = (of_bool (claimed ih') :: nat)"
    "is_call q l \<Longrightarrow> q = p" "is_win q l \<Longrightarrow> q = p" "is_failure q l \<Longrightarrow> q = p" "claimed ih \<Longrightarrow> claimed ih'"
    "\<not> claimed ih' \<Longrightarrow> of_bool (is_call p l) + of_bool (unfailed pc) = (of_bool (is_failure p l) + of_bool (unfailed pc') :: nat)"
    by blast+
qed

text \<open>Steps of handlers and the poll neither call nor win; what matters is the record and the debt.\<close>

lemma trace_counts_quiet:
  assumes "trace_counts ls s p" and "\<not> is_call p l" and "\<not> is_win p l" and "\<not> is_failure p l"
    and "map_option (\<lambda>ih. (dispatched ih, claimed ih)) (heap (gs_tracker t) p)
       = map_option (\<lambda>ih. (dispatched ih, claimed ih)) (heap (gs_tracker s) p)"
    and "attempts_at uncalled p t + owed p t = attempts_at uncalled p s + owed p s"
    and "attempts_at unfailed p t = attempts_at unfailed p s"
  shows "trace_counts (ls @ [l]) t p"
proof (cases "heap (gs_tracker s) p")
  case None
  then show ?thesis using assms by (simp add: trace_counts_def)
next
  case (Some ih)
  then obtain ih' where ih': "heap (gs_tracker t) p = Some ih'" "dispatched ih' = dispatched ih"
      "claimed ih' = claimed ih"
    using assms(5) by (cases "heap (gs_tracker t) p") auto
  show ?thesis using assms(1,2,3,4,6,7) by (simp add: trace_counts_def Some ih' flip: of_nat_add add.assoc)
qed

lemma trace_counts_attempt:
  assumes tc: "trace_counts ls s p" and at: "i < length (gs_attempts s)" "gs_attempts s ! i = \<lparr>ga_ih = q, ga_pc = pc\<rparr>"
    and q: "heap (gs_tracker s) q = Some ih" and step: "attempt_step (gs_view s) q ih pc l ih' pc'"
  shows "trace_counts (ls @ [l]) (set_record q ih' (set_attempt i pc' s)) p" (is "trace_counts _ ?t p")
proof (cases "p = q")
  case True
  note split = attempts_at_split [OF at] attempts_at_set [OF at] and st = attempt_step_calls [OF step]
  have cs: "count_if P (ls @ [l]) = count_if P ls + of_bool (P l)" for P :: "gs_label \<Rightarrow> bool" by simp
  have "int (count_if (is_call p) ls) + int (attempts_but uncalled p i s) + of_bool (uncalled pc)
      + int (owed p s) = dispatched ih" and wins: "count_if (is_win p) ls = of_bool (claimed ih)"
    and failed: "claimed ih \<or> count_if (is_call p) ls = count_if (is_failure p) ls + (attempts_but unfailed p i s + of_bool (unfailed pc))"
    using tc q True by (simp_all add: trace_counts_def split)
  with st(1) True have "int (count_if (is_call p) ls) + of_bool (is_call p l)
      + int (attempts_but uncalled p i s) + of_bool (uncalled pc') + int (owed p s) = dispatched ih'"
    by simp
  moreover have "attempts_at uncalled p ?t = attempts_but uncalled p i s + of_bool (uncalled pc')" "owed p ?t = owed p s"
    using True by (simp_all add: split)
  moreover have "claimed ih' \<or> count_if (is_call p) (ls @ [l]) = count_if (is_failure p) (ls @ [l]) + attempts_at unfailed p ?t"
  proof (cases "claimed ih'")
    case False
    moreover from this have "\<not> claimed ih" using st(6) by blast
    ultimately show ?thesis using failed st(7) True by (simp add: split cs del: count_if_append)
  qed simp
  ultimately show ?thesis using wins st(2) True by (simp add: trace_counts_def cs del: count_if_append)
next
  case False
  then show ?thesis
    by (intro trace_counts_quiet [OF tc])
      (use attempt_step_calls(3,4,5) [OF step] in \<open>auto simp: attempts_at_split [OF at] attempts_at_set [OF at]\<close>)
qed

lemma trace_counts_step:
  assumes inv: "gs_inv s" and step: "gs_step s l t" and tc: "trace_counts ls s p"
  shows "trace_counts (ls @ [l]) t p"
  using inv step
proof (cases rule: gs_step_kinds)
  case quiet
  then show ?thesis by (intro trace_counts_quiet [OF tc]) (auto simp: attempts_at_def)
next
  case (launched q w)
  then show ?thesis using launched(4) [of p] by (intro trace_counts_quiet [OF tc]) (auto simp: attempts_at_def)
next
  case (received q ih r ih')
  then show ?thesis by (intro trace_counts_quiet [OF tc]) (auto simp: attempts_at_def take_result_def)
next
  case (registered q req wid)
  show ?thesis
  proof (cases "p = q")
    case True
    then show ?thesis
      using tc registered unborn(1,3) [OF inv registered(2)] by (simp add: trace_counts_def attempts_at_def)
  next
    case False
    then show ?thesis using registered by (intro trace_counts_quiet [OF tc]) (auto simp: attempts_at_def)
  qed
next
  case (claimed d tgt)
  show ?thesis
  proof (cases "heap (gs_tracker s) p")
    case None
    then show ?thesis using tc claimed(1,4) by (simp add: trace_counts_def)
  next
    case (Some ih)
    then show ?thesis
      using tc claimed(1,2) claimed(3,5) [OF Some] by (auto simp: trace_counts_def attempts_at_def)
  qed
next
  case (attempted i q pc ih ih' pc')
  show ?thesis unfolding attempted(5) by (rule trace_counts_attempt [OF tc attempted(1-4)])
qed

definition counts_inv :: "gs_label list \<Rightarrow> gateway_system \<Rightarrow> bool" where
  "counts_inv ls s \<longleftrightarrow> gs_inv s \<and> (\<forall>p. trace_counts ls s p)"

interpretation gs_counts: trace_invariant gs_init gs_step counts_inv
proof unfold_locales
  show "counts_inv [] s" if "gs_init s" for s
    using gs_inv_init [OF that] that
    by (simp add: counts_inv_def trace_counts_def gs_init_def gateway_new_def NewRequestTracker_def)
  show "counts_inv (ls @ [l]) t" if "counts_inv ls s" "gs_step s l t" for ls l s t
    using that gs_inv_step trace_counts_step unfolding counts_inv_def by blast
qed

section \<open>Where results come from\<close>

text \<open>
  The exhaustion report for the record \<open>p\<close> with request \<open>q\<close>: at some moment (after \<open>ls1\<close>) every call made for the record had failed with a
  retryable error, \<open>e\<close> from the worker \<open>w\<close> among them, and the report counts those calls.
\<close>

definition exhausted_after :: "gs_label list \<Rightarrow> ptr \<Rightarrow> inference_request \<Rightarrow> wire_worker \<Rightarrow> go_error \<Rightarrow> int \<Rightarrow> bool" where
  "exhausted_after ls p q w e d \<longleftrightarrow> (\<exists>ls1 ls2. ls = ls1 @ ls2 \<and> LCall p w q \<in> set ls1 \<and> LReply p w (Inl e) \<in> set ls1 \<and> retryable e
     \<and> count_if (is_failure p) ls1 = count_if (is_call p) ls1 \<and> d = int (count_if (is_call p) ls1) \<and> d \<le> maxAttempts)"

lemma exhausted_after_mono: "exhausted_after ls p q w e d \<Longrightarrow> exhausted_after (ls @ [l]) p q w e d"
  unfolding exhausted_after_def by (metis append.assoc)

lemma exhausted_after_call: "exhausted_after ls p q w e d \<Longrightarrow> LCall p w q \<in> set ls"
  by (auto simp: exhausted_after_def)

text \<open>
  A sound result for the request \<open>q\<close> of the record \<open>p\<close>: some worker was called with exactly that request,
  and the result is its answer, its terminal error, or the exhaustion report after a retryable error of it.
\<close>

definition sound_result :: "gs_label list \<Rightarrow> ptr \<Rightarrow> inference_request \<Rightarrow> attempt_result \<Rightarrow> bool" where
  "sound_result ls p q r \<longleftrightarrow> (\<exists>w. LCall p w q \<in> set ls
     \<and> ((\<exists>resp. LReply p w (Inr resp) \<in> set ls \<and> r = success_result w resp)
      \<or> (\<exists>e. LReply p w (Inl e) \<in> set ls \<and> \<not> retryable e \<and> r = error_result w e)
      \<or> (\<exists>e d. exhausted_after ls p q w e d \<and> r = error_result w (exhausted_error d e))))"

text \<open>Once the race is decided a report that is still on its way cannot win, and need not be sound.\<close>

fun pc_origin :: "gs_label list \<Rightarrow> ptr \<Rightarrow> inflight \<Rightarrow> attempt_pc \<Rightarrow> bool" where
  "pc_origin ls p ih (AStart w) = True"
| "pc_origin ls p ih (AAir w) = (LCall p w (ih_req ih) \<in> set ls)"
| "pc_origin ls p ih (AFailed w e) = (LCall p w (ih_req ih) \<in> set ls \<and> LReply p w (Inl e) \<in> set ls)"
| "pc_origin ls p ih (ARetry w e) = (LCall p w (ih_req ih) \<in> set ls \<and> LReply p w (Inl e) \<in> set ls \<and> retryable e)"
| "pc_origin ls p ih (ACands w e cs) = (LCall p w (ih_req ih) \<in> set ls \<and> LReply p w (Inl e) \<in> set ls \<and> retryable e)"
| "pc_origin ls p ih (AExhaust r) = (claimed ih \<or> sound_result ls p (ih_req ih) r)"
| "pc_origin ls p ih (ASettle r) = sound_result ls p (ih_req ih) r"
| "pc_origin ls p ih (ASend r) = (sound_result ls p (ih_req ih) r \<and> LWin p r \<in> set ls)"
| "pc_origin ls p ih ADone = True"

definition won_result :: "gs_label list \<Rightarrow> ptr \<Rightarrow> inference_request \<Rightarrow> attempt_result \<Rightarrow> bool" where
  "won_result ls p q r \<longleftrightarrow> sound_result ls p q r \<and> LWin p r \<in> set ls"

text \<open>What a handler that was admitted may return, how a handler refuses a request, and what any handler may return.\<close>

definition admitted_outcome :: "gs_label list \<Rightarrow> ptr \<Rightarrow> inference_request \<Rightarrow> outcome \<Rightarrow> bool" where
  "admitted_outcome ls p q out \<longleftrightarrow>
     (\<exists>r. won_result ls p q r \<and> out = outcome_of r) \<or> (\<exists>c. out = Inl (from_context_error c))"

definition refusal :: "inference_request \<Rightarrow> outcome \<Rightarrow> bool" where
  "refusal q out \<longleftrightarrow> req_RequestId q = '''' \<and> out = Inl missing_id_error
     \<or> out = Inl (GoError Unavailable ''no healthy workers available'' [])
     \<or> out = Inl (GoError AlreadyExists ''request %s already in flight'' [ArgString (req_RequestId q)])"

definition any_outcome :: "gs_label list \<Rightarrow> inference_request \<Rightarrow> outcome \<Rightarrow> bool" where
  "any_outcome ls q out \<longleftrightarrow> refusal q out \<or> (\<exists>p. admitted_outcome ls p q out)"

definition origins_ok :: "gs_label list \<Rightarrow> gateway_system \<Rightarrow> bool" where
  "origins_ok ls s \<longleftrightarrow>
     (\<forall>a \<in> set (gs_attempts s). \<forall>ih. heap (gs_tracker s) (ga_ih a) = Some ih \<longrightarrow> pc_origin ls (ga_ih a) ih (ga_pc a))
     \<and> (\<forall>p ih r. heap (gs_tracker s) p = Some ih \<longrightarrow> r \<in> set (ih_result ih) \<longrightarrow> won_result ls p (ih_req ih) r)
     \<and> (\<forall>h \<in> set (gs_handlers s). \<forall>p out. gh_pc h = HReturning p out \<longrightarrow> admitted_outcome ls p (gh_req h) out)
     \<and> (\<forall>q out. LReturn q out \<in> set ls \<longrightarrow> any_outcome ls q out)"

lemma sound_resultI:
  "LCall p w q \<in> set ls \<Longrightarrow> LReply p w (Inr resp) \<in> set ls \<Longrightarrow> sound_result ls p q (success_result w resp)"
  "LCall p w q \<in> set ls \<Longrightarrow> LReply p w (Inl e) \<in> set ls \<Longrightarrow> \<not> retryable e \<Longrightarrow>
     sound_result ls p q (error_result w e)"
  "exhausted_after ls p q w e d \<Longrightarrow> sound_result ls p q (error_result w (exhausted_error d e))"
  unfolding sound_result_def using exhausted_after_call by blast+

lemma sound_result_mono: "sound_result ls p q r \<Longrightarrow> sound_result (ls @ [l]) p q r"
  unfolding sound_result_def by (fastforce intro: exhausted_after_mono)

lemma origin_mono:
  "pc_origin ls p ih pc \<Longrightarrow> pc_origin (ls @ [l]) p ih pc"
  "won_result ls p q r \<Longrightarrow> won_result (ls @ [l]) p q r"
  "admitted_outcome ls p q out \<Longrightarrow> admitted_outcome (ls @ [l]) p q out"
  "any_outcome ls q out \<Longrightarrow> any_outcome (ls @ [l]) q out"
proof -
  show w: "won_result ls p q r \<Longrightarrow> won_result (ls @ [l]) p q r" for p r
    by (auto simp: won_result_def intro: sound_result_mono)
  show "pc_origin ls p ih pc \<Longrightarrow> pc_origin (ls @ [l]) p ih pc"
    by (cases pc) (auto intro: sound_result_mono)
  show a: "admitted_outcome ls p q out \<Longrightarrow> admitted_outcome (ls @ [l]) p q out" for p
    unfolding admitted_outcome_def using w by blast
  show "any_outcome ls q out \<Longrightarrow> any_outcome (ls @ [l]) q out"
    unfolding any_outcome_def using a by blast
qed

lemma pc_origin_later:
  "pc_origin ls p ih pc \<Longrightarrow> ih_req ih' = ih_req ih \<Longrightarrow> claimed ih \<longrightarrow> claimed ih' \<Longrightarrow> pc_origin ls p ih' pc"
  by (cases pc) auto

text \<open>The moment of an exhaustion report: nobody else is at work on the record, so all its calls have failed.\<close>

lemma report_is_sound:
  assumes inv: "gs_inv s" and counts: "trace_counts ls s p"
    and at: "i < length (gs_attempts s)" "gs_attempts s ! i = \<lparr>ga_ih = p, ga_pc = ACands w e cs\<rparr>"
    and ih: "heap (gs_tracker s) p = Some ih" and undecided: "\<not> claimed ih"
    and locked: "attempt_failed_locked wid cs draw ih = (ih', None, True, d)" and orig: "pc_origin ls p ih (ACands w e cs)"
  shows "exhausted_after ls p (ih_req ih) w e d"
proof -
  have ok: "record_ok ih (live p s) (attempts_at exhausting p s) (attempts_at sending p s) (0 < handlers_at (expecting p) s)"
    using inv records_okD [OF _ ih] by (simp add: gs_inv_def)
  have "attempts ih = 1" "d = dispatched ih" using locked_frame(5,6) [OF locked] locked_not_replaced(1,2) [OF locked] by simp_all
  with ok undecided have "live p s = 1" "d \<le> maxAttempts" by (simp_all add: record_ok_def)
  then have alone: "attempts_but counted p i s = 0" "owed p s = 0" by (simp_all add: live_split_attempt(1) [OF at])
  have "attempts_but P p i s = 0" if "\<And>pc. P pc \<Longrightarrow> counted pc" for P
  proof -
    have "attempts_but P p i s \<le> attempts_but counted p i s"
      unfolding attempts_but_def count_others_def using that by (intro count_if_mono) auto
    with alone(1) show ?thesis by simp
  qed
  moreover have "counted pc" if "uncalled pc \<or> unfailed pc" for pc using that by (cases pc) auto
  ultimately have "attempts_but uncalled p i s = 0" "attempts_but unfailed p i s = 0" by blast+
  then have "attempts_at uncalled p s = 0" "attempts_at unfailed p s = 0" by (simp_all add: attempts_at_split [OF at])
  with counts ih undecided alone(2) have "count_if (is_failure p) ls = count_if (is_call p) ls" "dispatched ih = int (count_if (is_call p) ls)"
    by (simp_all add: trace_counts_def)
  then show ?thesis
    unfolding exhausted_after_def using orig \<open>d = dispatched ih\<close> \<open>d \<le> maxAttempts\<close> by (intro exI [of _ ls] exI [of _ "[]"]) simp
qed

lemma attempt_step_origin:
  assumes "attempt_step view p ih pc l ih' pc'" and "pc_origin ls p ih pc"
    and "\<forall>r \<in> set (ih_result ih). won_result ls p (ih_req ih) r"
    and report: "\<And>w e cs wid draw ih' d. pc = ACands w e cs \<Longrightarrow> \<not> claimed ih \<Longrightarrow>
      attempt_failed_locked wid cs draw ih = (ih', None, True, d) \<Longrightarrow> exhausted_after ls p (ih_req ih) w e d"
  shows "pc_origin (ls @ [l]) p ih' pc'"
    and "\<forall>r \<in> set (ih_result ih'). won_result (ls @ [l]) p (ih_req ih) r"
    and "l \<noteq> LReturn q out"
proof -
  have old: "pc_origin (ls @ [l]) p ih pc" "\<forall>r \<in> set (ih_result ih). won_result (ls @ [l]) p (ih_req ih) r"
    using assms(2,3) origin_mono(1,2) by auto
  have "pc_origin (ls @ [l]) p ih' pc' \<and> (\<forall>r \<in> set (ih_result ih'). won_result (ls @ [l]) p (ih_req ih) r)
      \<and> l \<noteq> LReturn q out"
    using assms(1)
  proof cases
    case (as_replace w candidates draw replacement ex d err)
    then show ?thesis using old locked_frame [OF as_replace(4)] by simp
  next
    case (as_exhaust w candidates draw d err)
    show ?thesis
      using old locked_frame(1-3) [OF as_exhaust(4)] exhausted_after_mono [OF report [OF as_exhaust(1) _ as_exhaust(4)]] as_exhaust(2,3)
      by (auto intro!: sound_resultI(3))
  next
    case (as_over w candidates draw d err)
    then show ?thesis using old locked_frame [OF as_over(4)] by simp
  next
    case (as_success w resp)
    then show ?thesis using old by (auto intro!: sound_resultI)
  next
    case (as_terminal w err)
    then show ?thesis using old by (auto intro!: sound_resultI)
  next
    case (as_win r)
    then show ?thesis using old by (auto simp: cas_claim_def split: if_splits)
  next
    case (as_lose r)
    then show ?thesis using old by (auto simp: cas_claim_def split: if_splits)
  next
    case (as_send r)
    then show ?thesis using old by (auto simp: won_result_def)
  qed (use old in auto)
  then show "pc_origin (ls @ [l]) p ih' pc'"
    "\<forall>r \<in> set (ih_result ih'). won_result (ls @ [l]) p (ih_req ih) r" "l \<noteq> LReturn q out" by auto
qed

lemma origins_okD:
  assumes "origins_ok ls s"
  shows "a \<in> set (gs_attempts s) \<Longrightarrow> heap (gs_tracker s) (ga_ih a) = Some ih \<Longrightarrow>
      pc_origin ls (ga_ih a) ih (ga_pc a)"
    and "heap (gs_tracker s) p = Some ih \<Longrightarrow> r \<in> set (ih_result ih) \<Longrightarrow> won_result ls p (ih_req ih) r"
    and "h \<in> set (gs_handlers s) \<Longrightarrow> gh_pc h = HReturning p out \<Longrightarrow> admitted_outcome ls p (gh_req h) out"
    and "LReturn q out \<in> set ls \<Longrightarrow> any_outcome ls q out"
  using assms by (auto simp: origins_ok_def)

lemma extendsD:
  assumes "extends t t'" and "heap t p = Some ih" and "heap t' p = Some ih'"
  shows "ih_req ih' = ih_req ih"
proof -
  obtain ih'' where "heap t' p = Some ih''" "ih_req ih'' = ih_req ih"
    using assms(1,2) unfolding extends_def by blast
  with assms(3) show ?thesis by simp
qed

lemma origins_ok_quiet:
  assumes og: "origins_ok ls s" and rf: "refs_ok s" and ext: "extends (gs_tracker s) (gs_tracker t)"
    and latch: "\<And>p ih ih'. heap (gs_tracker s) p = Some ih \<Longrightarrow> heap (gs_tracker t) p = Some ih' \<Longrightarrow> claimed ih \<Longrightarrow> claimed ih'"
    and at: "\<And>a. a \<in> set (gs_attempts t) \<Longrightarrow> a \<in> set (gs_attempts s) \<or> (\<exists>w. ga_pc a = AStart w)"
    and res: "\<And>p ih'. heap (gs_tracker t) p = Some ih' \<Longrightarrow> ih_result ih' \<noteq> [] \<Longrightarrow>
        \<exists>ih. heap (gs_tracker s) p = Some ih \<and> ih_result ih' = ih_result ih"
    and hs: "\<And>h p out. h \<in> set (gs_handlers t) \<Longrightarrow> gh_pc h = HReturning p out \<Longrightarrow>
        h \<in> set (gs_handlers s) \<or> admitted_outcome (ls @ [l]) p (gh_req h) out"
    and lb: "\<And>q out. l = LReturn q out \<Longrightarrow> any_outcome (ls @ [l]) q out"
  shows "origins_ok (ls @ [l]) t"
  unfolding origins_ok_def
proof (intro conjI ballI allI impI)
  fix a ih' assume a: "a \<in> set (gs_attempts t)" and ih': "heap (gs_tracker t) (ga_ih a) = Some ih'"
  show "pc_origin (ls @ [l]) (ga_ih a) ih' (ga_pc a)"
  proof (cases "a \<in> set (gs_attempts s)")
    case True
    then obtain ih where ih: "heap (gs_tracker s) (ga_ih a) = Some ih" using rf by (auto simp: refs_ok_def)
    then show ?thesis
      using pc_origin_later [OF origin_mono(1) [OF origins_okD(1) [OF og True ih]]] extendsD [OF ext ih ih'] latch [OF ih ih'] by blast
  next
    case False
    with at [OF a] show ?thesis by auto
  qed
next
  fix p ih' r assume p: "heap (gs_tracker t) p = Some ih'" "r \<in> set (ih_result ih')"
  then obtain ih where ih: "heap (gs_tracker s) p = Some ih" "ih_result ih' = ih_result ih"
    using res [OF p(1)] by fastforce
  then have "ih_req ih' = ih_req ih" using extendsD [OF ext] p(1) by blast
  with origins_okD(2) [OF og ih(1)] ih(2) p(2) show "won_result (ls @ [l]) p (ih_req ih') r"
    by (simp add: origin_mono(2))
next
  fix h p out assume "h \<in> set (gs_handlers t)" "gh_pc h = HReturning p out"
  with hs [OF this] show "admitted_outcome (ls @ [l]) p (gh_req h) out"
    using origins_okD(3) [OF og] origin_mono(3) by blast
next
  fix q out assume "LReturn q out \<in> set (ls @ [l])"
  then show "any_outcome (ls @ [l]) q out"
    using lb origins_okD(4) [OF og] origin_mono(4) by fastforce
qed

lemma in_set_handler:
  "h \<in> set (gs_handlers (set_handler i pc s)) \<Longrightarrow>
     h \<in> set (gs_handlers s) \<or> h = \<lparr>gh_req = handler_req i s, gh_pc = pc\<rparr>"
  by (auto simp: set_handler_def dest!: set_update_subset_insert [THEN subsetD])

lemma extends_refl: "extends t t"
  by (simp add: extends_def)

lemma refusal_outcomes:
  "req_RequestId q = '''' \<Longrightarrow> refusal q (Inl missing_id_error)" "pickWorker draw view = Inl e \<Longrightarrow> refusal q (Inl e)"
  "register q w t = (Inl e, t') \<Longrightarrow> refusal q (Inl e)"
  by (auto simp: refusal_def pickWorker_def register_Inl split: if_splits)

lemma origins_ok_attempt:
  assumes inv: "gs_inv s" and tc: "trace_counts ls s p" and og: "origins_ok ls s" and at: "i < length (gs_attempts s)" "gs_attempts s ! i = \<lparr>ga_ih = p, ga_pc = pc\<rparr>"
    and rec: "heap (gs_tracker s) p = Some ih" and step: "attempt_step (gs_view s) p ih pc l ih' pc'"
  shows "origins_ok (ls @ [l]) (set_record p ih' (set_attempt i pc' s))"
proof -
  have in_s: "\<lparr>ga_ih = p, ga_pc = pc\<rparr> \<in> set (gs_attempts s)" using at by (metis nth_mem)
  have orig: "pc_origin ls p ih pc" using origins_okD(1) [OF og in_s] rec by simp
  have won: "\<forall>r \<in> set (ih_result ih). won_result ls p (ih_req ih) r"
    using origins_okD(2) [OF og rec] by blast
  have report: "exhausted_after ls p (ih_req ih) w e d"
    if "pc = ACands w e cs" "\<not> claimed ih" "attempt_failed_locked wid cs draw ih = (ih2, None, True, d)" for w e cs wid draw ih2 d
    using report_is_sound [OF inv tc at(1) _ rec that(2,3)] at(2) orig that(1) by blast
  note origin = attempt_step_origin [OF step orig won report] and req = attempt_step_req [OF step]
  let ?t = "set_record p ih' (set_attempt i pc' s)"
  have "pc_origin (ls @ [l]) (ga_ih a) iha (ga_pc a)"
    if a: "a \<in> set (gs_attempts ?t)" "heap (gs_tracker ?t) (ga_ih a) = Some iha" for a iha
  proof -
    have "a \<in> set (gs_attempts s) \<or> a = \<lparr>ga_ih = p, ga_pc = pc'\<rparr>"
      using a(1) at(2) by (auto simp: set_attempt_def dest!: set_update_subset_insert [THEN subsetD])
    then show ?thesis
    proof
      assume "a = \<lparr>ga_ih = p, ga_pc = pc'\<rparr>"
      then show ?thesis using origin(1) a(2) req by simp
    next
      assume as: "a \<in> set (gs_attempts s)"
      obtain ih0 where "heap (gs_tracker s) (ga_ih a) = Some ih0" "ih_req iha = ih_req ih0" "claimed ih0 \<longrightarrow> claimed iha"
        using a(2) rec req attempt_step_calls(6) [OF step] by (cases "ga_ih a = p") auto
      then show ?thesis using pc_origin_later [OF origin_mono(1) [OF origins_okD(1) [OF og as]]] by blast
    qed
  qed
  moreover have "won_result (ls @ [l]) q (ih_req ihq) r"
    if "heap (gs_tracker ?t) q = Some ihq" "r \<in> set (ih_result ihq)" for q ihq r
    using that origin(2) req origins_okD(2) [OF og] origin_mono(2) by (cases "q = p") auto
  moreover have "any_outcome (ls @ [l]) q out" if "LReturn q out \<in> set (ls @ [l])" for q out
    using that origin(3) origins_okD(4) [OF og] origin_mono(4) by fastforce
  moreover have "admitted_outcome (ls @ [l]) q (gh_req h) out"
    if "h \<in> set (gs_handlers ?t)" "gh_pc h = HReturning q out" for h q out
    using that origins_okD(3) [OF og] origin_mono(3) by simp
  ultimately show ?thesis unfolding origins_ok_def by blast
qed

text \<open>What a handler takes from its channel was put there by an attempt for its request, and nothing is left behind.\<close>

lemma received_origin:
  assumes inv: "gs_inv s" and og: "origins_ok ls s" and at: "handler_at i (HWaiting p) s"
    and ih: "heap (gs_tracker s) p = Some ih" and tk: "take_result ih = Some (r, ih')"
  shows "ih_result ih' = []" and "won_result ls p (handler_req i s) r"
proof -
  have "ih_result ih = r # ih_result ih'" "length (ih_result ih) \<le> 1"
    using tk records_okD [OF _ ih] inv by (auto simp: take_result_def gs_inv_def record_ok_def dest!: records_okD [OF _ ih])
  then have "ih_result ih' = []" and r: "r \<in> set (ih_result ih)" by auto
  then show "ih_result ih' = []" by simp
  have "owners_ok s" using inv by (simp add: gs_inv_def)
  from owners_okD(2) [OF this at, of p] ih have "handler_req i s = ih_req ih" by simp
  then show "won_result ls p (handler_req i s) r" using origins_okD(2) [OF og ih r] by simp
qed

lemma origins_ok_step:
  assumes inv: "gs_inv s" and step: "gs_step s l t" and tc: "\<And>p. trace_counts ls s p" and og: "origins_ok ls s"
  shows "origins_ok (ls @ [l]) t"
proof -
  have rf: "refs_ok s" and ow: "owners_ok s" using inv by (auto simp: gs_inv_def)
  note quiet = origins_ok_quiet [OF og rf]
  from step show ?thesis
  proof cases
    case (gs_no_id i)
    show ?thesis unfolding gs_no_id(1,2)
      by (rule quiet) (use gs_no_id(4) in \<open>auto simp: extends_refl any_outcome_def refusal_outcomes(1) dest!: in_set_handler\<close>)
  next
    case (gs_no_worker i draw err)
    show ?thesis unfolding gs_no_worker(1,2)
      by (rule quiet) (use gs_no_worker(5) in \<open>auto simp: extends_refl any_outcome_def refusal_outcomes(2) dest!: in_set_handler\<close>)
  next
    case (gs_pick i draw w)
    show ?thesis unfolding gs_pick(1,2)
      by (rule quiet) (auto simp: extends_refl dest!: in_set_handler)
  next
    case (gs_duplicate i w err t')
    then have "s\<lparr>gs_tracker := t'\<rparr> = s" by (simp add: register_Inl)
    then show ?thesis unfolding gs_duplicate(1,2)
      by (intro quiet) (use gs_duplicate(4) in \<open>auto simp: extends_refl any_outcome_def refusal_outcomes(3) dest!: in_set_handler\<close>)
  next
    case (gs_register i w p t')
    have none: "heap (gs_tracker s) (next_ptr (gs_tracker s)) = None"
      using rf by (auto simp: refs_ok_def tracker_wf_def dom_def)
    show ?thesis unfolding gs_register(1,2)
      by (rule quiet) (use gs_register(4) none in \<open>auto simp: extends_def register_Inr dest!: in_set_handler split: if_splits\<close>)
  next
    case (gs_launch i p w)
    show ?thesis unfolding gs_launch(1,2)
      by (rule quiet) (auto simp: extends_refl dest!: in_set_handler)
  next
    case (gs_receive i p ih r ih')
    note rc = received_origin [OF inv og gs_receive(3-5)]
    from rc(2) have "admitted_outcome (ls @ [l]) p (handler_req i s) (outcome_of r)"
      using origin_mono(2) unfolding admitted_outcome_def by metis
    moreover have "claimed ih' = claimed ih" using gs_receive(5) by (auto simp: take_result_def split: list.splits)
    ultimately show ?thesis unfolding gs_receive(1,2)
      by (intro quiet)
        (use gs_receive(4) take_result_req [OF gs_receive(5)] rc(1) in
          \<open>auto simp: extends_def dest!: in_set_handler split: if_splits\<close>)
  next
    case (gs_give_up i p e)
    show ?thesis unfolding gs_give_up(1,2)
      by (rule quiet) (auto simp: extends_refl admitted_outcome_def dest!: in_set_handler)
  next
    case (gs_return i p out)
    have "admitted_outcome ls p (handler_req i s) out"
      using origins_okD(3) [OF og, of "gs_handlers s ! i" p out] gs_return(3) by (auto simp: handler_at_def)
    then have "any_outcome (ls @ [l]) (handler_req i s) out"
      using origin_mono(3) [of ls p "handler_req i s" out l] unfolding any_outcome_def by blast
    then show ?thesis unfolding gs_return(1,2)
      by (intro quiet) (auto simp: extends_def dest!: in_set_handler)
  next
    case (gs_attempt i p pc ih ih' pc')
    show ?thesis unfolding gs_attempt(1) by (rule origins_ok_attempt [OF inv tc og gs_attempt(2-5)])
  next
    case (gs_poll_claim departed healthy ks draws t' jobs overBudget)
    have wf: "tracker_wf (gs_tracker s)" using rf by (simp add: refs_ok_def)
    note sp = reroute_claim_spec [OF wf gs_poll_claim(4,5)]
    show ?thesis unfolding gs_poll_claim(1,2)
      by (rule quiet) (auto simp: extends_def sp(5) split: option.splits if_splits)
  next
    case (gs_poll_fire j js)
    show ?thesis unfolding gs_poll_fire(1,2) by (rule quiet) (auto simp: extends_refl)
  qed (auto simp: extends_refl intro!: quiet)
qed

definition origins_inv :: "gs_label list \<Rightarrow> gateway_system \<Rightarrow> bool" where
  "origins_inv ls s \<longleftrightarrow> counts_inv ls s \<and> origins_ok ls s"

interpretation gs_origins: trace_invariant gs_init gs_step origins_inv
proof unfold_locales
  show "origins_inv [] s" if "gs_init s" for s
    using gs_counts.tinv_init [OF that] that
    by (simp add: origins_inv_def origins_ok_def gs_init_def gateway_new_def NewRequestTracker_def)
  show "origins_inv (ls @ [l]) t" if "origins_inv ls s" "gs_step s l t" for ls l s t
    using that gs_counts.tinv_step [of ls s l t] origins_ok_step [of s l t ls] by (simp add: origins_inv_def counts_inv_def)
qed

end
