(* ===== verification/Gateway_Work.thy ===== *)
theory Gateway_Work
  imports Gateway_Traces
begin

text \<open>
  The work a request can cause is bounded, and as long as its handler waits there is work to do.
\<close>

section \<open>A potential\<close>

fun weight :: "attempt_pc \<Rightarrow> nat" where
  "weight (AStart w) = 7"
| "weight (AAir w) = 6"
| "weight (AFailed w e) = 5"
| "weight (ARetry w e) = 4"
| "weight (ACands w e cs) = 3"
| "weight (AExhaust r) = 2"
| "weight (ASettle r) = 2"
| "weight (ASend r) = 1"
| "weight ADone = 0"

definition work_budget :: nat where "work_budget = 21"

fun is_work :: "ptr \<Rightarrow> gs_label \<Rightarrow> bool" where
  "is_work p (LCall q w req) = (q = p)"
| "is_work p (LReply q w x) = (q = p)"
| "is_work p (LWin q r) = (q = p)"
| "is_work p (LLose q r) = (q = p)"
| "is_work p (LWork q) = (q = p)"
| "is_work p l = False"

definition weight_at :: "ptr \<Rightarrow> gateway_system \<Rightarrow> nat" where
  "weight_at p s = sum_list (map (\<lambda>a. if ga_ih a = p then weight (ga_pc a) else 0) (gs_attempts s))"

definition unspent :: "inflight \<Rightarrow> nat" where
  "unspent ih = nat (maxAttempts - dispatched ih)"

definition work_ok :: "gs_label list \<Rightarrow> gateway_system \<Rightarrow> ptr \<Rightarrow> bool" where
  "work_ok ls s p \<longleftrightarrow> (case heap (gs_tracker s) p of
      None \<Rightarrow> count_if (is_work p) ls = 0
    | Some ih \<Rightarrow> count_if (is_work p) ls + weight_at p s + 7 * owed p s + 7 * unspent ih \<le> work_budget)"

lemma attempt_step_work:
  assumes "attempt_step view p ih pc l ih' pc'"
  shows "weight pc' + 7 * unspent ih' < weight pc + 7 * unspent ih" and "is_work q l \<longleftrightarrow> q = p"
proof -
  have "weight pc' + 7 * unspent ih' < weight pc + 7 * unspent ih \<and> (is_work q l \<longleftrightarrow> q = p)"
    using assms
  proof cases
    case (as_replace w candidates draw replacement ex d err)
    then show ?thesis using locked_replaced [OF as_replace(4)] by (auto simp: unspent_def)
  next
    case (as_exhaust w candidates draw d err)
    then show ?thesis using locked_not_replaced [OF as_exhaust(4)] by (auto simp: unspent_def)
  next
    case (as_over w candidates draw d err)
    then show ?thesis using locked_not_replaced [OF as_over(4)] by (auto simp: unspent_def)
  qed (auto simp: cas_claim_def unspent_def split: if_splits)
  then show "weight pc' + 7 * unspent ih' < weight pc + 7 * unspent ih" "is_work q l \<longleftrightarrow> q = p" by auto
qed

lemma weight_at_congruent [simp]:
  "weight_at q (set_handler i pc s) = weight_at q s" "weight_at q (set_record p ih s) = weight_at q s"
  "weight_at q (s\<lparr>gs_tracker := t\<rparr>) = weight_at q s" "weight_at q (s\<lparr>gs_view := v\<rparr>) = weight_at q s"
  "weight_at q (s\<lparr>gs_poll := pp\<rparr>) = weight_at q s"
  "weight_at q (launch p w s) = weight_at q s + (if q = p then 7 else 0)"
  by (simp_all add: weight_at_def)

lemma weight_at_set:
  assumes "i < length (gs_attempts s)" and "gs_attempts s ! i = \<lparr>ga_ih = p, ga_pc = pc\<rparr>"
  shows "weight_at q (set_attempt i pc' s) + (if q = p then weight pc else 0)
     = weight_at q s + (if q = p then weight pc' else 0)"
proof -
  let ?f = "\<lambda>a. if ga_ih a = q then weight (ga_pc a) else 0"
  let ?xs = "map ?f (gs_attempts s)"
  have i: "i < length ?xs" "?xs ! i = (if q = p then weight pc else 0)" using assms by auto
  have le: "?xs ! i \<le> sum_list ?xs" by (rule elem_le_sum_list [OF i(1)])
  have "weight_at q (set_attempt i pc' s) = sum_list (?xs[i := if q = p then weight pc' else 0])"
    using assms by (auto simp: weight_at_def set_attempt_def map_update)
  also have "\<dots> = sum_list ?xs + (if q = p then weight pc' else 0) - ?xs ! i"
    by (rule sum_list_update [OF i(1)])
  finally show ?thesis using le i(2) by (simp add: weight_at_def)
qed

lemma work_ok_quiet:
  assumes "work_ok ls s p" and "\<not> is_work p l"
    and "map_option unspent (heap (gs_tracker t) p) = map_option unspent (heap (gs_tracker s) p)"
    and "weight_at p t + 7 * owed p t \<le> weight_at p s + 7 * owed p s"
  shows "work_ok (ls @ [l]) t p"
  using assms by (cases "heap (gs_tracker s) p"; cases "heap (gs_tracker t) p") (auto simp: work_ok_def)

lemma work_ok_step:
  assumes inv: "gs_inv s" and step: "gs_step s l t" and wk: "work_ok ls s p"
  shows "work_ok (ls @ [l]) t p"
  using inv step
proof (cases rule: gs_step_kinds)
  case quiet
  then show ?thesis by (intro work_ok_quiet [OF wk]) (auto simp: weight_at_def)
next
  case (launched q w)
  then show ?thesis using launched(4) [of p] by (intro work_ok_quiet [OF wk]) (auto simp: weight_at_def)
next
  case (received q ih r ih')
  then show ?thesis by (intro work_ok_quiet [OF wk]) (auto simp: weight_at_def take_result_def unspent_def)
next
  case (registered q req wid)
  have "weight_at q s = 0" using inv registered(2) by (auto simp: weight_at_def gs_inv_def refs_ok_def)
  then have "weight_at q t = 0" using registered(4) by (simp add: weight_at_def)
  show ?thesis
  proof (cases "p = q")
    case True
    then show ?thesis
      using wk registered unborn(3) [OF inv registered(2)] \<open>weight_at q t = 0\<close>
      by (simp add: work_ok_def unspent_def maxAttempts_def work_budget_def)
  next
    case False
    then show ?thesis using registered by (intro work_ok_quiet [OF wk]) (auto simp: weight_at_def)
  qed
next
  case (claimed d tgt)
  have same: "weight_at p t = weight_at p s" using claimed(2) by (simp add: weight_at_def)
  show ?thesis
  proof (cases "heap (gs_tracker s) p")
    case None
    then show ?thesis using wk claimed(1,4) by (simp add: work_ok_def)
  next
    case (Some ih)
    have "Suc (unspent (reroute_inflight w ih)) = unspent ih" if "stranded d ih" for w
      using that by (auto simp: stranded_def unspent_def)
    note spend = this [of "tgt ih"]
    show ?thesis
      using wk Some claimed(1) claimed(3,5) [OF Some] spend same
      by (cases "p \<in> ran (requests (gs_tracker s)) \<and> stranded d ih") (simp_all add: work_ok_def)
  qed
next
  case (attempted i q pc ih ih' pc')
  note st = attempt_step_work [OF attempted(4)] and set = weight_at_set [OF attempted(1,2), of p pc']
  show ?thesis
  proof (cases "p = q")
    case True
    then show ?thesis using wk st set attempted(3) by (simp add: work_ok_def attempted(5))
  next
    case False
    then show ?thesis unfolding attempted(5) by (intro work_ok_quiet [OF wk]) (use st(2) set in auto)
  qed
qed

definition work_inv :: "gs_label list \<Rightarrow> gateway_system \<Rightarrow> bool" where
  "work_inv ls s \<longleftrightarrow> gs_inv s \<and> (\<forall>p. work_ok ls s p)"

interpretation gs_work: trace_invariant gs_init gs_step work_inv
proof unfold_locales
  show "work_inv [] s" if "gs_init s" for s
    using gs_inv_init [OF that] that
    by (simp add: work_inv_def work_ok_def gs_init_def gateway_new_def NewRequestTracker_def)
  show "work_inv (ls @ [l]) t" if "work_inv ls s" "gs_step s l t" for ls l s t
    using that gs_inv_step work_ok_step unfolding work_inv_def by blast
qed

end
