(* ===== verification/Gateway_Drain.thy ===== *)
theory Gateway_Drain
  imports Gateway_Work
begin

text \<open>
  The gateway winds down: once no new handler arrives and no new poll starts, every step of a
  handler, an attempt or the poll in progress lowers a potential, and every poll in progress has a
  step. Both are what a shutdown of the process rests on.
\<close>

section \<open>The potential\<close>

text \<open>
  A handler's weight covers the record it may still register and the attempt it launches; a dispatch
  not spent yet is worth one attempt and its launch.
\<close>

fun handler_weight :: "handler_pc \<Rightarrow> nat" where
  "handler_weight HStart = 28"
| "handler_weight (HPicked w) = 27"
| "handler_weight (HRegistered p w) = 10"
| "handler_weight (HWaiting p) = 2"
| "handler_weight (HReturning p out) = 1"
| "handler_weight (HDone out) = 0"

fun poll_weight :: "poll_pc \<Rightarrow> nat" where
  "poll_weight PIdle = 0"
| "poll_weight (PFetched fresh) = 4"
| "poll_weight (PDeparted departed) = 3"
| "poll_weight (PCandidates departed healthy) = 2"
| "poll_weight (PFiring js) = 8 * length js + 1"

definition budget_left :: "request_tracker \<Rightarrow> nat" where
  "budget_left t = (\<Sum>p \<in> dom (heap t). 8 * unspent (the (heap t p)))"

definition sum_of :: "('a \<Rightarrow> nat) \<Rightarrow> 'a list \<Rightarrow> nat" where
  "sum_of f xs = sum_list (map f xs)"

definition drain_weight :: "gateway_system \<Rightarrow> nat" where
  "drain_weight s = sum_of (\<lambda>a. weight (ga_pc a)) (gs_attempts s)
     + sum_of (\<lambda>h. handler_weight (gh_pc h)) (gs_handlers s)
     + budget_left (gs_tracker s) + poll_weight (gs_poll s)"

lemma sum_of_simps [simp]:
  "sum_of f [] = 0" "sum_of f (x # xs) = f x + sum_of f xs" "sum_of f (xs @ ys) = sum_of f xs + sum_of f ys"
  by (simp_all add: sum_of_def)

lemma sum_of_update:
  "i < length xs \<Longrightarrow> sum_of f (xs[i := x]) + f (xs ! i) = sum_of f xs + f x"
proof (induction xs arbitrary: i)
  case (Cons a xs)
  then show ?case by (cases i) fastforce+
qed simp

lemma handler_weight_set:
  assumes "handler_at i pc s"
  shows "sum_of (\<lambda>h. handler_weight (gh_pc h)) (gs_handlers (set_handler i pc' s)) + handler_weight pc
     = sum_of (\<lambda>h. handler_weight (gh_pc h)) (gs_handlers s) + handler_weight pc'"
  using assms sum_of_update [of i "gs_handlers s" "\<lambda>h. handler_weight (gh_pc h)" "\<lparr>gh_req = handler_req i s, gh_pc = pc'\<rparr>"]
  by (simp add: handler_at_def set_handler_def)

lemma attempt_weight_set:
  assumes "i < length (gs_attempts s)" and "gs_attempts s ! i = \<lparr>ga_ih = p, ga_pc = pc\<rparr>"
  shows "sum_of (\<lambda>a. weight (ga_pc a)) (gs_attempts (set_attempt i pc' s)) + weight pc
     = sum_of (\<lambda>a. weight (ga_pc a)) (gs_attempts s) + weight pc'"
  using assms sum_of_update [of i "gs_attempts s" "\<lambda>a. weight (ga_pc a)" "\<lparr>ga_ih = p, ga_pc = pc'\<rparr>"]
  by (simp add: set_attempt_def)

lemma budget_left_update:
  assumes "finite (dom (heap t))" and "heap t p = Some ih"
  shows "budget_left (t\<lparr>heap := (heap t)(p \<mapsto> ih')\<rparr>) + 8 * unspent ih = budget_left t + 8 * unspent ih'"
proof -
  let ?f = "\<lambda>q. 8 * unspent (the (heap t q))" and ?g = "\<lambda>q. 8 * unspent (the (((heap t)(p \<mapsto> ih')) q))"
  have d: "dom ((heap t)(p \<mapsto> ih')) = insert p (dom (heap t) - {p})" using assms(2) by auto
  have "budget_left (t\<lparr>heap := (heap t)(p \<mapsto> ih')\<rparr>) = sum ?g (insert p (dom (heap t) - {p}))"
    unfolding budget_left_def d [symmetric] by simp
  also have "\<dots> = ?g p + sum ?g (dom (heap t) - {p})"
    using assms(1) by (intro sum.insert) auto
  finally have "budget_left (t\<lparr>heap := (heap t)(p \<mapsto> ih')\<rparr>) = ?g p + sum ?g (dom (heap t) - {p})" .
  moreover have "sum ?g (dom (heap t) - {p}) = sum ?f (dom (heap t) - {p})"
    by (intro sum.cong) auto
  moreover have "budget_left t = ?f p + sum ?f (dom (heap t) - {p})"
    using assms by (simp add: budget_left_def sum.remove [of _ p] domIff)
  ultimately show ?thesis using assms(2) by simp
qed

lemma tracker_wf_finite_heap: "tracker_wf t \<Longrightarrow> finite (dom (heap t))"
  by (rule finite_subset [of _ "{..<next_ptr t}"]) (auto simp: tracker_wf_def)

lemma budget_left_register:
  assumes "tracker_wf t" and "register req w t = (Inr p, t')"
  shows "budget_left t' = budget_left t + 16"
proof -
  have t': "p = next_ptr t" "heap t' = (heap t)(p \<mapsto> new_inflight req w)"
    using assms(2) by (auto simp: register_Inr)
  then have n: "p \<notin> dom (heap t)" using assms(1) by (auto simp: tracker_wf_def dom_def)
  have "(\<Sum>q \<in> dom (heap t). 8 * unspent (the (heap t' q))) = budget_left t"
    unfolding budget_left_def t'(2) using n by (intro sum.cong) auto
  moreover have "unspent (new_inflight req w) = 2" by (simp add: unspent_def maxAttempts_def)
  ultimately show ?thesis
    using n tracker_wf_finite_heap [OF assms(1)] by (simp add: budget_left_def t'(2))
qed

text \<open>What a poll's claims take from the budgets is what the jobs are worth.\<close>

lemma budget_left_claim:
  assumes "tracker_wf t" and "iterates (requests t) ks"
    and "reroute_claim departed healthy draws ks t = (t', jobs, over)"
  shows "budget_left t' + 8 * length jobs = budget_left t"
proof -
  note sp = reroute_claim_spec [OF assms]
  let ?c = "\<lambda>p. count_if (\<lambda>j. j_ih j = p) jobs"
  have fin: "finite (dom (heap t))" by (rule tracker_wf_finite_heap [OF assms(1)])
  have d: "dom (heap t') = dom (heap t)" unfolding sp(5) by (auto split: option.splits)
  have jobs_in: "set (map j_ih jobs) \<subseteq> dom (heap t)"
    using sp(4) assms(1) by (auto simp: tracker_wf_def ran_def)
  have "length xs = (\<Sum>p \<in> dom (heap t). count_if (\<lambda>j. j_ih j = p) xs)"
    if "set (map j_ih xs) \<subseteq> dom (heap t)" for xs
    using that
  proof (induction xs)
    case (Cons x xs)
    then show ?case using fin by (simp add: sum.distrib sum.delta)
  qed simp
  from this [OF jobs_in] have len: "8 * length jobs = (\<Sum>p \<in> dom (heap t). 8 * ?c p)"
    by (simp add: sum_distrib_left)
  have "8 * unspent (the (heap t' p)) + 8 * ?c p = 8 * unspent (the (heap t p))" if p: "p \<in> dom (heap t)" for p
  proof -
    obtain ih where ih: "heap t p = Some ih" using p by auto
    have "unspent (the (heap t' p)) + ?c p = unspent ih"
      unfolding reroute_claim_jobs [OF assms ih] unfolding sp(5) using ih
      by (auto simp: unspent_def stranded_def)
    then show ?thesis using ih by simp
  qed
  then have "(\<Sum>p \<in> dom (heap t). 8 * unspent (the (heap t' p)) + 8 * ?c p) = budget_left t"
    unfolding budget_left_def by (rule sum.cong [OF refl])
  then show ?thesis by (simp add: budget_left_def d len sum.distrib)
qed

section \<open>Every step drains\<close>

lemma attempt_step_unspent:
  assumes "attempt_step view p ih pc l ih' pc'"
  shows "unspent ih' \<le> unspent ih"
  using assms
proof cases
  case (as_replace w candidates draw replacement ex d err)
  then show ?thesis using locked_replaced [OF as_replace(4)] by (simp add: unspent_def)
next
  case (as_exhaust w candidates draw d err)
  then show ?thesis using locked_not_replaced [OF as_exhaust(4)] by (simp add: unspent_def)
next
  case (as_over w candidates draw d err)
  then show ?thesis using locked_not_replaced [OF as_over(4)] by (simp add: unspent_def)
qed (auto simp: cas_claim_def unspent_def split: if_splits)

lemma attempt_step_drains:
  "attempt_step view p ih pc l ih' pc' \<Longrightarrow> weight pc' + 8 * unspent ih' < weight pc + 8 * unspent ih"
  using attempt_step_work(1) [of view p ih pc l ih' pc'] attempt_step_unspent [of view p ih pc l ih' pc'] by simp

lemma drain_sel [simp]:
  "gs_attempts (set_handler i pc s) = gs_attempts s" "gs_poll (set_handler i pc s) = gs_poll s"
  "gs_tracker (set_handler i pc s) = gs_tracker s"
  "budget_left (unregister j t) = budget_left t"
  by (simp_all add: set_handler_def budget_left_def unregister_def)

lemma drain_handler:
  assumes "handler_at i pc s" and "handler_weight pc' + budget_left t + x < handler_weight pc + budget_left (gs_tracker s)"
  shows "drain_weight (set_handler i pc' (s\<lparr>gs_tracker := t\<rparr>)) + x < drain_weight s"
proof -
  have "sum_of (\<lambda>h. handler_weight (gh_pc h)) (gs_handlers (set_handler i pc' (s\<lparr>gs_tracker := t\<rparr>))) + handler_weight pc
     = sum_of (\<lambda>h. handler_weight (gh_pc h)) (gs_handlers s) + handler_weight pc'"
    using handler_weight_set [of i pc "s\<lparr>gs_tracker := t\<rparr>" pc'] assms(1) by simp
  then show ?thesis using assms(2) by (simp add: drain_weight_def)
qed

lemma drain_handler_only:
  "handler_at i pc s \<Longrightarrow> handler_weight pc' + x < handler_weight pc \<Longrightarrow> drain_weight (set_handler i pc' s) + x < drain_weight s"
  using drain_handler [of i pc s pc' "gs_tracker s" x] by simp

lemma drain_launch: "drain_weight (launch p w s) = drain_weight s + 7"
  by (simp add: drain_weight_def launch_def)

lemma gs_step_drains:
  assumes inv: "gs_inv s" and step: "gs_step s l t" and "t \<noteq> s"
    and "length (gs_handlers t) = length (gs_handlers s)"
    and "gs_poll s = PIdle \<longrightarrow> gs_poll t = PIdle"
  shows "drain_weight t < drain_weight s"
proof -
  have wf: "tracker_wf (gs_tracker s)" using inv by (simp add: gs_inv_def refs_ok_def)
  note fin = tracker_wf_finite_heap [OF wf]
  show ?thesis using step
  proof cases
    case (gs_no_id i)
    then show ?thesis using drain_handler_only [OF gs_no_id(3), where x = 0] by simp
  next
    case (gs_no_worker i draw err)
    then show ?thesis using drain_handler_only [OF gs_no_worker(3), where x = 0] by simp
  next
    case (gs_pick i draw w)
    then show ?thesis using drain_handler_only [OF gs_pick(3), where x = 0] by simp
  next
    case (gs_duplicate i w err t')
    then have "t' = gs_tracker s" by (auto simp: register_def Let_def split: option.splits)
    then show ?thesis using gs_duplicate drain_handler_only [OF gs_duplicate(3), where x = 0] by simp
  next
    case (gs_register i w p t')
    then show ?thesis
      using drain_handler [OF gs_register(3), where x = 0] budget_left_register [OF wf gs_register(4)] by simp
  next
    case (gs_launch i p w)
    then show ?thesis using drain_handler_only [OF gs_launch(3), of "HWaiting p" 7] by (simp add: drain_launch)
  next
    case (gs_receive i p ih r ih')
    have "unspent ih' = unspent ih" using gs_receive(5) by (auto simp: take_result_def unspent_def)
    then have b: "budget_left ((gs_tracker s)\<lparr>heap := (heap (gs_tracker s))(p \<mapsto> ih')\<rparr>) = budget_left (gs_tracker s)"
      using budget_left_update [OF fin gs_receive(4), of ih'] by simp
    have "t = set_handler i (HReturning p (outcome_of r)) (s\<lparr>gs_tracker := (gs_tracker s)\<lparr>heap := (heap (gs_tracker s))(p \<mapsto> ih')\<rparr>\<rparr>)"
      unfolding gs_receive(2) by (simp add: set_record_def set_handler_def)
    then show ?thesis using drain_handler [OF gs_receive(3), where x = 0] b by simp
  next
    case (gs_give_up i p e)
    then show ?thesis using drain_handler_only [OF gs_give_up(3), where x = 0] by simp
  next
    case (gs_return i p out)
    then show ?thesis using drain_handler [OF gs_return(3), where x = 0] by simp
  next
    case (gs_attempt i p pc ih ih' pc')
    have b: "budget_left ((gs_tracker s)\<lparr>heap := (heap (gs_tracker s))(p \<mapsto> ih')\<rparr>) + 8 * unspent ih
        = budget_left (gs_tracker s) + 8 * unspent ih'"
      by (rule budget_left_update [OF fin gs_attempt(4)])
    have "drain_weight t = sum_of (\<lambda>a. weight (ga_pc a)) (gs_attempts (set_attempt i pc' s))
        + sum_of (\<lambda>h. handler_weight (gh_pc h)) (gs_handlers s)
        + budget_left ((gs_tracker s)\<lparr>heap := (heap (gs_tracker s))(p \<mapsto> ih')\<rparr>) + poll_weight (gs_poll s)"
      unfolding gs_attempt(1) by (simp add: drain_weight_def set_record_def set_attempt_def)
    then show ?thesis
      using b attempt_weight_set [OF gs_attempt(2,3), of pc'] attempt_step_drains [OF gs_attempt(5)]
      by (simp add: drain_weight_def)
  next
    case (gs_poll_claim departed healthy ks draws t' jobs over)
    then show ?thesis using budget_left_claim [OF wf gs_poll_claim(4,5)] by (simp add: drain_weight_def)
  next
    case (gs_poll_fire j js)
    then show ?thesis by (simp add: drain_launch) (simp add: drain_weight_def)
  qed (use assms(3-5) in \<open>auto simp: drain_weight_def\<close>)
qed

text \<open>A poll that starts costs a fixed amount.\<close>

lemma gs_step_poll_start:
  assumes "gs_step s l t" and "gs_poll s = PIdle" and "gs_poll t \<noteq> PIdle"
  shows "drain_weight t = drain_weight s + 4"
  using assms by cases (auto simp: drain_weight_def set_handler_def set_record_def set_attempt_def launch_def)

section \<open>A poll in progress goes on\<close>

lemma poll_can_step:
  assumes inv: "gs_inv s" and "gs_poll s \<noteq> PIdle"
  shows "\<exists>t. gs_step s LTau t \<and> gs_poll t \<noteq> gs_poll s"
proof (cases "gs_poll s")
  case (PFetched fresh)
  then show ?thesis
    using gs_poll_same [OF PFetched] gs_poll_departed [OF PFetched]
    by (cases "departedIDs (gs_view s) fresh = {}") (fastforce, fastforce)
next
  case (PDeparted departed)
  then show ?thesis
    using gs_poll_nobody [OF PDeparted] gs_poll_snapshot [OF PDeparted]
    by (cases "healthyExcept departed (gs_view s) = []") (fastforce, fastforce)
next
  case (PCandidates departed healthy)
  have "finite (dom (requests (gs_tracker s)))" using inv by (simp add: gs_inv_def refs_ok_def tracker_wf_def)
  then obtain ks where ks: "iterates (requests (gs_tracker s)) ks" using iterates_exists by blast
  obtain t' jobs over where "reroute_claim departed healthy (\<lambda>_. 0) ks (gs_tracker s) = (t', jobs, over)"
    by (metis prod_cases3)
  from gs_poll_claim [OF PCandidates ks this] PCandidates show ?thesis by fastforce
next
  case (PFiring js)
  show ?thesis
  proof (cases js)
    case Nil
    with gs_poll_end [of s] PFiring show ?thesis by fastforce
  next
    case (Cons j js')
    have "gs_poll (launch (j_ih j) (j_target j) (s\<lparr>gs_poll := PFiring js'\<rparr>)) \<noteq> gs_poll s"
      using PFiring Cons by (simp add: launch_def)
    with gs_poll_fire [of s j js'] PFiring Cons show ?thesis by blast
  qed
qed (use assms(2) in simp)

text \<open>A poll step touches the poll; nothing else does.\<close>

lemma gs_step_poll_label: "gs_step s l t \<Longrightarrow> gs_poll t \<noteq> gs_poll s \<Longrightarrow> l = LTau"
  by (erule gs_step.cases) (auto simp: set_handler_def set_record_def set_attempt_def launch_def)

text \<open>A handler never leaves its end, so the number of running ones only grows by arrivals.\<close>

fun handler_running :: "handler_pc \<Rightarrow> bool" where
  "handler_running (HDone out) = False"
| "handler_running pc = True"

lemma handlers_running_step:
  assumes "gs_step s l t" and "length (gs_handlers t) = length (gs_handlers s)"
  shows "handlers_at handler_running t \<le> handlers_at handler_running s"
proof -
  have set: "handlers_at handler_running (set_handler i pc' s) \<le> handlers_at handler_running s"
    if "handler_at i pc s" "handler_running pc" for i pc pc'
    using handlers_at_split [OF that(1), of handler_running] handlers_at_set [OF that(1), of handler_running pc'] that(2)
    by simp
  have frame: "handlers_at P (set_record p ih u) = handlers_at P u" "handlers_at P (launch p w u) = handlers_at P u"
    "handlers_at P (set_attempt i apc u) = handlers_at P u"
    "handlers_at P (set_handler i hpc (u\<lparr>gs_tracker := tr\<rparr>)) = handlers_at P (set_handler i hpc u)"
    for P p ih u w i apc hpc tr
    by (simp_all add: handlers_at_def set_record_def launch_def set_attempt_def set_handler_def)
  show ?thesis using assms
    by cases (auto simp: frame intro: set)
qed

section \<open>Progress\<close>

lemma attempt_can_step:
  assumes "pc \<noteq> ADone" and "\<And>r. pc = ASend r \<Longrightarrow> ih_result ih = []"
  shows "\<exists>l ih' pc'. attempt_step view p ih pc l ih' pc'"
proof (cases pc)
  case (AStart w)
  then show ?thesis using as_call by blast
next
  case (AAir w)
  then show ?thesis using as_success by blast
next
  case (AFailed w e)
  then show ?thesis using as_late as_terminal as_retry by metis
next
  case (ARetry w e)
  then show ?thesis using as_snapshot by blast
next
  case (ACands w e cs)
  obtain ih' repl ex d where L: "attempt_failed_locked (wi_WorkerId w) cs 0 ih = (ih', repl, ex, d)"
    by (metis prod_cases4)
  show ?thesis
  proof (cases repl)
    case None
    show ?thesis
    proof (cases ex)
      case True
      with L None have "attempt_failed_locked (wi_WorkerId w) cs 0 ih = (ih', None, True, d)" by simp
      from as_exhaust [OF this] show ?thesis unfolding ACands by blast
    next
      case False
      with L None have "attempt_failed_locked (wi_WorkerId w) cs 0 ih = (ih', None, False, d)" by simp
      from as_over [OF this] show ?thesis unfolding ACands by blast
    qed
  next
    case (Some r)
    with L show ?thesis using ACands as_replace by blast
  qed
next
  case (AExhaust r)
  then show ?thesis using as_win as_lose by (metis cas_claim_def)
next
  case (ASettle r)
  then show ?thesis using as_win as_lose by (metis cas_claim_def)
next
  case (ASend r)
  then have "chan_send 1 r (ih_result ih) = Some [r]" using assms(2) by (simp add: chan_send_def)
  from as_send [OF this] show ?thesis unfolding ASend by blast
next
  case ADone
  with assms(1) show ?thesis by simp
qed

lemma gs_attempt_enabled:
  assumes inv: "gs_inv s" and a: "a \<in> set (gs_attempts s)" "ga_ih a = p" "ga_pc a \<noteq> ADone"
  shows "\<exists>l t. gs_step s l t \<and> is_work p l"
proof -
  obtain i where i: "i < length (gs_attempts s)" "gs_attempts s ! i = \<lparr>ga_ih = p, ga_pc = ga_pc a\<rparr>"
    using a(1,2) by (metis in_set_conv_nth attempt_goroutine.surjective old.unit.exhaust)
  obtain ih where ih: "heap (gs_tracker s) p = Some ih"
    using inv a(1,2) by (auto simp: gs_inv_def refs_ok_def)
  then have ok: "record_ok ih (live p s) (attempts_at exhausting p s) (attempts_at sending p s)
       (0 < handlers_at (expecting p) s)"
    using inv records_okD by (simp add: gs_inv_def)
  have "ih_result ih = []" if "ga_pc a = ASend r" for r
  proof -
    have "1 \<le> attempts_at sending p s"
      unfolding attempts_at_def using a that by (intro count_if_ge_1 [of a]) auto
    moreover have "attempts_at sending p s + length (ih_result ih) \<le> 1" using ok by (simp add: record_ok_def)
    ultimately have "length (ih_result ih) = 0" by linarith
    then show ?thesis by simp
  qed
  then obtain l ih' pc' where st: "attempt_step (gs_view s) p ih (ga_pc a) l ih' pc'"
    using attempt_can_step [OF a(3)] by metis
  then show ?thesis using gs_attempt [OF i ih st] attempt_step_work(2) [OF st] by blast
qed

text \<open>A waiting handler: its result is there, or an attempt for it can step, or the poll is about to launch one.\<close>

lemma waiting_progress:
  assumes "reachable gs_init gs_step s" and "handler_at i (HWaiting p) s"
  shows "(\<exists>ih r ih'. heap (gs_tracker s) p = Some ih \<and> take_result ih = Some (r, ih')
        \<and> gs_step s LTau (set_record p ih' (set_handler i (HReturning p (outcome_of r)) s)))
     \<or> (\<exists>l t. gs_step s l t \<and> is_work p l)
     \<or> (\<exists>j \<in> set (jobs_of (gs_poll s)). j_ih j = p)"
proof -
  have inv: "gs_inv s" by (rule gs.sinv_reachable [OF assms(1)])
  then have ow: "owners_ok s" by (simp add: gs_inv_def)
  obtain ih where ih: "heap (gs_tracker s) p = Some ih" using owners_okD(2) [OF ow assms(2), of p] by auto
  have wt: "0 < handlers_at (expecting p) s" using handlers_at_split [OF assms(2), of "expecting p"] by simp
  have ok: "record_ok ih (live p s) (attempts_at exhausting p s) (attempts_at sending p s) True"
    using inv records_okD [OF _ ih] wt by (simp add: gs_inv_def)
  have "handlers_but (launching p) i s \<le> handlers_but (holding p) i s"
    unfolding handlers_but_def count_others_def
    by (intro count_if_mono) (simp add: expecting_holding launching_expecting)
  then have nl: "handlers_at (launching p) s = 0"
    using nobody_waits(2) [OF ow assms(2), of p] handlers_at_split [OF assms(2), of "launching p"] by simp
  have some: "\<exists>l t. gs_step s l t \<and> is_work p l" if n: "0 < attempts_at P p s" and d: "\<not> P ADone" for P
  proof -
    obtain a where "a \<in> set (gs_attempts s)" "ga_ih a = p" "P (ga_pc a)"
      using n by (auto simp: attempts_at_def count_if_pos)
    with d show ?thesis by (intro gs_attempt_enabled [OF inv]) auto
  qed
  consider "ih_result ih \<noteq> []" | "0 < attempts_at sending p s" | "0 < attempts_at exhausting p s"
    | "0 < attempts_at counted p s" | "0 < count_if (\<lambda>j. j_ih j = p) (jobs_of (gs_poll s))"
  proof -
    have "claimed ih \<Longrightarrow> 0 < attempts_at sending p s \<or> ih_result ih \<noteq> []"
      using ok by (auto simp: record_ok_def)
    moreover have "\<not> claimed ih \<Longrightarrow> 0 < live p s \<or> 0 < attempts_at exhausting p s"
      using ok by (auto simp: record_ok_def)
    moreover have "0 < live p s \<Longrightarrow> 0 < attempts_at counted p s
        \<or> 0 < count_if (\<lambda>j. j_ih j = p) (jobs_of (gs_poll s))"
      using nl by (auto simp: live_def owed_def)
    ultimately show ?thesis using that by blast
  qed
  then show ?thesis
  proof cases
    case 1
    then obtain r rest where "take_result ih = Some (r, ih\<lparr>ih_result := rest\<rparr>)"
      by (auto simp: take_result_def neq_Nil_conv)
    then show ?thesis using ih gs_receive [OF assms(2) ih] by blast
  next
    case 5
    then show ?thesis by (auto simp: count_if_pos)
  qed (use some in auto)
qed

text \<open>The table is the set of the handlers between their registration and their return.\<close>

lemma table_live:
  assumes "reachable gs_init gs_step s"
  shows "(\<forall>j p. requests (gs_tracker s) j = Some p \<longleftrightarrow>
        (\<exists>h \<in> set (gs_handlers s). holding p (gh_pc h) \<and> req_RequestId (gh_req h) = j))
     \<and> (\<forall>p. handlers_at (holding p) s \<le> 1)"
proof -
  have ow: "owners_ok s" using gs.sinv_reachable [OF assms] by (simp add: gs_inv_def)
  have own: "requests (gs_tracker s) (req_RequestId (gh_req h)) = Some p"
    if "h \<in> set (gs_handlers s)" "holding p (gh_pc h)" for h p
    using ow that by (auto simp: owners_ok_def owner_ok_def)
  have "\<exists>h \<in> set (gs_handlers s). holding p (gh_pc h) \<and> req_RequestId (gh_req h) = j"
    if "requests (gs_tracker s) j = Some p" for j p
  proof -
    have "handlers_at (holding p) s = 1" using ow that by (auto simp: owners_ok_def ran_def)
    then obtain h where h: "h \<in> set (gs_handlers s)" "holding p (gh_pc h)"
      using count_if_pos [of "\<lambda>h. holding p (gh_pc h)" "gs_handlers s"] by (auto simp: handlers_at_def)
    have "req_RequestId (gh_req h) = j"
      using own [OF h] that gs.sinv_reachable [OF assms] tracker_wfD(2) [of "gs_tracker s"]
      by (auto simp: gs_inv_def refs_ok_def)
    with h show ?thesis by blast
  qed
  then show ?thesis using own ow by (auto simp: owners_ok_def)
qed

text \<open>Work for a record is a step of an attempt, and it changes the state.\<close>

lemma work_step_moves:
  assumes "gs_step s l t" and "is_work p l"
  shows "t \<noteq> s" and "gs_poll t = gs_poll s" and "gs_handlers t = gs_handlers s"
proof -
  obtain i q pc ih ih' pc' where a: "i < length (gs_attempts s)" "gs_attempts s ! i = \<lparr>ga_ih = q, ga_pc = pc\<rparr>"
      "heap (gs_tracker s) q = Some ih" "attempt_step (gs_view s) q ih pc l ih' pc'"
      "t = set_record q ih' (set_attempt i pc' s)"
    using assms by (cases rule: gs_step.cases) auto
  show "gs_poll t = gs_poll s" "gs_handlers t = gs_handlers s"
    unfolding a(5) by (simp_all add: set_record_def set_attempt_def)
  show "t \<noteq> s"
  proof
    assume "t = s"
    then have "heap (gs_tracker t) q = Some ih" "gs_attempts t ! i = \<lparr>ga_ih = q, ga_pc = pc\<rparr>" using a by simp_all
    then have "ih' = ih" "pc' = pc" using a(1) unfolding a(5) by (simp_all add: set_record_def set_attempt_def)
    then show False using attempt_step_drains [OF a(4)] by simp
  qed
qed

text \<open>
  A handler that has not returned and whose result, when it waits for one, is there has a step. It moves the handler's own
  program counter and nothing of the poll's.
\<close>

lemma set_handler_moves:
  assumes "handler_at i pc s" and "pc' \<noteq> pc" and "gs_handlers t = gs_handlers (set_handler i pc' s)"
  shows "t \<noteq> s" and "length (gs_handlers t) = length (gs_handlers s)"
proof -
  have "i < length (gs_handlers s)" "gh_pc (gs_handlers s ! i) = pc" using assms(1) by (auto simp: handler_at_def)
  then have "gh_pc (gs_handlers t ! i) = pc'" unfolding assms(3) by (simp add: set_handler_def)
  with assms(1,2) show "t \<noteq> s" by (auto simp: handler_at_def)
  show "length (gs_handlers t) = length (gs_handlers s)" unfolding assms(3) by (simp add: set_handler_def)
qed

lemma handler_moves:
  assumes at: "handler_at i pc s" and run: "handler_running pc"
    and free: "\<forall>p. pc = HWaiting p \<longrightarrow> (\<exists>ih. heap (gs_tracker s) p = Some ih \<and> ih_result ih \<noteq> [])"
  obtains (moved) l t where "gs_step s l t" "t \<noteq> s" "gs_poll t = gs_poll s" "length (gs_handlers t) = length (gs_handlers s)"
proof -
  have go: thesis if "gs_step s l t" "gs_handlers t = gs_handlers (set_handler i pc' s)" "pc' \<noteq> pc" "gs_poll t = gs_poll s"
    for l t pc'
    using moved [OF that(1) set_handler_moves(1) [OF at that(3,2)] that(4) set_handler_moves(2) [OF at that(3,2)]] .
  have frame: "gs_handlers (set_handler i pc (s\<lparr>gs_tracker := t\<rparr>)) = gs_handlers (set_handler i pc s)"
    "gs_handlers (launch p w v) = gs_handlers v" "gs_poll (launch p w v) = gs_poll v"
    "gs_poll (set_record p ih v) = gs_poll v" "gs_handlers (set_record p ih v) = gs_handlers v"
    for pc t p w v ih by (simp_all add: set_handler_def launch_def set_record_def)
  show thesis
  proof (cases pc)
    case HStart
    note at' = at [unfolded HStart]
    consider "req_RequestId (handler_req i s) = ''''"
      | e where "req_RequestId (handler_req i s) \<noteq> ''''" "pickWorker 0 (gs_view s) = Inl e"
      | w where "req_RequestId (handler_req i s) \<noteq> ''''" "pickWorker 0 (gs_view s) = Inr w"
      by (cases "pickWorker 0 (gs_view s)") auto
    then show thesis
    proof cases
      case 1
      from go [OF gs_no_id [OF at' 1], of "HDone (Inl missing_id_error)"] HStart show thesis by simp
    next
      case (2 e)
      from go [OF gs_no_worker [OF at' 2], of "HDone (Inl e)"] HStart show thesis by simp
    next
      case (3 w)
      from go [OF gs_pick [OF at' 3], of "HPicked w"] HStart show thesis by simp
    qed
  next
    case (HPicked w)
    note at' = at [unfolded HPicked]
    obtain res t' where r: "register (handler_req i s) (wi_WorkerId w) (gs_tracker s) = (res, t')" by (metis prod.exhaust)
    show thesis
    proof (cases res)
      case (Inl e)
      from go [OF gs_duplicate [OF at' r [unfolded Inl]], of "HDone (Inl e)"] HPicked show thesis by (simp add: frame)
    next
      case (Inr p)
      from go [OF gs_register [OF at' r [unfolded Inr]], of "HRegistered p w"] HPicked show thesis by (simp add: frame)
    qed
  next
    case (HRegistered p w)
    from go [OF gs_launch [OF at [unfolded HRegistered]], of "HWaiting p"] HRegistered show thesis by (simp add: frame)
  next
    case (HWaiting p)
    then obtain ih where ih: "heap (gs_tracker s) p = Some ih" "ih_result ih \<noteq> []" using free by blast
    then obtain r rest where "take_result ih = Some (r, ih\<lparr>ih_result := rest\<rparr>)"
      by (auto simp: take_result_def neq_Nil_conv)
    from go [OF gs_receive [OF at [unfolded HWaiting] ih(1) this], of "HReturning p (outcome_of r)"] HWaiting
    show thesis by (simp add: frame)
  next
    case (HReturning p out)
    from go [OF gs_return [OF at [unfolded HReturning]], of "HDone out"] HReturning show thesis by (simp add: frame)
  next
    case (HDone out)
    with run show thesis by simp
  qed
qed

end
