(* ===== verification/Gateway_Safety.thy ===== *)
theory Gateway_Safety
  imports Gateway_Drain
begin

text \<open>
  The properties of the running gateway, over every interleaving of its goroutines: what a client
  can be told and why, how often workers are called, that no admitted request is forgotten, and
  one race that the retry logic leaves open. They rest on the invariants of the three theories
  before.
\<close>

section \<open>A run\<close>

text \<open>
  One request on a fleet whose only worker \<open>w1\<close> refuses the connection; while its attempt is between
  the unlock and the settle of \<^verbatim>\<open>attemptFailed\<close>, a poll sees \<open>w1\<close> replaced by \<open>w2\<close>.
\<close>

definition ex_refused :: go_error where
  "ex_refused = GoError Unavailable ''refused'' []"

definition ex_exhausted :: attempt_result where
  "ex_exhausted = error_result (ex_wire ''w1'') (exhausted_error 1 ex_refused)"

definition ex_table :: "string \<Rightarrow> int \<Rightarrow> int \<Rightarrow> string set \<Rightarrow> bool \<Rightarrow> attempt_result list \<Rightarrow> request_tracker" where
  "ex_table on k d failed won buf = \<lparr>requests = [''r1'' \<mapsto> 0],
     heap = [0 \<mapsto> \<lparr>ih_req = ex_request, assigned = on, attempts = k, dispatched = d, tried = failed,
       claimed = won, ih_result = buf\<rparr>], next_ptr = 1\<rparr>"

definition ex_gs ::
  "wire_worker list \<Rightarrow> request_tracker \<Rightarrow> handler_pc \<Rightarrow> attempt_pc list \<Rightarrow> poll_pc \<Rightarrow> gateway_system" where
  "ex_gs view t h as pp = \<lparr>gs_view = view, gs_tracker = t, gs_handlers = [\<lparr>gh_req = ex_request, gh_pc = h\<rparr>],
     gs_attempts = map (\<lambda>pc. \<lparr>ga_ih = 0, ga_pc = pc\<rparr>) as, gs_poll = pp\<rparr>"

lemmas ex_defs = ex_gs_def ex_table_def handler_at_def set_handler_def set_attempt_def set_record_def launch_def

lemmas run_cons = exec_cons [where step = gs_step]

text \<open>The first poll finds \<open>w1\<close>, the request arrives and is registered, its first attempt is launched.\<close>

definition ex_fetched :: gateway_system where
  "ex_fetched = gateway_new\<lparr>gs_poll := PFetched [ex_wire ''w1'']\<rparr>"

definition ex_viewed :: gateway_system where
  "ex_viewed = gateway_new\<lparr>gs_view := [ex_wire ''w1'']\<rparr>"

abbreviation ex_at :: "handler_pc \<Rightarrow> gateway_system" where
  "ex_at h \<equiv> ex_gs [ex_wire ''w1''] NewRequestTracker h [] PIdle"

abbreviation ex_in :: "handler_pc \<Rightarrow> attempt_pc list \<Rightarrow> gateway_system" where
  "ex_in h as \<equiv> ex_gs [ex_wire ''w1''] (ex_table ''w1'' 1 1 {} False []) h as PIdle"

lemma ex_first_poll:
  "gs_step gateway_new LTau ex_fetched" "gs_step ex_fetched LTau ex_viewed"
  "gs_step ex_viewed LTau (ex_at HStart)"
  using gs_poll_fetch [of gateway_new "\<lparr>lw_Workers = [ex_wire ''w1'']\<rparr>"]
    gs_poll_same [of ex_fetched "[ex_wire ''w1'']"] gs_arrive [of ex_viewed ex_request]
  by (simp_all add: gateway_new_def departedIDs_eq ex_fetched_def ex_viewed_def ex_gs_def)

lemma ex_first_dispatch:
  "gs_step (ex_at HStart) LTau (ex_at (HPicked (ex_wire ''w1'')))"
  "gs_step (ex_at (HPicked (ex_wire ''w1''))) LTau (ex_in (HRegistered 0 (ex_wire ''w1'')) [])"
  "gs_step (ex_in (HRegistered 0 (ex_wire ''w1'')) []) LTau (ex_in (HWaiting 0) [AStart (ex_wire ''w1'')])"
proof -
  show "gs_step (ex_at HStart) LTau (ex_at (HPicked (ex_wire ''w1'')))"
    using gs_pick [of 0 "ex_at HStart" 0 "ex_wire ''w1''"] by (simp add: ex_defs pickWorker_def)
  have "register ex_request ''w1'' NewRequestTracker = (Inr 0, ex_table ''w1'' 1 1 {} False [])"
    by (simp add: register_def NewRequestTracker_def ex_table_def new_inflight_def)
  then show "gs_step (ex_at (HPicked (ex_wire ''w1''))) LTau (ex_in (HRegistered 0 (ex_wire ''w1'')) [])"
    using gs_register [of 0 "ex_wire ''w1''" "ex_at (HPicked (ex_wire ''w1''))" 0 "ex_table ''w1'' 1 1 {} False []"]
    by (simp add: ex_defs)
  show "gs_step (ex_in (HRegistered 0 (ex_wire ''w1'')) []) LTau (ex_in (HWaiting 0) [AStart (ex_wire ''w1'')])"
    using gs_launch [of 0 0 "ex_wire ''w1''" "ex_in (HRegistered 0 (ex_wire ''w1'')) []"] by (simp add: ex_defs)
qed

lemma ex_admitted: "exec gs_step gateway_new [LTau, LTau, LTau] (ex_at HStart)"
  by (rule run_cons [OF ex_first_poll(1) run_cons [OF ex_first_poll(2) run_cons [OF ex_first_poll(3) exec_nil]]])

lemma ex_started: "exec gs_step (ex_at HStart) [LTau, LTau, LTau] (ex_in (HWaiting 0) [AStart (ex_wire ''w1'')])"
  by (rule run_cons [OF ex_first_dispatch(1) run_cons [OF ex_first_dispatch(2)
      run_cons [OF ex_first_dispatch(3) exec_nil]]])

lemma ex_attempt:
  assumes "attempt_step v 0 \<lparr>ih_req = ex_request, assigned = on, attempts = k, dispatched = d, tried = failed,
       claimed = won, ih_result = buf\<rparr> pc l \<lparr>ih_req = ex_request, assigned = on', attempts = k', dispatched = d',
       tried = failed', claimed = won', ih_result = buf'\<rparr> pc'"
    and "i < length as" and "as ! i = pc"
  shows "gs_step (ex_gs v (ex_table on k d failed won buf) h as pp) l
     (ex_gs v (ex_table on' k' d' failed' won' buf') h (as[i := pc']) pp)"
proof -
  let ?s = "ex_gs v (ex_table on k d failed won buf) h as pp"
  let ?ih = "\<lparr>ih_req = ex_request, assigned = on, attempts = k, dispatched = d, tried = failed,
       claimed = won, ih_result = buf\<rparr>"
  let ?ih' = "\<lparr>ih_req = ex_request, assigned = on', attempts = k', dispatched = d',
       tried = failed', claimed = won', ih_result = buf'\<rparr>"
  have "gs_step ?s l (set_record 0 ?ih' (set_attempt i pc' ?s))"
    by (rule gs_attempt [where p = 0 and pc = pc and ih = ?ih]) (use assms in \<open>simp_all add: ex_defs\<close>)
  moreover have "set_record 0 ?ih' (set_attempt i pc' ?s)
      = ex_gs v (ex_table on' k' d' failed' won' buf') h (as[i := pc']) pp"
    using assms(2) by (simp add: ex_defs map_update)
  ultimately show ?thesis by simp
qed

definition ex_crash_labels :: "gs_label list" where
  "ex_crash_labels = [LCall 0 (ex_wire ''w1'') ex_request, LReply 0 (ex_wire ''w1'') (Inl ex_refused), LWork 0, LWork 0, LWork 0]"

definition ex_late_labels :: "gs_label list" where
  "ex_late_labels = [LCall 0 (ex_wire ''w2'') ex_request, LWin 0 ex_exhausted, LWork 0, LTau]"

lemma ex_crash:
  "exec gs_step
     (ex_gs [ex_wire ''w1''] (ex_table ''w1'' 1 1 {} False []) (HWaiting 0) [AStart (ex_wire ''w1'')] PIdle) ex_crash_labels
     (ex_gs [ex_wire ''w1''] (ex_table ''w1'' 0 1 {''w1''} False []) (HWaiting 0) [AExhaust ex_exhausted] PIdle)"
proof -
  let ?w = "ex_wire ''w1''" and ?t = "ex_table ''w1'' 1 1 {} False []"
  let ?st = "\<lambda>pc. ex_gs [ex_wire ''w1''] (ex_table ''w1'' 1 1 {} False []) (HWaiting 0) [pc] PIdle"
  let ?ih = "\<lparr>ih_req = ex_request, assigned = ''w1'', attempts = 1, dispatched = 1, tried = {},
       claimed = False, ih_result = []\<rparr>"
  let ?ih' = "\<lparr>ih_req = ex_request, assigned = ''w1'', attempts = 0, dispatched = 1, tried = {''w1''},
       claimed = False, ih_result = []\<rparr>"
  have 1: "gs_step (?st (AStart ?w)) (LCall 0 ?w ex_request) (?st (AAir ?w))"
    using ex_attempt [OF as_call [of "[?w]" 0 ?ih ?w, simplified], of 0 "[AStart ?w]"] by simp
  have 2: "gs_step (?st (AAir ?w)) (LReply 0 ?w (Inl ex_refused)) (?st (AFailed ?w ex_refused))"
    using ex_attempt [OF as_error [of "[?w]" 0 ?ih ?w ex_refused], of 0 "[AAir ?w]"] by simp
  have "retryable ex_refused" by (simp add: ex_refused_def retryable_iff)
  then have 3: "gs_step (?st (AFailed ?w ex_refused)) (LWork 0) (?st (ARetry ?w ex_refused))"
    using ex_attempt [OF as_retry [of ?ih ex_refused "[?w]" 0 ?w], of 0 "[AFailed ?w ex_refused]"] by simp
  have 4: "gs_step (?st (ARetry ?w ex_refused)) (LWork 0) (?st (ACands ?w ex_refused []))"
    using ex_attempt [OF as_snapshot [of "[?w]" 0 ?ih ?w ex_refused], of 0 "[ARetry ?w ex_refused]"]
    by (simp add: healthyExcept_def)
  have "attempt_failed_locked (wi_WorkerId ?w) [] 0 ?ih = (?ih', None, True, 1)"
    by (simp add: attempt_failed_locked_def maxAttempts_def)
  from ex_attempt [OF as_exhaust [OF this, of "[?w]" 0 ex_refused], of 0 "[ACands ?w ex_refused []]"]
  have 5: "gs_step (?st (ACands ?w ex_refused [])) (LWork 0)
      (ex_gs [?w] (ex_table ''w1'' 0 1 {''w1''} False []) (HWaiting 0) [AExhaust ex_exhausted] PIdle)"
    by (simp add: ex_exhausted_def)
  show ?thesis
    unfolding ex_crash_labels_def
    by (rule run_cons [OF 1 run_cons [OF 2 run_cons [OF 3 run_cons [OF 4 run_cons [OF 5 exec_nil]]]]])
qed

text \<open>The poll has claimed the request and is about to launch its job.\<close>

definition ex_gap :: gateway_system where
  "ex_gap = ex_gs [ex_wire ''w2''] (ex_table ''w2'' 1 2 {''w1''} False []) (HWaiting 0) [AExhaust ex_exhausted]
     (PFiring [\<lparr>j_reqID = ''r1'', j_ih = 0, j_target = ex_wire ''w2''\<rparr>])"

lemma ex_claimed:
  "exec gs_step
     (ex_gs [ex_wire ''w1''] (ex_table ''w1'' 0 1 {''w1''} False []) (HWaiting 0) [AExhaust ex_exhausted] PIdle)
     [LTau, LTau, LTau, LTau] ex_gap"
proof -
  let ?w2 = "ex_wire ''w2''" and ?j = "\<lparr>j_reqID = ''r1'', j_ih = 0, j_target = ex_wire ''w2''\<rparr>"
  let ?t = "ex_table ''w1'' 0 1 {''w1''} False []" and ?t' = "ex_table ''w2'' 1 2 {''w1''} False []"
  let ?st = "\<lambda>v t pp. ex_gs [v] t (HWaiting 0) [AExhaust ex_exhausted] pp"
  let ?s0 = "?st (ex_wire ''w1'') ?t PIdle"
  let ?s1 = "?st (ex_wire ''w1'') ?t (PFetched [?w2])"
  let ?s2 = "?st ?w2 ?t (PDeparted {''w1''})"
  let ?s3 = "?st ?w2 ?t (PCandidates {''w1''} [?w2])"
  let ?s4 = "?st ?w2 ?t' (PFiring [?j])"
  have 1: "gs_step ?s0 LTau ?s1"
    using gs_poll_fetch [of ?s0 "\<lparr>lw_Workers = [?w2]\<rparr>"] by (simp add: ex_gs_def)
  have 2: "gs_step ?s1 LTau ?s2"
    using gs_poll_departed [of ?s1 "[?w2]"] by (simp add: ex_gs_def departedIDs_eq)
  have 3: "gs_step ?s2 LTau ?s3"
    using gs_poll_snapshot [of ?s2 "{''w1''}"] by (simp add: ex_gs_def healthyExcept_def)
  have "reroute_claim {''w1''} [?w2] (\<lambda>_. 0) [''r1''] ?t = (?t', [?j], [])"
    by (simp add: reroute_claim_def reroute_entry_def ex_table_def maxAttempts_def reroute_inflight_def)
  moreover have "iterates (requests ?t) [''r1'']" by (simp add: iterates_def ex_table_def)
  ultimately have 4: "gs_step ?s3 LTau ?s4"
    using gs_poll_claim [of ?s3 "{''w1''}" "[?w2]" "[''r1'']" "\<lambda>_. 0" ?t' "[?j]" "[]"] by (simp add: ex_gs_def)
  show ?thesis
    unfolding ex_gap_def by (rule run_cons [OF 1 run_cons [OF 2 run_cons [OF 3 run_cons [OF 4 exec_nil]]]])
qed

lemma ex_fired:
  "gs_step ex_gap LTau (ex_gs [ex_wire ''w2''] (ex_table ''w2'' 1 2 {''w1''} False []) (HWaiting 0)
     [AExhaust ex_exhausted, AStart (ex_wire ''w2'')] (PFiring []))"
  using gs_poll_fire [of ex_gap "\<lparr>j_reqID = ''r1'', j_ih = 0, j_target = ex_wire ''w2''\<rparr>" "[]"]
  by (simp add: ex_gap_def ex_gs_def launch_def)

lemma ex_too_late:
  "exec gs_step
     (ex_gs [ex_wire ''w2''] (ex_table ''w2'' 1 2 {''w1''} False []) (HWaiting 0)
        [AExhaust ex_exhausted, AStart (ex_wire ''w2'')] (PFiring []))
     ex_late_labels
     (ex_gs [ex_wire ''w2''] (ex_table ''w2'' 1 2 {''w1''} True [])
        (HReturning 0 (Inl (exhausted_error 1 ex_refused))) [ADone, AAir (ex_wire ''w2'')] (PFiring []))"
proof -
  let ?w = "ex_wire ''w2''"
  let ?st = "\<lambda>won buf as. ex_gs [?w] (ex_table ''w2'' 1 2 {''w1''} won buf) (HWaiting 0) as (PFiring [])"
  let ?ih = "\<lambda>won buf. \<lparr>ih_req = ex_request, assigned = ''w2'', attempts = 1, dispatched = 2, tried = {''w1''},
       claimed = won, ih_result = buf\<rparr>"
  have 1: "gs_step (?st False [] [AExhaust ex_exhausted, AStart ?w]) (LCall 0 ?w ex_request)
      (?st False [] [AExhaust ex_exhausted, AAir ?w])"
    using ex_attempt [OF as_call [of "[?w]" 0 "?ih False []" ?w, simplified], of 1 "[AExhaust ex_exhausted, AStart ?w]"]
    by simp
  have "cas_claim (?ih False []) = (True, ?ih True [])" by (simp add: cas_claim_def)
  from ex_attempt [OF as_win [of "AExhaust ex_exhausted" ex_exhausted, OF _ this, of "[?w]" 0], of 0 "[AExhaust ex_exhausted, AAir ?w]"]
  have 2: "gs_step (?st False [] [AExhaust ex_exhausted, AAir ?w]) (LWin 0 ex_exhausted)
      (?st True [] [ASend ex_exhausted, AAir ?w])" by simp
  have 3: "gs_step (?st True [] [ASend ex_exhausted, AAir ?w]) (LWork 0) (?st True [ex_exhausted] [ADone, AAir ?w])"
    using ex_attempt [OF as_send [of ex_exhausted "?ih True []" "[ex_exhausted]" "[?w]" 0, simplified], of 0
      "[ASend ex_exhausted, AAir ?w]"] by simp
  have "outcome_of ex_exhausted = Inl (exhausted_error 1 ex_refused)" by (simp add: ex_exhausted_def)
  then have 4: "gs_step (?st True [ex_exhausted] [ADone, AAir ?w]) LTau
      (ex_gs [?w] (ex_table ''w2'' 1 2 {''w1''} True [])
        (HReturning 0 (Inl (exhausted_error 1 ex_refused))) [ADone, AAir ?w] (PFiring []))"
    using gs_receive [of 0 0 "?st True [ex_exhausted] [ADone, AAir ?w]" "?ih True [ex_exhausted]" ex_exhausted
        "?ih True []"]
    by (simp add: ex_defs take_result_def)
  show ?thesis
    unfolding ex_late_labels_def by (rule run_cons [OF 1 run_cons [OF 2 run_cons [OF 3 run_cons [OF 4 exec_nil]]]])
qed

text \<open>The whole run, up to the handler's return, and the states the witnesses use.\<close>

definition ex_waiting :: gateway_system where
  "ex_waiting = ex_gs [ex_wire ''w1''] (ex_table ''w1'' 1 1 {} False []) (HWaiting 0)
     [AStart (ex_wire ''w1'')] PIdle"

definition ex_returning :: gateway_system where
  "ex_returning = ex_gs [ex_wire ''w2''] (ex_table ''w2'' 1 2 {''w1''} True [])
     (HReturning 0 (Inl (exhausted_error 1 ex_refused))) [ADone, AAir (ex_wire ''w2'')] (PFiring [])"

definition ex_run :: "gs_label list" where
  "ex_run = [LTau, LTau, LTau] @ [LTau, LTau, LTau] @ ex_crash_labels @ [LTau, LTau, LTau, LTau] @ [LTau] @ ex_late_labels"

lemma ex_waiting_run: "exec gs_step gateway_new ([LTau, LTau, LTau] @ [LTau, LTau, LTau]) ex_waiting"
  unfolding ex_waiting_def by (rule exec_append [OF ex_started ex_admitted])

lemma ex_waiting_reachable: "reachable gs_init gs_step ex_waiting"
  unfolding reachable_def gs_init_def using ex_waiting_run by blast

lemma ex_run_exec: "exec gs_step gateway_new ex_run ex_returning"
  unfolding ex_run_def ex_returning_def
  by (rule exec_append [OF exec_append [OF exec_append [OF exec_append [OF exec_append [OF ex_too_late exec_single [where step = gs_step, OF ex_fired]]
      ex_claimed] ex_crash] ex_started] ex_admitted])

definition ex_told :: gateway_system where
  "ex_told = ex_gs [ex_wire ''w2''] \<lparr>requests = Map.empty, heap = heap (gs_tracker ex_returning), next_ptr = 1\<rparr>
     (HDone (Inl (exhausted_error 1 ex_refused))) [ADone, AAir (ex_wire ''w2'')] (PFiring [])"

lemma ex_return_step: "gs_step ex_returning (LReturn ex_request (Inl (exhausted_error 1 ex_refused))) ex_told"
  using gs_return [of 0 0 "Inl (exhausted_error 1 ex_refused)" ex_returning]
  by (simp add: ex_told_def ex_returning_def ex_defs unregister_def ex_request_def)

lemma ex_final: "exec gs_step gateway_new (ex_run @ [LReturn ex_request (Inl (exhausted_error 1 ex_refused))]) ex_told"
  by (rule exec_snoc [where step = gs_step, OF ex_run_exec ex_return_step])

text \<open>A run in which the worker answers.\<close>

definition ex_resp :: inference_response where
  "ex_resp = \<lparr>resp_RequestId = ''r1'', resp_Output = ''hi'', resp_WorkerId = ''w1''\<rparr>"

definition ex_served :: "gs_label list" where
  "ex_served = [LCall 0 (ex_wire ''w1'') ex_request, LReply 0 (ex_wire ''w1'') (Inr ex_resp),
     LWin 0 (success_result (ex_wire ''w1'') ex_resp), LWork 0, LTau, LReturn ex_request (Inr (Some ex_resp))]"

definition idle_step :: "gateway_system \<Rightarrow> gs_label \<Rightarrow> gateway_system \<Rightarrow> bool" where
  "idle_step s l t \<longleftrightarrow> gs_step s l t \<and> gs_poll t = PIdle"

lemmas idle_cons = exec_cons [where step = idle_step]

lemma ex_served_idle: "\<exists>s. exec idle_step ex_waiting ex_served s"
proof -
  let ?w = "ex_wire ''w1''" and ?r = "success_result (ex_wire ''w1'') ex_resp"
  let ?t = "\<lambda>won buf. ex_table ''w1'' 1 1 {} won buf"
  let ?st = "\<lambda>won buf pc. ex_gs [?w] (?t won buf) (HWaiting 0) [pc] PIdle"
  let ?ih = "\<lambda>won buf. \<lparr>ih_req = ex_request, assigned = ''w1'', attempts = 1, dispatched = 1, tried = {},
       claimed = won, ih_result = buf\<rparr>"
  let ?ret = "ex_gs [?w] (?t True []) (HReturning 0 (Inr (Some ex_resp))) [ADone] PIdle"
  have 1: "gs_step ex_waiting (LCall 0 ?w ex_request) (?st False [] (AAir ?w))"
    using ex_attempt [OF as_call [of "[?w]" 0 "?ih False []" ?w, simplified], of 0 "[AStart ?w]"]
    by (simp add: ex_waiting_def)
  have 2: "gs_step (?st False [] (AAir ?w)) (LReply 0 ?w (Inr ex_resp)) (?st False [] (ASettle ?r))"
    using ex_attempt [OF as_success [of "[?w]" 0 "?ih False []" ?w ex_resp], of 0 "[AAir ?w]"] by simp
  have "cas_claim (?ih False []) = (True, ?ih True [])" by (simp add: cas_claim_def)
  from ex_attempt [OF as_win [of "ASettle ?r" ?r, OF _ this, of "[?w]" 0], of 0 "[ASettle ?r]"]
  have 3: "gs_step (?st False [] (ASettle ?r)) (LWin 0 ?r) (?st True [] (ASend ?r))" by simp
  have 4: "gs_step (?st True [] (ASend ?r)) (LWork 0) (?st True [?r] ADone)"
    using ex_attempt [OF as_send [of ?r "?ih True []" "[?r]" "[?w]" 0, simplified], of 0 "[ASend ?r]"] by simp
  have 5: "gs_step (?st True [?r] ADone) LTau ?ret"
    using gs_receive [of 0 0 "?st True [?r] ADone" "?ih True [?r]" ?r "?ih True []"]
    by (simp add: ex_defs take_result_def)
  obtain s where 6: "gs_step ?ret (LReturn ex_request (Inr (Some ex_resp))) s"
    using gs_return [of 0 0 "Inr (Some ex_resp)" ?ret] by (auto simp: ex_gs_def handler_at_def)
  have "gs_poll s = PIdle" using 6 by (cases rule: gs_step.cases) (auto simp: ex_gs_def set_handler_def)
  then have i: "idle_step ?ret (LReturn ex_request (Inr (Some ex_resp))) s" using 6 by (simp add: idle_step_def)
  have e: "idle_step u l (ex_gs v t h as PIdle)" if "gs_step u l (ex_gs v t h as PIdle)" for u l v t h as
    using that by (simp add: idle_step_def ex_gs_def)
  have "exec idle_step ex_waiting ex_served s"
    unfolding ex_served_def
    by (rule idle_cons [OF e [OF 1] idle_cons [OF e [OF 2] idle_cons [OF e [OF 3] idle_cons [OF e [OF 4]
        idle_cons [OF e [OF 5] idle_cons [OF i exec_nil]]]]]])
  then show ?thesis ..
qed

lemma ex_served_exec: "\<exists>s. exec gs_step ex_waiting ex_served s"
  proof -
  obtain s where "exec idle_step ex_waiting ex_served s" using ex_served_idle ..
  then have "exec gs_step ex_waiting ex_served s" by (rule exec_mono) (simp add: idle_step_def)
  then show ?thesis ..
qed

section \<open>Properties\<close>

text \<open>
  C1. In every interleaving a request is dispatched to workers at most \<^verbatim>\<open>maxAttempts\<close> times, the fast
  and the slow path together, for as long as the gateway runs.
\<close>

theorem calls_bounded:
  assumes "exec gs_step gateway_new ls s"
  shows "int (count_if (is_call p) ls) \<le> maxAttempts"
proof -
  have inv: "counts_inv ls s" using gs_counts.tinv_exec [OF assms] by (simp add: gs_init_def)
  show ?thesis
  proof (cases "heap (gs_tracker s) p")
    case None
    then show ?thesis using inv by (auto simp: counts_inv_def trace_counts_def maxAttempts_def dest: spec [of _ p])
  next
    case (Some ih)
    then have "dispatched ih \<le> maxAttempts"
      using inv records_okD [of s p ih] by (simp add: counts_inv_def gs_inv_def record_ok_def)
    moreover have "trace_counts ls s p" using inv by (simp add: counts_inv_def)
    ultimately show ?thesis using Some by (simp add: trace_counts_def)
  qed
qed

theorem calls_bounded_witness: "int (count_if (is_call 0) ex_run) \<le> maxAttempts"
  by (rule calls_bounded [OF ex_run_exec])

text \<open>
  C2. In every interleaving the race for a request is won at most once: of all results that attempts
  ever offer for it, at most one reaches the channel.
\<close>

theorem one_winner_per_request:
  assumes "exec gs_step gateway_new ls s"
  shows "count_if (is_win p) ls \<le> 1"
proof -
  have "counts_inv ls s" using gs_counts.tinv_exec [OF assms] by (simp add: gs_init_def)
  then have "trace_counts ls s p" by (simp add: counts_inv_def)
  then show ?thesis by (auto simp: trace_counts_def split: option.splits)
qed

theorem one_winner_per_request_witness: "count_if (is_win 0) ex_run \<le> 1"
  by (rule one_winner_per_request [OF ex_run_exec])

text \<open>
  C9. The gauge is exact: as long as the race for a request is undecided, its \<^verbatim>\<open>attempts\<close> field is the
  number of attempts that are running or about to be launched. So \<^verbatim>\<open>attempts == 0\<close> in \<^verbatim>\<open>attemptFailed\<close> means
  what the code takes it to mean at that moment: nobody is left to answer.
\<close>

theorem attempts_gauge_exact:
  assumes "reachable gs_init gs_step s" and "heap (gs_tracker s) p = Some ih" and "\<not> claimed ih"
  shows "attempts ih = int (live p s)"
proof -
  have "gs_inv s" by (rule gs.sinv_reachable [OF assms(1)])
  then show ?thesis using records_okD [of s p ih] assms(2,3) by (simp add: gs_inv_def record_ok_def)
qed

theorem attempts_gauge_exact_witness: "1 = int (live 0 ex_waiting)"
  using attempts_gauge_exact [OF ex_waiting_reachable, of 0]
  by (simp add: ex_waiting_def ex_gs_def ex_table_def)

text \<open>
  C10. A result never blocks its sender: whenever an attempt has won the race, the channel's slot is
  free, so the send after the compare-and-swap goes through at once, even if the client is gone.
\<close>

theorem settle_never_blocks:
  assumes "reachable gs_init gs_step s" and "i < length (gs_attempts s)"
    and "gs_attempts s ! i = \<lparr>ga_ih = p, ga_pc = ASend r\<rparr>"
  shows "\<exists>ih. heap (gs_tracker s) p = Some ih \<and> chan_send 1 r (ih_result ih) = Some [r] \<and> claimed ih"
proof -
  have inv: "gs_inv s" by (rule gs.sinv_reachable [OF assms(1)])
  have a: "\<lparr>ga_ih = p, ga_pc = ASend r\<rparr> \<in> set (gs_attempts s)" using assms(2,3) by (metis nth_mem)
  then obtain ih where ih: "heap (gs_tracker s) p = Some ih" using inv by (auto simp: gs_inv_def refs_ok_def)
  have "1 \<le> attempts_at sending p s"
    unfolding attempts_at_def by (rule count_if_ge_1 [OF a]) simp
  moreover have ok: "record_ok ih (live p s) (attempts_at exhausting p s) (attempts_at sending p s)
       (0 < handlers_at (expecting p) s)"
    using inv records_okD [OF _ ih] by (simp add: gs_inv_def)
  then have "attempts_at sending p s + length (ih_result ih) \<le> 1"
      "claimed ih \<or> attempts_at sending p s = 0" by (auto simp: record_ok_def)
  ultimately have "length (ih_result ih) = 0" "claimed ih" by linarith+
  then have "ih_result ih = [] \<and> claimed ih" by simp
  then show ?thesis using ih by (simp add: chan_send_def)
qed

theorem settle_never_blocks_witness:
  "\<exists>ih. heap (ex_table ''w1'' 0 1 {''w1''} True []) 0 = Some ih
     \<and> chan_send 1 ex_exhausted (ih_result ih) = Some [ex_exhausted] \<and> claimed ih"
proof -
  let ?w1 = "ex_wire ''w1''"
  let ?s = "ex_gs [?w1] (ex_table ''w1'' 0 1 {''w1''} False []) (HWaiting 0) [AExhaust ex_exhausted] PIdle"
  let ?t = "ex_gs [?w1] (ex_table ''w1'' 0 1 {''w1''} True []) (HWaiting 0) [ASend ex_exhausted] PIdle"
  let ?ih = "\<lambda>won. \<lparr>ih_req = ex_request, assigned = ''w1'', attempts = 0, dispatched = 1, tried = {''w1''},
       claimed = won, ih_result = []\<rparr>"
  have "cas_claim (?ih False) = (True, ?ih True)" by (simp add: cas_claim_def)
  from ex_attempt [OF as_win [of "AExhaust ex_exhausted" ex_exhausted, OF _ this, of "[?w1]" 0], of 0 "[AExhaust ex_exhausted]"]
  have "gs_step ?s (LWin 0 ex_exhausted) ?t" by simp
  moreover have "reachable gs_init gs_step ?s"
    using reachable_exec [OF ex_waiting_reachable ex_crash [folded ex_waiting_def]] .
  ultimately have "reachable gs_init gs_step ?t" by (rule reachable_step [rotated])
  from settle_never_blocks [OF this, of 0 0 ex_exhausted] show ?thesis by (simp add: ex_gs_def)
qed

text \<open>
  No admitted request is forgotten: whenever a handler waits, either its result is in the channel,
  or an attempt for it can take a step at once (or its worker can answer), or the poll has already
  claimed an attempt for it and is about to launch it.
\<close>

lemma waiting_request_progresses:
  assumes "reachable gs_init gs_step s" and "handler_at i (HWaiting p) s"
  shows "(\<exists>ih r ih'. heap (gs_tracker s) p = Some ih \<and> take_result ih = Some (r, ih')
        \<and> gs_step s LTau (set_record p ih' (set_handler i (HReturning p (outcome_of r)) s)))
     \<or> (\<exists>l t. gs_step s l t \<and> is_work p l)
     \<or> (\<exists>j \<in> set (jobs_of (gs_poll s)). j_ih j = p)"
  using assms by (rule waiting_progress)

lemma waiting_request_progresses_witness:
  "\<exists>l t. gs_step ex_waiting l t \<and> is_work 0 l"
  using waiting_request_progresses [OF ex_waiting_reachable, of 0 0]
  by (auto simp: ex_waiting_def ex_gs_def ex_table_def handler_at_def take_result_def)

text \<open>
  C8. The work per request is bounded: over a whole execution, however long and however many polls it
  has, the attempts for one request take at most 21 steps together (calls, answers and internal
  steps). With the progress of a waiting request and workers whose calls end by the attempt's
  timeout, every admitted request is answered.
\<close>

theorem work_per_request_bounded:
  assumes "exec gs_step gateway_new ls s"
  shows "count_if (is_work p) ls \<le> work_budget"
proof -
  have "work_inv ls s" using gs_work.tinv_exec [OF assms] by (simp add: gs_init_def)
  then have "work_ok ls s p" by (simp add: work_inv_def)
  then show ?thesis by (auto simp: work_ok_def split: option.splits)
qed

theorem work_per_request_bounded_witness: "count_if (is_work 0) ex_run \<le> work_budget"
  by (rule work_per_request_bounded [OF ex_run_exec])

text \<open>
  C11. The table is exactly the set of live requests: an id is in it if and only if a handler that
  has registered that id has not returned yet, and that handler alone holds its record. Ids are
  never leaked and never shared.
\<close>

theorem table_is_live_handlers:
  assumes "reachable gs_init gs_step s"
  shows "(\<forall>j p. requests (gs_tracker s) j = Some p \<longleftrightarrow>
        (\<exists>h \<in> set (gs_handlers s). holding p (gh_pc h) \<and> req_RequestId (gh_req h) = j))
     \<and> (\<forall>p. handlers_at (holding p) s \<le> 1)"
  by (rule table_live [OF assms])

theorem table_is_live_handlers_witness: "handlers_at (holding 0) ex_waiting \<le> 1"
  using table_is_live_handlers [OF ex_waiting_reachable] by simp

lemma genuine_response:
  assumes "exec gs_step gateway_new ls s" and "LReturn req (Inr x) \<in> set ls"
  shows "\<exists>p w resp. x = Some resp \<and> LCall p w req \<in> set ls \<and> LReply p w (Inr resp) \<in> set ls
     \<and> LWin p (success_result w resp) \<in> set ls"
proof -
  have "origins_inv ls s" using gs_origins.tinv_exec [OF assms(1)] by (simp add: gs_init_def)
  then have "any_outcome ls req (Inr x)" using assms(2) origins_okD(4) by (auto simp: origins_inv_def)
  then obtain p r where r: "won_result ls p req r" "Inr x = outcome_of r"
    by (auto simp: any_outcome_def refusal_def admitted_outcome_def)
  then show ?thesis by (fastforce simp: won_result_def sound_result_def)
qed

text \<open>
  C3. Answers are genuine: a response that a client gets was given by some worker, to a call made
  with exactly this client's request (its id included), and it is the one that won the race. A
  handler never returns an empty success.
\<close>

theorem responses_are_genuine:
  assumes "exec gs_step gateway_new ls s" and "LReturn req (Inr x) \<in> set ls"
  shows "\<exists>p w resp. x = Some resp \<and> LCall p w req \<in> set ls \<and> LReply p w (Inr resp) \<in> set ls
     \<and> LWin p (success_result w resp) \<in> set ls"
  by (rule genuine_response [OF assms])

theorem responses_are_genuine_witness:
  "\<exists>p w resp. Some ex_resp = Some resp
     \<and> LCall p w ex_request \<in> set (([LTau, LTau, LTau] @ [LTau, LTau, LTau]) @ ex_served)
     \<and> LReply p w (Inr resp) \<in> set (([LTau, LTau, LTau] @ [LTau, LTau, LTau]) @ ex_served)
     \<and> LWin p (success_result w resp) \<in> set (([LTau, LTau, LTau] @ [LTau, LTau, LTau]) @ ex_served)"
proof -
  obtain s where "exec gs_step ex_waiting ex_served s" using ex_served_exec by blast
  from exec_append [OF this ex_waiting_run] show ?thesis
    by (rule responses_are_genuine) (simp add: ex_served_def)
qed

text \<open>
  C4. Errors are explained, exactly. When \<^verbatim>\<open>Generate\<close> returns an error it is one of the three refusals, each with its cause: the request has
  no id, the view is empty at that moment, or the id is in the table at that moment; or it is returned for the handler's own record \<open>p\<close> and
  is the client's cancellation or deadline, a terminal error that a worker answered to a call with this request and that won the race,
  or the exhaustion report that won the race. That report is only made at a moment (after \<open>ls1\<close>) when every call for the record so far has failed with
  a retryable error; its number is the number of these calls, at most \<^verbatim>\<open>maxAttempts\<close>, and its cause is one of these errors. So a raw
  retryable error is never what an admitted client gets from the retry logic.
\<close>

theorem errors_are_explained:
  assumes "exec gs_step gateway_new ls s" and "gs_step s (LReturn req (Inl e)) t"
  shows "req_RequestId req = '''' \<and> e = missing_id_error
     \<or> gs_view s = [] \<and> e = GoError Unavailable ''no healthy workers available'' []
     \<or> requests (gs_tracker s) (req_RequestId req) \<noteq> None
         \<and> e = GoError AlreadyExists ''request %s already in flight'' [ArgString (req_RequestId req)]
     \<or> (\<exists>i p. handler_at i (HReturning p (Inl e)) s \<and> handler_req i s = req
         \<and> ((\<exists>c. e = from_context_error c)
          \<or> (\<exists>w. LCall p w req \<in> set ls \<and> LReply p w (Inl e) \<in> set ls \<and> \<not> retryable e \<and> LWin p (error_result w e) \<in> set ls)
          \<or> (\<exists>w err ls1 ls2. ls = ls1 @ ls2 \<and> LCall p w req \<in> set ls1 \<and> LReply p w (Inl err) \<in> set ls1 \<and> retryable err
              \<and> count_if (is_failure p) ls1 = count_if (is_call p) ls1 \<and> int (count_if (is_call p) ls1) \<le> maxAttempts
              \<and> e = exhausted_error (int (count_if (is_call p) ls1)) err \<and> LWin p (error_result w e) \<in> set ls)))"
  using assms(2)
proof cases
  case (gs_return i p)
  have "origins_inv ls s" using gs_origins.tinv_exec [OF assms(1)] by (simp add: gs_init_def)
  moreover have "gs_handlers s ! i \<in> set (gs_handlers s)" "gh_pc (gs_handlers s ! i) = HReturning p (Inl e)"
    using gs_return(3) by (simp_all add: handler_at_def)
  ultimately have "admitted_outcome ls p req (Inl e)"
    using origins_okD(3) [of ls s "gs_handlers s ! i" p "Inl e"] gs_return(1) by (simp add: origins_inv_def)
  then have "(\<exists>c. e = from_context_error c)
      \<or> (\<exists>w. LCall p w req \<in> set ls \<and> LReply p w (Inl e) \<in> set ls \<and> \<not> retryable e \<and> LWin p (error_result w e) \<in> set ls)
      \<or> (\<exists>w err d. exhausted_after ls p req w err d \<and> e = exhausted_error d err \<and> LWin p (error_result w e) \<in> set ls)"
    by (fastforce simp: admitted_outcome_def won_result_def sound_result_def)
  then show ?thesis using gs_return(1,3) unfolding exhausted_after_def by blast
next
  case (gs_attempt i p pc ih ih' pc')
  from gs_attempt(5) show ?thesis by cases
qed (auto simp: pickWorker_def register_Inl split: if_splits)

theorem errors_are_explained_witness:
  "\<exists>w err ls1 ls2. ex_run = ls1 @ ls2 \<and> LReply 0 w (Inl err) \<in> set ls1 \<and> retryable err
     \<and> count_if (is_failure 0) ls1 = count_if (is_call 0) ls1
     \<and> exhausted_error 1 ex_refused = exhausted_error (int (count_if (is_call 0) ls1)) err"
proof -
  let ?e = "exhausted_error 1 ex_refused"
  have "?e \<noteq> from_context_error c" for c by (cases c) (simp_all add: exhausted_error_def)
  moreover have "LReply p w (Inl ?e) \<notin> set ex_run" for p w
    by (auto simp: exhausted_error_def ex_refused_def ex_run_def ex_crash_labels_def ex_late_labels_def)
  moreover have "p = 0" if "handler_at i (HReturning p (Inl ?e)) ex_returning" for i p
    using that by (auto simp: ex_returning_def ex_gs_def handler_at_def)
  moreover have "gs_view ex_returning \<noteq> []" "req_RequestId ex_request \<noteq> ''''" by (simp_all add: ex_returning_def ex_gs_def)
  moreover have "?e \<noteq> GoError AlreadyExists m as" for m as by (simp add: exhausted_error_def)
  ultimately show ?thesis using errors_are_explained [OF ex_run_exec ex_return_step] by (elim disjE exE conjE) blast+
qed

text \<open>
  C38. The gap between the unlock and the settle of \<^verbatim>\<open>attemptFailed\<close>. There is an execution with a single client, whose request has record 0, and in it
  a moment at which an attempt of this record is about to settle with the exhaustion report \<open>r\<close> while a poll has claimed the same request and
  holds a job to launch it on the worker \<open>w\<close>. The execution goes on: the job's attempt calls \<open>w\<close>, the report wins the race all the same, and \<^verbatim>\<open>Generate\<close>
  returns it to the client while the call of \<open>w\<close> is in the air, counted in the record's \<^verbatim>\<open>attempts\<close>, and the budget is not spent.
\<close>

theorem exhausted_while_in_flight:
  "\<exists>before s1 after s r w err ih. exec gs_step gateway_new before s1 \<and> exec gs_step s1 after s
     \<and> r = error_result (ex_wire ''w1'') (exhausted_error 1 err)
     \<and> gs_attempts s1 = [\<lparr>ga_ih = 0, ga_pc = AExhaust r\<rparr>] \<and> gs_poll s1 = PFiring [\<lparr>j_reqID = req_RequestId ex_request, j_ih = 0, j_target = w\<rparr>]
     \<and> LCall 0 w ex_request \<in> set after \<and> LWin 0 r \<in> set after \<and> LReturn ex_request (outcome_of r) \<in> set after
     \<and> map gh_pc (gs_handlers s) = [HDone (outcome_of r)] \<and> gs_attempts s = [\<lparr>ga_ih = 0, ga_pc = ADone\<rparr>, \<lparr>ga_ih = 0, ga_pc = AAir w\<rparr>]
     \<and> heap (gs_tracker s) 0 = Some ih \<and> ih_req ih = ex_request \<and> attempts ih = 1 \<and> dispatched ih < maxAttempts"
proof -
  let ?w = "ex_wire ''w2''" and ?r = "ex_exhausted"
  let ?before = "[LTau, LTau, LTau] @ [LTau, LTau, LTau] @ ex_crash_labels @ [LTau, LTau, LTau, LTau]"
  let ?after = "[LTau] @ ex_late_labels @ [LReturn ex_request (Inl (exhausted_error 1 ex_refused))]"
  have r: "?r = error_result (ex_wire ''w1'') (exhausted_error 1 ex_refused)" "outcome_of ?r = Inl (exhausted_error 1 ex_refused)"
    by (simp_all add: ex_exhausted_def)
  have "exec gs_step gateway_new ?before ex_gap"
    by (rule exec_append [OF exec_append [OF exec_append [OF ex_claimed ex_crash] ex_started] ex_admitted])
  moreover have "exec gs_step ex_gap ?after ex_told"
    by (rule exec_append [OF exec_append [OF exec_single [where step = gs_step, OF ex_return_step] ex_too_late [folded ex_returning_def]] exec_single [where step = gs_step, OF ex_fired]])
  moreover have "LCall 0 ?w ex_request \<in> set ?after" "LWin 0 ?r \<in> set ?after" "LReturn ex_request (outcome_of ?r) \<in> set ?after"
    by (simp_all add: r(2) ex_late_labels_def)
  moreover have "map gh_pc (gs_handlers ex_told) = [HDone (outcome_of ?r)]"
    "gs_attempts ex_told = [\<lparr>ga_ih = 0, ga_pc = ADone\<rparr>, \<lparr>ga_ih = 0, ga_pc = AAir ?w\<rparr>]" by (simp_all add: ex_told_def ex_gs_def r(2))
  moreover have "gs_attempts ex_gap = [\<lparr>ga_ih = 0, ga_pc = AExhaust ?r\<rparr>]"
    "gs_poll ex_gap = PFiring [\<lparr>j_reqID = req_RequestId ex_request, j_ih = 0, j_target = ?w\<rparr>]" by (simp_all add: ex_gap_def ex_gs_def)
  moreover obtain ih where "heap (gs_tracker ex_told) 0 = Some ih" "ih_req ih = ex_request" "attempts ih = 1" "dispatched ih < maxAttempts"
    by (simp add: ex_told_def ex_returning_def ex_gs_def ex_table_def maxAttempts_def)
  ultimately show ?thesis
    using r(1) by (intro exI [of _ ?before] exI [of _ ex_gap] exI [of _ ?after] exI [of _ ex_told] exI [of _ ?r] exI [of _ ?w] exI [of _ ex_refused] exI [of _ ih] conjI)
qed

end
