(* ===== verification/Gateway_Process.thy ===== *)
theory Gateway_Process
  imports Gateway_Safety Go_Process
begin

text \<open>
  The gateway's process (\<^verbatim>\<open>cmd/gateway/main.go\<close> and \<^verbatim>\<open>PollLoop\<close>, \<^verbatim>\<open>connFor\<close>, \<^verbatim>\<open>Close\<close> of
  \<^verbatim>\<open>internal/gateway/gateway.go\<close>): the running gateway of \<open>Gateway_System\<close> inside the skeleton of
  \<open>Go_Process\<close>. Polls happen only inside the poll loop, calls are accepted only by a serving server,
  a dispatch goes through the cache of connections, and the process ends when its three goroutines
  have. \<open>newClient k\<close> is \<^verbatim>\<open>grpc.NewClient\<close> at its \<open>k\<close>-th use.
\<close>

section \<open>Start-up\<close>

text \<open>
  \<^verbatim>\<open>main\<close> up to its goroutines: the results of dialling the control plane and of \<^verbatim>\<open>net.Listen\<close> are
  arguments.
\<close>

definition controlPlaneAddr :: string where "controlPlaneAddr = ''localhost:50051''"
definition gatewayAddr :: string where "gatewayAddr = ''localhost:50052''"
definition pollInterval :: duration where "pollInterval = 500 * 1000000"

datatype loop_pc = LoopPolling | LoopSelect | LoopDone

record gateway_process =
  gp_core :: process
  gp_sys :: gateway_system
  gp_conns :: "string \<rightharpoonup> conn"
  gp_dials :: nat
  gp_loop :: loop_pc

definition gateway_start :: gateway_process where
  "gateway_start = \<lparr>gp_core = process_start 3, gp_sys = gateway_new, gp_conns = Map.empty, gp_dials = 0,
     gp_loop = LoopPolling\<rparr>"

definition gateway_main :: "(string \<Rightarrow> go_error + conn) \<Rightarrow> (string \<Rightarrow> go_error option) \<Rightarrow> gateway_process startup" where
  "gateway_main dial listen =
     (case dial controlPlaneAddr of
        Inl err \<Rightarrow> Fatal ''failed to dial control plane: %v'' [ArgErr err]
      | Inr c \<Rightarrow>
          (case listen gatewayAddr of
             Some err \<Rightarrow> Fatal ''failed to listen on %s: %v'' [ArgString gatewayAddr, ArgErr err]
           | None \<Rightarrow> Up gateway_start))"

section \<open>Steps\<close>

definition gp_running :: "gateway_process \<Rightarrow> nat" where
  "gp_running s = handlers_at handler_running (gp_sys s)"

datatype gp_label =
    GCore core_label
  | GSys gs_label
  | GDialFailed ptr wire_worker inference_request go_error
  | GPoll
  | GPollFailed
  | GTick
  | GLoopExit
  | GClose "conn list"

fun is_dispatch :: "gs_label \<Rightarrow> bool" where
  "is_dispatch (LCall p w req) = True"
| "is_dispatch l = False"

text \<open>
  Handlers and attempts run as in \<open>Gateway_System\<close>; a new handler needs the server to accept it, and a
  dispatch needs a connection. When the dial fails, \<^verbatim>\<open>dispatchRPC\<close> returns its error as the attempt's reply.
  The poll loop polls once at the start and then on every tick, until its \<^verbatim>\<open>select\<close> takes
  \<^verbatim>\<open><-ctx.Done()\<close>; a select with both cases ready may take either. Nothing runs once main has returned.
\<close>

inductive gp_step ::
  "grpc_server \<Rightarrow> (nat \<Rightarrow> string \<Rightarrow> go_error + conn) \<Rightarrow> gateway_process \<Rightarrow> gp_label \<Rightarrow> gateway_process \<Rightarrow> bool"
  for g :: grpc_server and newClient :: "nat \<Rightarrow> string \<Rightarrow> go_error + conn" and s :: gateway_process where
  gp_skeleton: "\<not> exited (gp_core s) \<Longrightarrow> core_step g (gp_running s) (gp_core s) cl c' \<Longrightarrow> cl \<notin> {CBridgeDone, CDone} \<Longrightarrow>
    gp_step g newClient s (GCore cl) (s\<lparr>gp_core := c'\<rparr>)"
| gp_serve: "\<not> exited (gp_core s) \<Longrightarrow> gs_step (gp_sys s) l t \<Longrightarrow> t \<noteq> gp_sys s \<Longrightarrow>
    gs_poll t = gs_poll (gp_sys s) \<Longrightarrow> \<not> is_dispatch l \<Longrightarrow>
    (length (gs_handlers t) \<noteq> length (gs_handlers (gp_sys s)) \<longrightarrow>
       serve_at (gp_core s) = Serving \<and> may_accept g (view_of (gp_core s) (gp_running s))) \<Longrightarrow>
    gp_step g newClient s (GSys l) (s\<lparr>gp_sys := t\<rparr>)"
| gp_call: "\<not> exited (gp_core s) \<Longrightarrow> gs_step (gp_sys s) (LCall p w req) t \<Longrightarrow>
    connFor (newClient (gp_dials s)) (wi_Address w) (gp_conns s) = (Inr c, conns') \<Longrightarrow>
    gp_step g newClient s (GSys (LCall p w req))
      (s\<lparr>gp_sys := t, gp_conns := conns',
         gp_dials := gp_dials s + (if gp_conns s (wi_Address w) = None then 1 else 0)\<rparr>)"
| gp_dial_failed: "\<not> exited (gp_core s) \<Longrightarrow> gs_step (gp_sys s) (LCall p w req) u \<Longrightarrow>
    gs_step u (LReply p w (Inl e)) t \<Longrightarrow>
    connFor (newClient (gp_dials s)) (wi_Address w) (gp_conns s) = (Inl e, conns') \<Longrightarrow>
    gp_step g newClient s (GDialFailed p w req e) (s\<lparr>gp_sys := t, gp_conns := conns'\<rparr>)"
| gp_poll_step: "\<not> exited (gp_core s) \<Longrightarrow> gp_loop s = LoopPolling \<Longrightarrow> gs_step (gp_sys s) l t \<Longrightarrow>
    gs_poll t \<noteq> gs_poll (gp_sys s) \<Longrightarrow>
    gp_step g newClient s GPoll (s\<lparr>gp_sys := t, gp_loop := (if gs_poll t = PIdle then LoopSelect else LoopPolling)\<rparr>)"
| gp_poll_failed: "\<not> exited (gp_core s) \<Longrightarrow> gp_loop s = LoopPolling \<Longrightarrow> gs_poll (gp_sys s) = PIdle \<Longrightarrow>
    gp_step g newClient s GPollFailed (s\<lparr>gp_loop := LoopSelect\<rparr>)"
| gp_tick: "\<not> exited (gp_core s) \<Longrightarrow> gp_loop s = LoopSelect \<Longrightarrow>
    gp_step g newClient s GTick (s\<lparr>gp_loop := LoopPolling\<rparr>)"
| gp_loop_exit: "\<not> exited (gp_core s) \<Longrightarrow> gp_loop s = LoopSelect \<Longrightarrow> ctx_done (gp_core s) \<Longrightarrow>
    core_step g (gp_running s) (gp_core s) CDone c' \<Longrightarrow>
    gp_step g newClient s GLoopExit (s\<lparr>gp_core := c', gp_loop := LoopDone\<rparr>)"
| gp_close: "\<not> exited (gp_core s) \<Longrightarrow> iterates (gp_conns s) ks \<Longrightarrow> Close_conns ks (gp_conns s) = (cs, conns') \<Longrightarrow>
    core_step g (gp_running s) (gp_core s) CBridgeDone c' \<Longrightarrow>
    gp_step g newClient s (GClose cs) (s\<lparr>gp_core := c', gp_conns := conns'\<rparr>)"

inductive_cases gp_stepE: "gp_step g newClient s l t"

definition gp_init :: "gateway_process \<Rightarrow> bool" where
  "gp_init s \<longleftrightarrow> s = gateway_start"

section \<open>The process is a run of the gateway\<close>

text \<open>What a step of the process does inside the gateway.\<close>

fun sys_labels :: "gp_label \<Rightarrow> gs_label list" where
  "sys_labels (GSys l) = [l]"
| "sys_labels (GDialFailed p w req e) = [LCall p w req, LReply p w (Inl e)]"
| "sys_labels GPoll = [LTau]"
| "sys_labels l = []"

lemma gp_step_sys:
  assumes "gp_step g newClient s l t"
  shows "exec gs_step (gp_sys s) (sys_labels l) (gp_sys t)"
  using assms
proof cases
  case (gp_dial_failed p w req u e t' conns')
  from exec_cons [where step = gs_step, OF gp_dial_failed(4) exec_single [where step = gs_step, OF gp_dial_failed(5)]]
  show ?thesis using gp_dial_failed(1,2) by simp
next
  case (gp_poll_step l' t')
  then show ?thesis using gs_step_poll_label [OF gp_poll_step(5,6)] by auto
qed auto

lemma gp_exec_sys:
  "exec (gp_step g newClient) s ls t \<Longrightarrow> exec gs_step (gp_sys s) (concat (map sys_labels ls)) (gp_sys t)"
proof (induction rule: exec.induct)
  case (exec_snoc ls t l u)
  from exec_append [OF gp_step_sys [OF exec_snoc(2)] exec_snoc(3)] show ?case by simp
qed auto

lemma gp_sys_reachable: "reachable gp_init (gp_step g newClient) s \<Longrightarrow> reachable gs_init gs_step (gp_sys s)"
  unfolding reachable_def gp_init_def
  using gp_exec_sys by (fastforce simp: gateway_start_def gs_init_def)

section \<open>The skeleton's contract\<close>

lemma gs_call_frame: "gs_step u (LCall p w req) t \<Longrightarrow> gs_handlers t = gs_handlers u \<and> gs_poll t = gs_poll u"
  by (erule gs_step.cases) (auto simp: set_record_def set_attempt_def)

lemma gs_reply_frame: "gs_step u (LReply p w x) t \<Longrightarrow> gs_handlers t = gs_handlers u \<and> gs_poll t = gs_poll u"
  by (erule gs_step.cases) (auto simp: set_record_def set_attempt_def)

lemma gs_poll_frame: "gs_step u l t \<Longrightarrow> gs_poll t \<noteq> gs_poll u \<Longrightarrow> gs_handlers t = gs_handlers u"
  by (erule gs_step.cases) (auto simp: set_handler_def set_record_def set_attempt_def launch_def)

lemma gp_running_frame: "gs_handlers (gp_sys t) = gs_handlers (gp_sys s) \<Longrightarrow> gp_running t = gp_running s"
  by (simp add: gp_running_def handlers_at_def)

lemma gp_server_step:
  assumes "gp_step g newClient s l t"
  shows "(\<exists>cl. core_step g (gp_running s) (gp_core s) cl (gp_core t)) \<and> gp_running t = gp_running s
     \<or> gp_core t = gp_core s \<and> (gp_running t \<le> gp_running s \<or> may_accept g (view_of (gp_core s) (gp_running s)))"
  using assms
proof cases
  case (gp_serve l' t')
  then show ?thesis using handlers_running_step [OF gp_serve(4)] by (auto simp: gp_running_def)
next
  case (gp_call p w req t' c conns')
  then show ?thesis using gs_call_frame [OF gp_call(4)] gp_running_frame [of t s] by simp
next
  case (gp_dial_failed p w req u e t' conns')
  then show ?thesis
    using gs_call_frame [OF gp_dial_failed(4)] gs_reply_frame [OF gp_dial_failed(5)] gp_running_frame [of t s] by simp
next
  case (gp_poll_step l' t')
  then show ?thesis using gs_poll_frame [OF gp_poll_step(5,6)] gp_running_frame [of t s] by simp
qed (auto simp: gp_running_def intro: core_done core_bridge_done)

interpretation gwp: server_process g gp_init "gp_step g newClient" gp_core gp_running
proof
  show "(\<exists>n. gp_core s = process_start n) \<and> gp_running s = 0" if "gp_init s" for s
    using that by (auto simp: gp_init_def gateway_start_def gp_running_def handlers_at_def gateway_new_def)
qed (rule gp_server_step)

section \<open>The invariant\<close>

definition loop_live :: "gateway_process \<Rightarrow> int" where
  "loop_live s = (if gp_loop s = LoopDone then 0 else 1)"

text \<open>
  The \<^verbatim>\<open>WaitGroup\<close> counts the live goroutines; a poll runs only inside the loop; and until \<^verbatim>\<open>Close\<close> every
  address has been dialled at most once.
\<close>

definition gp_inv :: "gateway_process \<Rightarrow> bool" where
  "gp_inv s \<longleftrightarrow> gs_inv (gp_sys s)
     \<and> (gs_poll (gp_sys s) \<noteq> PIdle \<longrightarrow> gp_loop s = LoopPolling)
     \<and> wg (gp_core s) = serve_live (gp_core s) + bridge_live (gp_core s) + loop_live s
     \<and> (gp_loop s = LoopDone \<longrightarrow> ctx_done (gp_core s)) \<and> (exited (gp_core s) \<longrightarrow> wg (gp_core s) = 0)
     \<and> finite (dom (gp_conns s)) \<and> (stop_at (gp_core s) \<noteq> StopDone \<longrightarrow> gp_dials s = card (dom (gp_conns s)))"

lemma gp_inv_init: "gp_init s \<Longrightarrow> gp_inv s"
  using gs_inv_init [of gateway_new]
  by (simp add: gp_init_def gp_inv_def gateway_start_def gs_init_def gateway_new_def process_start_def
      serve_live_def bridge_live_def loop_live_def)

lemma connFor_dom:
  assumes "connFor nc addr conns = (res, conns')"
  shows "res = Inr c \<Longrightarrow> dom conns' = insert addr (dom conns)" "res = Inl e \<Longrightarrow> conns' = conns \<and> conns addr = None"
  using assms by (auto simp: connFor_def split: option.splits sum.splits)

lemma core_step_stop:
  "core_step g k c l c' \<Longrightarrow> l \<noteq> CBridgeDone \<Longrightarrow> stop_at c' = StopDone \<longleftrightarrow> stop_at c = StopDone"
  by (erule core_step.cases) auto

lemma gp_inv_step:
  assumes inv: "gp_inv s" and step: "gp_step g newClient s l t"
  shows "gp_inv t"
proof -
  have sys: "gs_inv (gp_sys t)"
    using gs.sinv_exec [OF gp_step_sys [OF step]] inv by (simp add: gp_inv_def)
  show ?thesis using step
  proof cases
    case (gp_skeleton cl c')
    have "wg c' = serve_live c' + bridge_live c' + loop_live s"
      using core_wg [OF gp_skeleton(4)] core_frame(3) [OF gp_skeleton(4)] gp_skeleton(5) inv by (simp add: gp_inv_def)
    moreover have "exited c' \<Longrightarrow> wg c' = 0"
      using gp_skeleton(3-5) by (auto elim: core_stepE)
    ultimately show ?thesis
      using inv sys gp_skeleton(1,2,5) core_frame(1) [OF gp_skeleton(4)] core_step_stop [OF gp_skeleton(4)]
      by (auto simp: gp_inv_def loop_live_def)
  next
    case (gp_call p w req t' c conns')
    have d: "dom conns' = insert (wi_Address w) (dom (gp_conns s))" using connFor_dom(1) [OF gp_call(5)] by simp
    have "card (dom conns') = card (dom (gp_conns s)) + (if gp_conns s (wi_Address w) = None then 1 else 0)"
      using inv unfolding d by (auto simp: gp_inv_def card_insert_if domIff)
    then show ?thesis
      using inv sys gp_call(1,2) gs_call_frame [OF gp_call(4)] d by (auto simp: gp_inv_def loop_live_def)
  next
    case (gp_dial_failed p w req u e t' conns')
    then show ?thesis
      using inv sys gs_call_frame [OF gp_dial_failed(4)] gs_reply_frame [OF gp_dial_failed(5)]
        connFor_dom(2) [OF gp_dial_failed(6)]
      by (auto simp: gp_inv_def loop_live_def)
  next
    case (gp_loop_exit c')
    from gp_loop_exit(6) show ?thesis
      using inv sys gp_loop_exit(1-5) by cases (auto simp: gp_inv_def loop_live_def serve_live_def bridge_live_def)
  next
    case (gp_close ks cs conns')
    have "conns' = Map.empty" using close_drops_everything [OF gp_close(4)] gp_close(5) by simp
    with gp_close(6) show ?thesis
      using inv sys gp_close(1-3) by cases (auto simp: gp_inv_def loop_live_def serve_live_def bridge_live_def)
  qed (use inv sys in \<open>auto simp: gp_inv_def loop_live_def\<close>)
qed

interpretation gwi: state_invariant gp_init "gp_step g newClient" gp_inv
  by unfold_locales (auto intro: gp_inv_init gp_inv_step)

section \<open>The trace\<close>

fun is_loop :: "gp_label \<Rightarrow> bool" where
  "is_loop GPoll = True"
| "is_loop GPollFailed = True"
| "is_loop GTick = True"
| "is_loop GLoopExit = True"
| "is_loop l = False"

text \<open>The addresses that calls have gone to.\<close>

definition called_addrs :: "gp_label list \<Rightarrow> string set" where
  "called_addrs ls = {wi_Address w |p w req. GSys (LCall p w req) \<in> set ls}"

lemma called_addrs_snoc [simp]:
  "called_addrs (ls @ [GSys (LCall p w req)]) = insert (wi_Address w) (called_addrs ls)"
  "\<not> (\<exists>p w req. l = GSys (LCall p w req)) \<Longrightarrow> called_addrs (ls @ [l]) = called_addrs ls"
  by (auto simp: called_addrs_def)

text \<open>
  What the trace tells of the state: whether \<^verbatim>\<open>GracefulStop\<close> has been called, the loop has left and main has
  returned; until \<^verbatim>\<open>Close\<close> the cached addresses are the called ones; and a loop about to poll has just started
  or just seen a tick.
\<close>

definition process_trace :: "gp_label list \<Rightarrow> gateway_process \<Rightarrow> bool" where
  "process_trace ls s \<longleftrightarrow> (GCore CStop \<in> set ls \<longleftrightarrow> stop_at (gp_core s) \<noteq> AwaitCtx)
     \<and> (GLoopExit \<in> set ls \<longleftrightarrow> gp_loop s = LoopDone) \<and> (GCore CExit \<in> set ls \<longleftrightarrow> exited (gp_core s))
     \<and> ((\<forall>cs. GClose cs \<notin> set ls) \<longrightarrow> dom (gp_conns s) = called_addrs ls)
     \<and> (gp_loop s = LoopPolling \<and> gs_poll (gp_sys s) = PIdle \<longrightarrow>
          filter is_loop ls = [] \<or> last (filter is_loop ls) = GTick)"

lemma core_step_labels:
  assumes "core_step g k c l c'"
  shows "stop_at c' \<noteq> AwaitCtx \<longleftrightarrow> stop_at c \<noteq> AwaitCtx \<or> l = CStop" "exited c' \<longleftrightarrow> exited c \<or> l = CExit"
  using assms by (cases; auto)+

lemma process_trace_step:
  assumes inv: "process_trace ls s" and step: "gp_step g newClient s l t"
  shows "process_trace (ls @ [l]) t"
  using step
proof cases
  case (gp_skeleton cl c')
  then show ?thesis using inv core_step_labels [OF gp_skeleton(4)] by (auto simp: process_trace_def)
next
  case (gp_serve l' t')
  have "called_addrs (ls @ [l]) = called_addrs ls" using gp_serve(1,7) by (intro called_addrs_snoc(2)) auto
  then show ?thesis using inv gp_serve(1,2,6) by (auto simp: process_trace_def)
next
  case (gp_call p w req t' c conns')
  then show ?thesis
    using inv connFor_dom(1) [OF gp_call(5)] gs_call_frame [OF gp_call(4)] by (auto simp: process_trace_def)
next
  case (gp_dial_failed p w req u e t' conns')
  then show ?thesis
    using inv connFor_dom(2) [OF gp_dial_failed(6)] gs_call_frame [OF gp_dial_failed(4)]
      gs_reply_frame [OF gp_dial_failed(5)] by (auto simp: process_trace_def)
next
  case (gp_poll_step l' t')
  then show ?thesis using inv by (auto simp: process_trace_def)
next
  case (gp_loop_exit c')
  then show ?thesis using inv core_step_labels [OF gp_loop_exit(6)] by (auto simp: process_trace_def)
next
  case (gp_close ks cs conns' c')
  then show ?thesis using inv core_step_labels [OF gp_close(6)] by (auto simp: process_trace_def)
qed (use inv in \<open>auto simp: process_trace_def\<close>)

interpretation gwt: trace_invariant gp_init "gp_step g newClient" process_trace
proof
  show "process_trace [] s" if "gp_init s" for s
    using that
    by (simp add: gp_init_def process_trace_def gateway_start_def process_start_def called_addrs_def gateway_new_def)
qed (rule process_trace_step)

text \<open>What a step needs of the state.\<close>

lemma gp_step_live: "gp_step g newClient s l t \<Longrightarrow> \<not> exited (gp_core s)"
  by (erule gp_step.cases) auto

lemma accepts_only_before_stop:
  assumes ok: "grpc_ok g" and step: "gp_step g newClient s l t"
    and more: "length (gs_handlers (gp_sys t)) \<noteq> length (gs_handlers (gp_sys s))"
  shows "stop_at (gp_core s) = AwaitCtx"
  using step
proof cases
  case (gp_serve l' t')
  then show ?thesis using grpc_okD(1) [OF ok, of "view_of (gp_core s) (gp_running s)"] more by auto
next
  case (gp_call p w req t' c conns')
  then show ?thesis using gs_call_frame [OF gp_call(4)] more by simp
next
  case (gp_dial_failed p w req u e t' conns')
  then show ?thesis using gs_call_frame [OF gp_dial_failed(4)] gs_reply_frame [OF gp_dial_failed(5)] more by simp
next
  case (gp_poll_step l' t')
  then show ?thesis using gs_poll_frame [OF gp_poll_step(5,6)] more by simp
qed (use more in auto)

lemma loop_step_live: "gp_step g newClient s l t \<Longrightarrow> is_loop l \<Longrightarrow> gp_loop s \<noteq> LoopDone"
  by (erule gp_step.cases) auto

lemma poll_step_polling:
  assumes "gp_step g newClient s l t" and "gs_poll (gp_sys t) \<noteq> gs_poll (gp_sys s)"
  shows "gp_loop s = LoopPolling"
  using assms gs_call_frame gs_reply_frame by (cases rule: gp_step.cases) auto

lemma dispatch_uses_cache:
  assumes "gp_step g newClient s (GSys (LCall p w req)) t"
  shows "gp_conns t (wi_Address w) \<noteq> None"
    "gp_dials t = gp_dials s + of_bool (gp_conns s (wi_Address w) = None)"
    "gp_conns s (wi_Address w) \<noteq> None \<Longrightarrow> gp_conns t = gp_conns s"
  using assms by (auto elim!: gp_stepE simp: connFor_def split: option.splits sum.splits)

lemma gp_exited_inv:
  assumes "gp_inv s" and "exited (gp_core s)"
  shows "gp_loop s = LoopDone" "serve_at (gp_core s) = ServeReturned" "stop_at (gp_core s) = StopDone"
    "gs_poll (gp_sys s) = PIdle" "ctx_done (gp_core s)"
proof -
  have "serve_live (gp_core s) + bridge_live (gp_core s) + loop_live s = 0" using assms by (simp add: gp_inv_def)
  then show "gp_loop s = LoopDone" "serve_at (gp_core s) = ServeReturned" "stop_at (gp_core s) = StopDone"
    by (auto simp: serve_live_def bridge_live_def loop_live_def split: if_splits)
  with assms(1) show "gs_poll (gp_sys s) = PIdle" "ctx_done (gp_core s)" by (auto simp: gp_inv_def)
qed

lemma not_running: "gp_running s = 0 \<Longrightarrow> h \<in> set (gs_handlers (gp_sys s)) \<Longrightarrow> \<exists>out. gh_pc h = HDone out"
  by (cases "gh_pc h") (auto simp: gp_running_def handlers_at_def count_if_zero dest: bspec [of _ _ h])

section \<open>Shutdown winds down\<close>

text \<open>What is left to do; only a tick that the loop still takes adds to it.\<close>

definition loop_weight :: "loop_pc \<Rightarrow> poll_pc \<Rightarrow> nat" where
  "loop_weight l pp = (case l of LoopDone \<Rightarrow> 0 | LoopSelect \<Rightarrow> 1 | LoopPolling \<Rightarrow> (if pp = PIdle then 7 else 2))"

definition shutdown_left :: "gateway_process \<Rightarrow> nat" where
  "shutdown_left s = drain_weight (gp_sys s) + loop_weight (gp_loop s) (gs_poll (gp_sys s)) + core_rank (gp_core s)"

lemma gp_step_shutdown:
  assumes ok: "grpc_ok g" and inv: "gp_inv s" and stop: "stop_at (gp_core s) \<noteq> AwaitCtx" "ctx_done (gp_core s)"
    and step: "gp_step g newClient s l t"
  shows "shutdown_left t + 1 \<le> shutdown_left s + (if l = GTick then 7 else 0)"
  using step
proof cases
  case (gp_skeleton cl c')
  then have "core_rank c' < core_rank (gp_core s)" using core_rank_step [OF gp_skeleton(4) stop(2)] by simp
  then show ?thesis using gp_skeleton by (simp add: shutdown_left_def)
next
  case (gp_serve l' t')
  have "length (gs_handlers t') = length (gs_handlers (gp_sys s))"
    using gp_serve(8) grpc_okD(1) [OF ok, of "view_of (gp_core s) (gp_running s)"] stop(1) by auto
  then have "drain_weight t' < drain_weight (gp_sys s)"
    using gs_step_drains [OF _ gp_serve(4,5)] inv gp_serve(6) by (simp add: gp_inv_def)
  then show ?thesis using gp_serve(1,2,6) by (simp add: shutdown_left_def)
next
  case (gp_call p w req t' c conns')
  have "drain_weight t' < drain_weight (gp_sys s)"
    using gs_step_drains [OF _ gp_call(4)] inv gs_call_frame [OF gp_call(4)] work_step_moves(1) [OF gp_call(4), of p]
    by (auto simp: gp_inv_def)
  then show ?thesis using gp_call gs_call_frame [OF gp_call(4)] by (simp add: shutdown_left_def)
next
  case (gp_dial_failed p w req u e t' conns')
  have i: "gs_inv (gp_sys s)" "gs_inv u"
    using inv gs_inv_step [OF _ gp_dial_failed(4)] by (auto simp: gp_inv_def)
  have "drain_weight u < drain_weight (gp_sys s)"
    using gs_step_drains [OF i(1) gp_dial_failed(4)] gs_call_frame [OF gp_dial_failed(4)]
      work_step_moves(1) [OF gp_dial_failed(4), of p] by auto
  moreover have "drain_weight t' < drain_weight u"
    using gs_step_drains [OF i(2) gp_dial_failed(5)] gs_reply_frame [OF gp_dial_failed(5)]
      work_step_moves(1) [OF gp_dial_failed(5), of p] by auto
  ultimately show ?thesis
    using gp_dial_failed(1,2) gs_call_frame [OF gp_dial_failed(4)] gs_reply_frame [OF gp_dial_failed(5)]
    by (simp add: shutdown_left_def)
next
  case (gp_poll_step l' t')
  have i: "gs_inv (gp_sys s)" and h: "gs_handlers t' = gs_handlers (gp_sys s)"
    using inv gs_poll_frame [OF gp_poll_step(5,6)] by (auto simp: gp_inv_def)
  show ?thesis
  proof (cases "gs_poll (gp_sys s) = PIdle")
    case True
    then show ?thesis
      using gs_step_poll_start [OF gp_poll_step(5)] gp_poll_step(1,2,4,6) by (simp add: shutdown_left_def loop_weight_def)
  next
    case False
    then have "drain_weight t' < drain_weight (gp_sys s)"
      using gs_step_drains [OF i gp_poll_step(5)] gp_poll_step(6) h by auto
    then show ?thesis using False gp_poll_step(1,2,4) by (simp add: shutdown_left_def loop_weight_def)
  qed
next
  case gp_poll_failed
  then show ?thesis by (simp add: shutdown_left_def loop_weight_def)
next
  case gp_tick
  then show ?thesis by (simp add: shutdown_left_def loop_weight_def)
next
  case (gp_loop_exit c')
  from gp_loop_exit(6) show ?thesis
    using gp_loop_exit(1,2,4) by cases (simp_all add: shutdown_left_def loop_weight_def)
next
  case (gp_close ks cs conns' c')
  then have "core_rank c' < core_rank (gp_core s)" using core_rank_step [OF gp_close(6) stop(2)] by simp
  then show ?thesis using gp_close by (simp add: shutdown_left_def)
qed

lemma gp_stop_persists:
  assumes "gp_step g newClient s l t" and "stop_at (gp_core s) \<noteq> AwaitCtx \<and> ctx_done (gp_core s)"
  shows "stop_at (gp_core t) \<noteq> AwaitCtx \<and> ctx_done (gp_core t)"
proof -
  have "stop_at c' \<noteq> AwaitCtx \<and> ctx_done c'"
    if "core_step g k c cl c'" "stop_at c \<noteq> AwaitCtx \<and> ctx_done c" for k c cl c'
    using that by cases auto
  then show ?thesis using gp_server_step [OF assms(1)] assms(2) by auto
qed

lemma shutdown_run:
  assumes ok: "grpc_ok g" and "exec (gp_step g newClient) s ls t"
    and "gp_inv s" and "stop_at (gp_core s) \<noteq> AwaitCtx" and "ctx_done (gp_core s)"
  shows "shutdown_left t + length ls \<le> shutdown_left s + 7 * count_if (\<lambda>l. l = GTick) ls
     \<and> gp_inv t \<and> stop_at (gp_core t) \<noteq> AwaitCtx \<and> ctx_done (gp_core t)"
  using assms(2)
proof (induction rule: exec.induct)
  case exec_nil
  then show ?case using assms by simp
next
  case (exec_snoc ls t l u)
  then have t: "gp_inv t" "stop_at (gp_core t) \<noteq> AwaitCtx" "ctx_done (gp_core t)" by auto
  from gp_step_shutdown [OF ok t exec_snoc(2)] exec_snoc.IH gp_stop_persists [OF exec_snoc(2)] t
    gp_inv_step [OF t(1) exec_snoc(2)] show ?case by auto
qed

section \<open>Shutdown never gets stuck\<close>

lemma call_then_error:
  assumes "gs_step s (LCall p w req) u"
  shows "\<exists>t. gs_step u (LReply p w (Inl e)) t"
proof -
  obtain i q pc ih ih' pc' where a: "i < length (gs_attempts s)" "gs_attempts s ! i = \<lparr>ga_ih = q, ga_pc = pc\<rparr>"
      "u = set_record q ih' (set_attempt i pc' s)" "attempt_step (gs_view s) q ih pc (LCall p w req) ih' pc'"
    using assms by (cases rule: gs_step.cases) auto
  from a(4) have "q = p" "pc' = AAir w" by (cases, auto)+
  then have "i < length (gs_attempts u)" "gs_attempts u ! i = \<lparr>ga_ih = p, ga_pc = AAir w\<rparr>"
      "heap (gs_tracker u) p = Some ih'"
    using a(1-3) by (simp_all add: set_record_def set_attempt_def)
  from gs_attempt [OF this as_error] show ?thesis by blast
qed

text \<open>A step of the gateway that leaves the poll and the number of handlers alone is one of the process.\<close>

lemma gp_serve_step:
  assumes live: "\<not> exited (gp_core s)" and step: "gs_step (gp_sys s) l t" and "t \<noteq> gp_sys s"
    and "gs_poll t = gs_poll (gp_sys s)" and "length (gs_handlers t) = length (gs_handlers (gp_sys s))"
  shows "\<exists>l' t'. gp_step g newClient s l' t' \<and> l' \<noteq> GTick"
proof (cases "is_dispatch l")
  case False
  from gp_serve [OF live step assms(3,4) this] assms(5) show ?thesis by blast
next
  case True
  then obtain p w req where l: "l = LCall p w req" by (cases l) auto
  obtain res conns' where c: "connFor (newClient (gp_dials s)) (wi_Address w) (gp_conns s) = (res, conns')"
    by (metis prod.exhaust)
  show ?thesis
  proof (cases res)
    case (Inl e)
    obtain t' where "gs_step t (LReply p w (Inl e)) t'" using call_then_error step l by blast
    from gp_dial_failed [where g = g and newClient = newClient, OF live step [unfolded l] this c [unfolded Inl]]
    show ?thesis by blast
  next
    case (Inr x)
    from gp_call [where g = g and newClient = newClient, OF live step [unfolded l] c [unfolded Inr]]
    show ?thesis by blast
  qed
qed

lemma running_handler_steps:
  assumes inv: "gp_inv s" and live: "\<not> exited (gp_core s)" and reach: "reachable gs_init gs_step (gp_sys s)"
    and h: "i < length (gs_handlers (gp_sys s))" "handler_running (gh_pc (gs_handlers (gp_sys s) ! i))"
    and idle: "gs_poll (gp_sys s) = PIdle"
  shows "\<exists>l' t'. gp_step g newClient s l' t' \<and> l' \<noteq> GTick"
proof -
  let ?u = "gp_sys s" and ?pc = "gh_pc (gs_handlers (gp_sys s) ! i)"
  have at: "handler_at i ?pc ?u" using h(1) by (simp add: handler_at_def)
  show ?thesis
  proof (cases "\<exists>p. ?pc = HWaiting p")
    case False
    then have free: "\<forall>p. ?pc = HWaiting p \<longrightarrow> (\<exists>ih. heap (gs_tracker ?u) p = Some ih \<and> ih_result ih \<noteq> [])" by blast
    show ?thesis by (rule handler_moves [OF at h(2) free]) (rule gp_serve_step [OF live])
  next
    case True
    then obtain p where p: "?pc = HWaiting p" ..
    from waiting_progress [OF reach at [unfolded p]] show ?thesis
    proof (elim disjE exE conjE bexE)
      fix ih r ih'
      assume "heap (gs_tracker ?u) p = Some ih" "take_result ih = Some (r, ih')"
      then have "\<exists>ih. heap (gs_tracker ?u) p = Some ih \<and> ih_result ih \<noteq> []" by (auto simp: take_result_def)
      then have free: "\<forall>q. ?pc = HWaiting q \<longrightarrow> (\<exists>ih. heap (gs_tracker ?u) q = Some ih \<and> ih_result ih \<noteq> [])" using p by simp
      show ?thesis by (rule handler_moves [OF at h(2) free]) (rule gp_serve_step [OF live])
    next
      fix l t assume w: "gs_step ?u l t" "is_work p l"
      note m = work_step_moves [OF w]
      from gp_serve_step [OF live w(1) m(1,2)] m(3) show ?thesis by simp
    next
      fix j assume "j \<in> set (jobs_of (gs_poll ?u))"
      with idle show ?thesis by simp
    qed
  qed
qed

lemma shutdown_can_step:
  assumes ok: "grpc_ok g" and reach: "reachable gp_init (gp_step g newClient) s"
    and ctx: "ctx_done (gp_core s)" and live: "\<not> exited (gp_core s)"
  shows "\<exists>l t. gp_step g newClient s l t \<and> l \<noteq> GTick"
proof -
  have inv: "gp_inv s" by (rule gwi.sinv_reachable [OF reach])
  then have wg: "wg (gp_core s) = serve_live (gp_core s) + bridge_live (gp_core s) + loop_live s"
    by (simp add: gp_inv_def)
  consider (select) "gp_loop s = LoopSelect"
    | (start) "gp_loop s = LoopPolling" "gs_poll (gp_sys s) = PIdle"
    | (poll) "gp_loop s = LoopPolling" "gs_poll (gp_sys s) \<noteq> PIdle"
    | (handler) "gp_loop s = LoopDone" "0 < gp_running s"
    | (skeleton) "gp_loop s = LoopDone" "gp_running s = 0"
    by (cases "gp_loop s") auto
  then show ?thesis
  proof cases
    case select
    from gp_loop_exit [OF live this ctx core_done] show ?thesis by blast
  next
    case start
    from gp_poll_failed [OF live this] show ?thesis by blast
  next
    case poll
    obtain t where "gs_step (gp_sys s) LTau t" "gs_poll t \<noteq> gs_poll (gp_sys s)"
      using poll_can_step [OF _ poll(2)] inv by (auto simp: gp_inv_def)
    from gp_poll_step [OF live poll(1) this] show ?thesis by blast
  next
    case handler
    then obtain i where "i < length (gs_handlers (gp_sys s))" "handler_running (gh_pc (gs_handlers (gp_sys s) ! i))"
      by (auto simp: gp_running_def handlers_at_def count_if_pos in_set_conv_nth)
    moreover have "gs_poll (gp_sys s) = PIdle" using inv handler(1) by (auto simp: gp_inv_def)
    ultimately show ?thesis by (rule running_handler_steps [OF inv live gp_sys_reachable [OF reach]])
  next
    case skeleton
    from gwp.stop_progress [OF ok ctx skeleton(2)] show ?thesis
    proof (elim disjE exE conjE)
      fix cl c' assume "cl \<notin> {CSignal, CBridgeDone, CDone, CExit}" "core_step g (gp_running s) (gp_core s) cl c'"
      from gp_skeleton [OF live this(2)] this(1) show ?thesis by blast
    next
      assume st: "stop_at (gp_core s) \<in> {Stopped, StopDone}" "serve_at (gp_core s) = ServeReturned"
      show ?thesis
      proof (cases "stop_at (gp_core s) = Stopped")
        case True
        have "finite (dom (gp_conns s))" using inv by (simp add: gp_inv_def)
        then obtain ks where "iterates (gp_conns s) ks" using iterates_exists by blast
        from gp_close [OF live this surjective_pairing core_bridge_done [OF True]] show ?thesis by blast
      next
        case False
        then have "wg (gp_core s) = 0"
          using st skeleton(1) wg by (simp add: serve_live_def bridge_live_def loop_live_def)
        from gp_skeleton [OF live core_exit [OF this]] show ?thesis by blast
      qed
    qed
  qed
qed

section \<open>A run\<close>

text \<open>
  A client gives up while its attempt is in the air; then the process is told to stop. The server has
  nothing left to drain, the connections are closed and main returns, all with the attempt unanswered.
\<close>

definition ex_dial :: "nat \<Rightarrow> string \<Rightarrow> go_error + conn" where
  "ex_dial k addr = Inr k"

definition ex_gone :: gateway_system where
  "ex_gone = ex_gs [ex_wire ''w1'']
     \<lparr>requests = Map.empty, heap = heap (ex_table ''w1'' 1 1 {} False []), next_ptr = 1\<rparr>
     (HDone (Inl (from_context_error CtxCanceled))) [AAir (ex_wire ''w1'')] PIdle"

lemma ex_abandoned:
  "gs_step (ex_in (HWaiting 0) [AStart (ex_wire ''w1'')]) (LCall 0 (ex_wire ''w1'') ex_request)
     (ex_in (HWaiting 0) [AAir (ex_wire ''w1'')])"
  "gs_step (ex_in (HWaiting 0) [AAir (ex_wire ''w1'')]) LTau
     (ex_in (HReturning 0 (Inl (from_context_error CtxCanceled))) [AAir (ex_wire ''w1'')])"
  "gs_step (ex_in (HReturning 0 (Inl (from_context_error CtxCanceled))) [AAir (ex_wire ''w1'')])
     (LReturn ex_request (Inl (from_context_error CtxCanceled))) ex_gone"
proof -
  let ?ih = "\<lparr>ih_req = ex_request, assigned = ''w1'', attempts = 1, dispatched = 1, tried = {},
       claimed = False, ih_result = []\<rparr>"
  show "gs_step (ex_in (HWaiting 0) [AStart (ex_wire ''w1'')]) (LCall 0 (ex_wire ''w1'') ex_request)
     (ex_in (HWaiting 0) [AAir (ex_wire ''w1'')])"
    using ex_attempt [OF as_call [of "[ex_wire ''w1'']" 0 ?ih "ex_wire ''w1''", simplified], of 0
        "[AStart (ex_wire ''w1'')]"] by simp
  show "gs_step (ex_in (HWaiting 0) [AAir (ex_wire ''w1'')]) LTau
     (ex_in (HReturning 0 (Inl (from_context_error CtxCanceled))) [AAir (ex_wire ''w1'')])"
    using gs_give_up [of 0 0 "ex_in (HWaiting 0) [AAir (ex_wire ''w1'')]" CtxCanceled] by (simp add: ex_defs)
  show "gs_step (ex_in (HReturning 0 (Inl (from_context_error CtxCanceled))) [AAir (ex_wire ''w1'')])
     (LReturn ex_request (Inl (from_context_error CtxCanceled))) ex_gone"
    using gs_return [of 0 0 "Inl (from_context_error CtxCanceled)"
        "ex_in (HReturning 0 (Inl (from_context_error CtxCanceled))) [AAir (ex_wire ''w1'')]"]
    by (simp add: ex_defs ex_gone_def unregister_def ex_request_def)
qed

definition gp_at :: "process \<Rightarrow> gateway_system \<Rightarrow> (string \<rightharpoonup> conn) \<Rightarrow> nat \<Rightarrow> loop_pc \<Rightarrow> gateway_process" where
  "gp_at c u conns k l = \<lparr>gp_core = c, gp_sys = u, gp_conns = conns, gp_dials = k, gp_loop = l\<rparr>"

lemma gp_at_sel [simp]:
  "gp_core (gp_at c u conns k l) = c" "gp_sys (gp_at c u conns k l) = u" "gp_conns (gp_at c u conns k l) = conns"
  "gp_dials (gp_at c u conns k l) = k" "gp_loop (gp_at c u conns k l) = l"
  by (simp_all add: gp_at_def)

abbreviation ex_step :: "gateway_process \<Rightarrow> gp_label \<Rightarrow> gateway_process \<Rightarrow> bool" where
  "ex_step \<equiv> gp_step sample_server ex_dial"

lemma gp_at_poll:
  assumes "gs_step u l v" and "gs_poll v \<noteq> gs_poll u" and "\<not> exited c"
  shows "ex_step (gp_at c u conns k LoopPolling) GPoll
     (gp_at c v conns k (if gs_poll v = PIdle then LoopSelect else LoopPolling))"
  using gp_poll_step [of "gp_at c u conns k LoopPolling" l v sample_server ex_dial] assms by (simp add: gp_at_def)

lemma gp_at_serve:
  assumes "gs_step u l v" and "v \<noteq> u" and "gs_poll v = gs_poll u" and "\<not> is_dispatch l" and "\<not> exited c"
    and "serve_at c = Serving" and "stop_at c = AwaitCtx"
  shows "ex_step (gp_at c u conns k lp) (GSys l) (gp_at c v conns k lp)"
  using gp_serve [of "gp_at c u conns k lp" l v sample_server ex_dial] assms by (simp add: gp_at_def)

lemma gp_at_core:
  assumes "core_step sample_server (gp_running (gp_at c u conns k lp)) c cl c'" and "\<not> exited c"
    and "cl \<notin> {CBridgeDone, CDone}"
  shows "ex_step (gp_at c u conns k lp) (GCore cl) (gp_at c' u conns k lp)"
  using gp_skeleton [of "gp_at c u conns k lp" sample_server cl c' ex_dial] assms by (simp add: gp_at_def)

lemmas ex_reach = reachable_step [where step = ex_step and init = gp_init]

definition ex_up :: process where
  "ex_up = process_start 3"

lemma ex_up_sel [simp]:
  "\<not> exited ex_up" "serve_at ex_up = Serving" "stop_at ex_up = AwaitCtx" "\<not> ctx_done ex_up" "wg ex_up = 3"
  by (simp_all add: ex_up_def process_start_def)

definition ex_serving_labels :: "gp_label list" where
  "ex_serving_labels = [GPoll, GPoll, GSys LTau, GSys LTau, GSys LTau, GSys LTau]"

lemma ex_serving_run:
  "exec ex_step gateway_start ex_serving_labels
     (gp_at ex_up (ex_in (HWaiting 0) [AStart (ex_wire ''w1'')]) Map.empty 0 LoopSelect)"
proof -
  have 0: "gateway_start = gp_at ex_up gateway_new Map.empty 0 LoopPolling"
    by (simp add: gateway_start_def gp_at_def ex_up_def)
  have 1: "ex_step gateway_start GPoll (gp_at ex_up ex_fetched Map.empty 0 LoopPolling)"
    using gp_at_poll [OF ex_first_poll(1)] unfolding 0 by (simp add: ex_fetched_def gateway_new_def)
  have 2: "ex_step (gp_at ex_up ex_fetched Map.empty 0 LoopPolling) GPoll (gp_at ex_up ex_viewed Map.empty 0 LoopSelect)"
    using gp_at_poll [OF ex_first_poll(2)] by (simp add: ex_fetched_def ex_viewed_def gateway_new_def)
  have 3: "ex_step (gp_at ex_up ex_viewed Map.empty 0 LoopSelect) (GSys LTau)
      (gp_at ex_up (ex_at HStart) Map.empty 0 LoopSelect)"
    by (rule gp_at_serve [OF ex_first_poll(3)]) (simp_all add: ex_viewed_def gateway_new_def ex_gs_def)
  have 4: "ex_step (gp_at ex_up (ex_at HStart) Map.empty 0 LoopSelect) (GSys LTau)
      (gp_at ex_up (ex_at (HPicked (ex_wire ''w1''))) Map.empty 0 LoopSelect)"
    by (rule gp_at_serve [OF ex_first_dispatch(1)]) (simp_all add: ex_gs_def)
  have 5: "ex_step (gp_at ex_up (ex_at (HPicked (ex_wire ''w1''))) Map.empty 0 LoopSelect) (GSys LTau)
      (gp_at ex_up (ex_in (HRegistered 0 (ex_wire ''w1'')) []) Map.empty 0 LoopSelect)"
    by (rule gp_at_serve [OF ex_first_dispatch(2)]) (simp_all add: ex_gs_def)
  have 6: "ex_step (gp_at ex_up (ex_in (HRegistered 0 (ex_wire ''w1'')) []) Map.empty 0 LoopSelect) (GSys LTau)
      (gp_at ex_up (ex_in (HWaiting 0) [AStart (ex_wire ''w1'')]) Map.empty 0 LoopSelect)"
    by (rule gp_at_serve [OF ex_first_dispatch(3)]) (simp_all add: ex_gs_def)
  note cons = exec_cons [where step = ex_step]
  show ?thesis
    unfolding ex_serving_labels_def by (rule cons [OF 1 cons [OF 2 cons [OF 3 cons [OF 4 cons [OF 5 cons [OF 6 exec_nil]]]]]])
qed

lemma ex_serving_reachable:
  "reachable gp_init ex_step (gp_at ex_up (ex_in (HWaiting 0) [AStart (ex_wire ''w1'')]) Map.empty 0 LoopSelect)"
  using ex_serving_run by (auto simp: reachable_def gp_init_def)

definition ex_conns :: "string \<rightharpoonup> conn" where
  "ex_conns = [''w1'' \<mapsto> 0]"

lemma ex_calling:
  "ex_step (gp_at ex_up (ex_in (HWaiting 0) [AStart (ex_wire ''w1'')]) Map.empty 0 LoopSelect)
     (GSys (LCall 0 (ex_wire ''w1'') ex_request))
     (gp_at ex_up (ex_in (HWaiting 0) [AAir (ex_wire ''w1'')]) ex_conns 1 LoopSelect)"
proof -
  let ?s = "gp_at ex_up (ex_in (HWaiting 0) [AStart (ex_wire ''w1'')]) Map.empty 0 LoopSelect"
  have "connFor (ex_dial (gp_dials ?s)) (wi_Address (ex_wire ''w1'')) (gp_conns ?s) = (Inr 0, ex_conns)"
    by (simp add: connFor_def ex_dial_def ex_conns_def ex_wire_def)
  moreover have "gs_step (gp_sys ?s) (LCall 0 (ex_wire ''w1'') ex_request) (ex_in (HWaiting 0) [AAir (ex_wire ''w1'')])"
    using ex_abandoned(1) by simp
  ultimately show ?thesis
    using gp_call [where g = sample_server and newClient = ex_dial and s = ?s] by (fastforce simp: gp_at_def)
qed

lemma ex_gone_reachable: "reachable gp_init ex_step (gp_at ex_up ex_gone ex_conns 1 LoopSelect)"
proof -
  let ?w = "ex_wire ''w1''"
  note 1 = ex_reach [OF ex_serving_reachable ex_calling]
  have 2: "reachable gp_init ex_step (gp_at ex_up
      (ex_in (HReturning 0 (Inl (from_context_error CtxCanceled))) [AAir ?w]) ex_conns 1 LoopSelect)"
    by (rule ex_reach [OF 1 gp_at_serve [OF ex_abandoned(2)]]) (simp_all add: ex_gs_def)
  show ?thesis
    by (rule ex_reach [OF 2 gp_at_serve [OF ex_abandoned(3)]]) (simp_all add: ex_gs_def ex_gone_def)
qed

definition ex_stopped :: process where
  "ex_stopped = ex_up\<lparr>ctx_done := True, stop_at := Stopped\<rparr>"

lemma ex_idle [simp]: "gp_running (gp_at c ex_gone conns k lp) = 0"
  by (simp add: gp_running_def handlers_at_def ex_gone_def ex_gs_def)

lemma ex_stopped_reachable: "reachable gp_init ex_step (gp_at ex_stopped ex_gone ex_conns 1 LoopSelect)"
proof -
  let ?c1 = "ex_up\<lparr>ctx_done := True\<rparr>" and ?c2 = "ex_up\<lparr>ctx_done := True, stop_at := Stopping\<rparr>"
  have 1: "reachable gp_init ex_step (gp_at ?c1 ex_gone ex_conns 1 LoopSelect)"
    by (rule ex_reach [OF ex_gone_reachable gp_at_core [OF core_signal]]) simp_all
  have "core_step sample_server 0 ?c1 CStop ?c2" using core_stop [of ?c1 sample_server 0] by simp
  then have 2: "reachable gp_init ex_step (gp_at ?c2 ex_gone ex_conns 1 LoopSelect)"
    by (intro ex_reach [OF 1 gp_at_core]) auto
  have "core_step sample_server 0 ?c2 CStopped ex_stopped"
    using core_stopped [of ?c2 sample_server 0] by (simp add: ex_stopped_def)
  then show ?thesis by (intro ex_reach [OF 2 gp_at_core]) auto
qed

definition ex_exited :: process where
  "ex_exited = ex_stopped\<lparr>serve_at := ServeReturned, stop_at := StopDone, wg := 0, exited := True\<rparr>"

lemma ex_leaving:
  "ex_step (gp_at ex_stopped ex_gone ex_conns 1 LoopSelect) GLoopExit
     (gp_at (ex_stopped\<lparr>wg := 2\<rparr>) ex_gone ex_conns 1 LoopDone)"
proof -
  have live: "\<not> exited ex_stopped" "ctx_done ex_stopped" "wg ex_stopped = 3" by (simp_all add: ex_stopped_def)
  have "core_step sample_server 0 ex_stopped CDone (ex_stopped\<lparr>wg := 2\<rparr>)"
    using core_done [of sample_server 0 ex_stopped] live by simp
  then show ?thesis
    using gp_loop_exit [of "gp_at ex_stopped ex_gone ex_conns 1 LoopSelect" sample_server "ex_stopped\<lparr>wg := 2\<rparr>" ex_dial]
      live by (simp add: gp_at_def ex_idle [unfolded gp_at_def])
qed

lemma ex_exited_reachable: "reachable gp_init ex_step (gp_at ex_exited ex_gone Map.empty 1 LoopDone)"
proof -
  let ?c1 = "ex_stopped\<lparr>wg := 2\<rparr>" and ?c2 = "ex_stopped\<lparr>serve_at := ServeReturned, wg := 1\<rparr>"
  let ?c3 = "ex_stopped\<lparr>serve_at := ServeReturned, stop_at := StopDone, wg := 0\<rparr>"
  have live: "\<not> exited ex_stopped" "ctx_done ex_stopped" "wg ex_stopped = 3" "serve_at ex_stopped = Serving"
      "stop_at ex_stopped = Stopped" by (simp_all add: ex_stopped_def)
  note 1 = ex_reach [OF ex_stopped_reachable ex_leaving]
  have "core_step sample_server 0 ?c1 CServeNil ?c2" using core_serve_nil [of ?c1 sample_server 0] live by simp
  then have 2: "reachable gp_init ex_step (gp_at ?c2 ex_gone ex_conns 1 LoopDone)"
    using live by (intro ex_reach [OF 1 gp_at_core]) auto
  have "core_step sample_server 0 ?c2 CBridgeDone ?c3" using core_bridge_done [of ?c2 sample_server 0] live by simp
  moreover have "iterates ex_conns [''w1'']" "Close_conns [''w1''] ex_conns = ([0], Map.empty)"
    by (auto simp: iterates_def ex_conns_def Close_conns_def)
  ultimately have "ex_step (gp_at ?c2 ex_gone ex_conns 1 LoopDone) (GClose [0]) (gp_at ?c3 ex_gone Map.empty 1 LoopDone)"
    using gp_close [of "gp_at ?c2 ex_gone ex_conns 1 LoopDone" "[''w1'']" "[0]" Map.empty sample_server ?c3 ex_dial] live
    by (simp add: gp_at_def ex_idle [unfolded gp_at_def])
  then have 3: "reachable gp_init ex_step (gp_at ?c3 ex_gone Map.empty 1 LoopDone)"
    by (rule ex_reach [OF 2])
  have "core_step sample_server 0 ?c3 CExit ex_exited"
    using core_exit [of ?c3 sample_server 0] by (simp add: ex_exited_def)
  then show ?thesis using live by (intro ex_reach [OF 3 gp_at_core]) auto
qed

section \<open>Properties\<close>

text \<open>
  A start-up that fails reports which of its two steps failed and leaves no process; the listener is opened
  only after the control plane's address was accepted.
\<close>

lemma gateway_main_outcomes:
  "gateway_main dial listen =
     (if \<exists>e. dial controlPlaneAddr = Inl e then Fatal ''failed to dial control plane: %v'' [ArgErr (projl (dial controlPlaneAddr))]
      else if listen gatewayAddr \<noteq> None
      then Fatal ''failed to listen on %s: %v'' [ArgString gatewayAddr, ArgErr (the (listen gatewayAddr))]
      else Up gateway_start)"
  by (cases "dial controlPlaneAddr"; cases "listen gatewayAddr") (simp_all add: gateway_main_def)

text \<open>
  C20. The discipline of the process, over every execution and whatever the signals, ticks, accepted calls,
  dials and the shutdown do. A request is accepted only if \<^verbatim>\<open>GracefulStop\<close> has not been called. The poll
  loop does nothing more once it has left, and a poll begins only as the first thing the loop does or right
  after a tick, so polls never overlap. Until \<^verbatim>\<open>Close\<close>, a dispatch goes over the connection cached for its
  address: the first one to an address dials it and caches the connection, each later one finds it there and
  dials nothing. And nothing happens after main has returned.
\<close>

theorem process_discipline:
  assumes "grpc_ok g" and "exec (gp_step g newClient) gateway_start ls s" and "gp_step g newClient s l t"
  shows "(length (gs_handlers (gp_sys t)) \<noteq> length (gs_handlers (gp_sys s)) \<longrightarrow> GCore CStop \<notin> set ls)
     \<and> (is_loop l \<longrightarrow> GLoopExit \<notin> set ls)
     \<and> (gs_poll (gp_sys s) = PIdle \<and> gs_poll (gp_sys t) \<noteq> PIdle \<longrightarrow>
          filter is_loop ls = [] \<or> last (filter is_loop ls) = GTick)
     \<and> (\<forall>p w req. l = GSys (LCall p w req) \<and> (\<forall>cs. GClose cs \<notin> set ls) \<longrightarrow>
          gp_conns t (wi_Address w) \<noteq> None
          \<and> gp_dials t = gp_dials s + of_bool (wi_Address w \<notin> called_addrs ls)
          \<and> (wi_Address w \<in> called_addrs ls \<longrightarrow> gp_conns t = gp_conns s))
     \<and> GCore CExit \<notin> set ls"
proof -
  have inv: "process_trace ls s" using gwt.tinv_exec [OF assms(2)] by (simp add: gp_init_def)
  have reach: "reachable gp_init (gp_step g newClient) s" using assms(2) by (auto simp: reachable_def gp_init_def)
  have "GCore CStop \<notin> set ls" if "length (gs_handlers (gp_sys t)) \<noteq> length (gs_handlers (gp_sys s))"
    using accepts_only_before_stop [OF assms(1,3) that] inv by (auto simp: process_trace_def)
  moreover have "GLoopExit \<notin> set ls" if "is_loop l"
    using loop_step_live [OF assms(3) that] inv by (auto simp: process_trace_def)
  moreover have "filter is_loop ls = [] \<or> last (filter is_loop ls) = GTick"
    if "gs_poll (gp_sys s) = PIdle" "gs_poll (gp_sys t) \<noteq> PIdle"
    using poll_step_polling [OF assms(3)] that inv by (auto simp: process_trace_def)
  moreover have "gp_conns t (wi_Address w) \<noteq> None \<and> gp_dials t = gp_dials s + of_bool (wi_Address w \<notin> called_addrs ls)
      \<and> (wi_Address w \<in> called_addrs ls \<longrightarrow> gp_conns t = gp_conns s)"
    if "l = GSys (LCall p w req)" "\<forall>cs. GClose cs \<notin> set ls" for p w req
    using dispatch_uses_cache [OF assms(3) [unfolded that(1)]] that(2) inv by (auto simp: process_trace_def domIff)
  moreover have "GCore CExit \<notin> set ls" using gp_step_live [OF assms(3)] inv by (auto simp: process_trace_def)
  ultimately show ?thesis by blast
qed

text \<open>
  The first dispatch of an execution dials; and a step after \<^verbatim>\<open>GracefulStop\<close> accepts nobody.
\<close>

theorem process_discipline_witness:
  "(\<exists>ls s t. exec ex_step gateway_start ls s \<and> ex_step s (GSys (LCall 0 (ex_wire ''w1'') ex_request)) t
      \<and> gp_dials t = gp_dials s + 1 \<and> gp_conns t ''w1'' \<noteq> None)
   \<and> (\<exists>ls s t. exec ex_step gateway_start ls s \<and> GCore CStop \<in> set ls \<and> ex_step s GLoopExit t
      \<and> length (gs_handlers (gp_sys t)) = length (gs_handlers (gp_sys s)) \<and> GLoopExit \<notin> set ls)"
proof
  let ?s = "gp_at ex_up (ex_in (HWaiting 0) [AStart (ex_wire ''w1'')]) Map.empty 0 LoopSelect"
  have "called_addrs ex_serving_labels = {}" "\<forall>cs. GClose cs \<notin> set ex_serving_labels"
    by (auto simp: called_addrs_def ex_serving_labels_def)
  with process_discipline [OF sample_server_ok ex_serving_run ex_calling]
  show "\<exists>ls s t. exec ex_step gateway_start ls s \<and> ex_step s (GSys (LCall 0 (ex_wire ''w1'') ex_request)) t
      \<and> gp_dials t = gp_dials s + 1 \<and> gp_conns t ''w1'' \<noteq> None"
    using ex_serving_run ex_calling
    by (intro exI [of _ ex_serving_labels] exI [of _ ?s] exI
        [of _ "gp_at ex_up (ex_in (HWaiting 0) [AAir (ex_wire ''w1'')]) ex_conns 1 LoopSelect"]) (auto simp: ex_wire_def)
next
  obtain ls where run: "exec ex_step gateway_start ls (gp_at ex_stopped ex_gone ex_conns 1 LoopSelect)"
    using ex_stopped_reachable by (auto simp: reachable_def gp_init_def)
  have stopped: "GCore CStop \<in> set ls"
    using gwt.tinv_exec [OF run] by (simp add: gp_init_def process_trace_def ex_stopped_def)
  from process_discipline [OF sample_server_ok run ex_leaving] stopped run ex_leaving
  show "\<exists>ls s t. exec ex_step gateway_start ls s \<and> GCore CStop \<in> set ls \<and> ex_step s GLoopExit t
      \<and> length (gs_handlers (gp_sys t)) = length (gs_handlers (gp_sys s)) \<and> GLoopExit \<notin> set ls"
    by (intro exI [of _ ls] exI [of _ "gp_at ex_stopped ex_gone ex_conns 1 LoopSelect"]
        exI [of _ "gp_at (ex_stopped\<lparr>wg := 2\<rparr>) ex_gone ex_conns 1 LoopDone"]) simp
qed

text \<open>
  C21. A clean exit has answered everyone: when main has returned, it had been told to stop, every request
  that was accepted has been answered and its handler is over, the table of requests is empty, no poll is in
  progress, and the three goroutines that main waits for have returned: \<^verbatim>\<open>Serve\<close>'s, the poll loop and the one
  that closes the connections. The goroutines of attempts are not among them: an attempt whose client gave up
  may still be running (C40).
\<close>

theorem clean_exit_answers_everyone:
  assumes "grpc_ok g" and "reachable gp_init (gp_step g newClient) s" and "exited (gp_core s)"
  shows "ctx_done (gp_core s) \<and> (\<forall>h \<in> set (gs_handlers (gp_sys s)). \<exists>out. gh_pc h = HDone out)
     \<and> requests (gs_tracker (gp_sys s)) = Map.empty \<and> gs_poll (gp_sys s) = PIdle
     \<and> gp_loop s = LoopDone \<and> serve_at (gp_core s) = ServeReturned \<and> stop_at (gp_core s) = StopDone"
proof -
  note e = gp_exited_inv [OF gwi.sinv_reachable [OF assms(2)] assms(3)]
  have "gp_running s = 0" using gwp.drained [OF assms(1,2)] e(3) by simp
  note over = not_running [OF this]
  have "requests (gs_tracker (gp_sys s)) j = None" for j
  proof (rule ccontr)
    assume "requests (gs_tracker (gp_sys s)) j \<noteq> None"
    then obtain h p where "h \<in> set (gs_handlers (gp_sys s))" "holding p (gh_pc h)"
      using table_live [OF gp_sys_reachable [OF assms(2)]] by fastforce
    with over show False by fastforce
  qed
  with e over show ?thesis by auto
qed

theorem clean_exit_answers_everyone_witness:
  "\<exists>s. reachable gp_init ex_step s \<and> exited (gp_core s) \<and> gs_handlers (gp_sys s) \<noteq> []
     \<and> requests (gs_tracker (gp_sys s)) = Map.empty"
  using clean_exit_answers_everyone [OF sample_server_ok ex_exited_reachable] ex_exited_reachable
  by (intro exI [of _ "gp_at ex_exited ex_gone Map.empty 1 LoopDone"]) (simp add: ex_exited_def ex_gone_def ex_gs_def)

text \<open>
  C22. A shutdown completes: after \<^verbatim>\<open>GracefulStop\<close> has been called the process takes a bounded number of steps,
  a number known at that moment, plus seven for every tick that the poll loop's \<^verbatim>\<open>select\<close> still prefers to
  the cancelled context; and until main has returned some step other than a tick is possible: no goroutine waits
  for another that waits for it, whatever requests, attempts and polls are in progress.
\<close>

theorem shutdown_completes:
  assumes "grpc_ok g" and "reachable gp_init (gp_step g newClient) s"
    and "stop_at (gp_core s) \<noteq> AwaitCtx" and "exec (gp_step g newClient) s ls t"
  shows "length ls \<le> shutdown_left s + 7 * count_if (\<lambda>l. l = GTick) ls
     \<and> (exited (gp_core t) \<or> (\<exists>l u. gp_step g newClient t l u \<and> l \<noteq> GTick))"
proof -
  note run = shutdown_run [OF assms(1,4) gwi.sinv_reachable [OF assms(2)] assms(3) gwp.stop_after_cancel [OF assms(1-3)]]
  then have "exited (gp_core t) \<or> (\<exists>l u. gp_step g newClient t l u \<and> l \<noteq> GTick)"
    using shutdown_can_step [OF assms(1) reachable_exec [OF assms(2,4)]] by blast
  with run show ?thesis by simp
qed

theorem shutdown_completes_witness:
  "\<exists>l t. ex_step (gp_at ex_stopped ex_gone ex_conns 1 LoopSelect) l t
     \<and> 1 \<le> shutdown_left (gp_at ex_stopped ex_gone ex_conns 1 LoopSelect)"
proof -
  have "\<exists>l t. ex_step (gp_at ex_stopped ex_gone ex_conns 1 LoopSelect) l t \<and> l \<noteq> GTick"
    using shutdown_completes [OF sample_server_ok ex_stopped_reachable _ exec_nil] by (simp add: ex_stopped_def)
  then obtain l t where s: "ex_step (gp_at ex_stopped ex_gone ex_conns 1 LoopSelect) l t" "l \<noteq> GTick" by blast
  from shutdown_completes [OF sample_server_ok ex_stopped_reachable _ exec_single [where step = ex_step, OF s(1)]] s
  show ?thesis by (auto simp: ex_stopped_def)
qed

text \<open>
  C40. \<^verbatim>\<open>Close\<close> does not wait for the attempts: \<^verbatim>\<open>GracefulStop\<close> drains the handlers, but an attempt outlives
  its handler, so an execution exists in which \<^verbatim>\<open>Close\<close> closes a connection over which an attempt's call is
  still in the air.
\<close>

theorem close_under_running_attempt:
  "\<exists>s w c cs t. reachable gp_init ex_step s \<and> \<lparr>ga_ih = 0, ga_pc = AAir w\<rparr> \<in> set (gs_attempts (gp_sys s))
     \<and> gp_conns s (wi_Address w) = Some c \<and> ex_step s (GClose cs) t \<and> c \<in> set cs"
proof -
  let ?s = "gp_at ex_stopped ex_gone ex_conns 1 LoopSelect"
  have "iterates (gp_conns ?s) [''w1'']" "Close_conns [''w1''] (gp_conns ?s) = ([0], Map.empty)"
    by (auto simp: iterates_def ex_conns_def Close_conns_def)
  moreover have "stop_at (gp_core ?s) = Stopped" "\<not> exited (gp_core ?s)" by (simp_all add: ex_stopped_def)
  ultimately obtain t where t: "ex_step ?s (GClose [0]) t" using gp_close core_bridge_done by blast
  have "\<lparr>ga_ih = 0, ga_pc = AAir (ex_wire ''w1'')\<rparr> \<in> set (gs_attempts (gp_sys ?s))"
      "gp_conns ?s (wi_Address (ex_wire ''w1'')) = Some 0" "(0 :: conn) \<in> set [0]"
    by (simp_all add: ex_gone_def ex_gs_def ex_conns_def ex_wire_def)
  with ex_stopped_reachable t show ?thesis by blast
qed

end
