(* ===== verification/Gateway_Types.thy ===== *)
theory Gateway_Types
  imports Gateway_Safety
begin

text \<open>
  The types Go does not check: a result carries exactly one of its two pointers (\<^verbatim>\<open>attemptResult\<close> in
  \<^verbatim>\<open>internal/gateway/tracker.go\<close> says so in a comment), and so \<^verbatim>\<open>Generate\<close> never returns \<^verbatim>\<open>nil, nil\<close>. The
  judgement \<open>gs_typed\<close> covers every place of the state where a result or an outcome is held.
\<close>

section \<open>The judgement\<close>

definition result_ok :: "attempt_result \<Rightarrow> bool" where
  "result_ok r \<longleftrightarrow> (ar_resp r = None) \<noteq> (ar_err r = None)"

definition outcome_ok :: "outcome \<Rightarrow> bool" where
  "outcome_ok out \<longleftrightarrow> out \<noteq> Inr None"

fun attempt_typed :: "attempt_pc \<Rightarrow> bool" where
  "attempt_typed (AExhaust r) = result_ok r"
| "attempt_typed (ASettle r) = result_ok r"
| "attempt_typed (ASend r) = result_ok r"
| "attempt_typed pc = True"

fun handler_typed :: "handler_pc \<Rightarrow> bool" where
  "handler_typed (HReturning p out) = outcome_ok out"
| "handler_typed (HDone out) = outcome_ok out"
| "handler_typed pc = True"

fun label_typed :: "gs_label \<Rightarrow> bool" where
  "label_typed (LWin p r) = result_ok r"
| "label_typed (LLose p r) = result_ok r"
| "label_typed (LReturn req out) = outcome_ok out"
| "label_typed l = True"

definition heap_typed :: "request_tracker \<Rightarrow> bool" where
  "heap_typed t \<longleftrightarrow> (\<forall>p ih. heap t p = Some ih \<longrightarrow> (\<forall>r \<in> set (ih_result ih). result_ok r))"

definition gs_typed :: "gateway_system \<Rightarrow> bool" where
  "gs_typed s \<longleftrightarrow> heap_typed (gs_tracker s) \<and> (\<forall>a \<in> set (gs_attempts s). attempt_typed (ga_pc a))
     \<and> (\<forall>h \<in> set (gs_handlers s). handler_typed (gh_pc h))"

section \<open>Every step keeps it\<close>

lemma result_ok_made [simp]: "result_ok (success_result w resp)" "result_ok (error_result w e)"
  by (simp_all add: result_ok_def)

lemma outcome_ok_of [simp]: "result_ok r \<Longrightarrow> outcome_ok (outcome_of r)" "outcome_ok (Inl e)"
  by (auto simp: result_ok_def outcome_ok_def outcome_of_def split: option.splits)

lemma attempt_step_typed:
  assumes "attempt_step view p ih pc l ih' pc'" and "attempt_typed pc" and "\<forall>r \<in> set (ih_result ih). result_ok r"
  shows "attempt_typed pc' \<and> label_typed l \<and> (\<forall>r \<in> set (ih_result ih'). result_ok r)"
  using assms
  by cases (auto simp: cas_claim_def dest: locked_frame split: if_splits)

lemma heap_typed_register: "heap_typed t \<Longrightarrow> register req w t = (res, t') \<Longrightarrow> heap_typed t'"
  by (auto simp: heap_typed_def register_def new_inflight_def Let_def split: option.splits if_splits)

lemma heap_typed_unregister [simp]: "heap_typed (unregister i t) = heap_typed t"
  by (simp add: heap_typed_def unregister_def)

lemma heap_typed_reroute:
  assumes "heap_typed t" and "tracker_wf t" and "iterates (requests t) ks"
    and "reroute_claim departed healthy draws ks t = (t', jobs, over)"
  shows "heap_typed t'"
  unfolding heap_typed_def reroute_claim_spec(5) [OF assms(2-4)]
  using assms(1) by (auto simp: heap_typed_def reroute_inflight_def split: option.splits)

lemma gs_typed_handler:
  "gs_typed s \<Longrightarrow> handler_typed pc \<Longrightarrow> gs_typed (set_handler i pc s)"
  by (auto simp: gs_typed_def set_handler_def dest!: set_update_subset_insert [THEN subsetD])

lemma gs_typed_tracker:
  "gs_typed s \<Longrightarrow> heap_typed t \<Longrightarrow> gs_typed (s\<lparr>gs_tracker := t\<rparr>)"
  by (simp add: gs_typed_def)

lemma gs_typed_launch: "gs_typed s \<Longrightarrow> gs_typed (launch p w s)"
  by (auto simp: gs_typed_def launch_def)

lemma gs_typed_frame [simp]:
  "gs_typed (s\<lparr>gs_poll := pp\<rparr>) = gs_typed s" "gs_typed (s\<lparr>gs_view := v\<rparr>) = gs_typed s"
  by (simp_all add: gs_typed_def)

lemma gs_typed_record:
  "gs_typed s \<Longrightarrow> \<forall>r \<in> set (ih_result ih). result_ok r \<Longrightarrow> gs_typed (set_record p ih s)"
  by (auto simp: gs_typed_def heap_typed_def set_record_def split: if_splits)

lemma gs_typed_attempt: "gs_typed s \<Longrightarrow> attempt_typed pc \<Longrightarrow> gs_typed (set_attempt i pc s)"
  by (auto simp: gs_typed_def set_attempt_def dest!: set_update_subset_insert [THEN subsetD])

lemma gs_typed_step:
  assumes inv: "gs_inv s" and ty: "gs_typed s" and step: "gs_step s l t"
  shows "gs_typed t \<and> label_typed l"
  using step
proof cases
  case (gs_attempt i p pc ih ih' pc')
  have "attempt_typed pc" using ty gs_attempt(2,3) by (force simp: gs_typed_def dest: nth_mem)
  moreover have "\<forall>r \<in> set (ih_result ih). result_ok r" using ty gs_attempt(4) by (auto simp: gs_typed_def heap_typed_def)
  ultimately show ?thesis
    using attempt_step_typed [OF gs_attempt(5)] gs_attempt(1) ty by (simp add: gs_typed_record gs_typed_attempt)
next
  case (gs_receive i p ih r ih')
  have "\<forall>r \<in> set (ih_result ih). result_ok r" using ty gs_receive(4) by (auto simp: gs_typed_def heap_typed_def)
  then have "result_ok r" "\<forall>r \<in> set (ih_result ih'). result_ok r" using gs_receive(5) by (auto simp: take_result_def)
  then show ?thesis using gs_receive(1,2) ty by (simp add: gs_typed_record gs_typed_handler)
next
  case (gs_return i p out)
  have "outcome_ok out" using ty gs_return(3) by (force simp: gs_typed_def handler_at_def dest: nth_mem)
  moreover have "heap_typed (gs_tracker s)" using ty by (simp add: gs_typed_def)
  ultimately show ?thesis using gs_return(1,2) ty by (simp add: gs_typed_handler gs_typed_tracker)
next
  case (gs_poll_claim departed healthy ks draws t' jobs over)
  have "tracker_wf (gs_tracker s)" "heap_typed (gs_tracker s)" using inv ty by (auto simp: gs_inv_def refs_ok_def gs_typed_def)
  from heap_typed_reroute [OF this(2,1) gs_poll_claim(4,5)] gs_poll_claim(1,2) ty
  show ?thesis by (simp add: gs_typed_def)
next
  case (gs_duplicate i w err t')
  moreover have "heap_typed t'" using ty heap_typed_register [OF _ gs_duplicate(4)] by (simp add: gs_typed_def)
  ultimately show ?thesis using ty by (simp add: gs_typed_handler gs_typed_tracker)
next
  case (gs_register i w p t')
  moreover have "heap_typed t'" using ty heap_typed_register [OF _ gs_register(4)] by (simp add: gs_typed_def)
  ultimately show ?thesis using ty by (simp add: gs_typed_handler gs_typed_tracker)
next
  case (gs_arrive req)
  then show ?thesis using ty by (simp add: gs_typed_def)
next
  case (gs_no_worker i draw err)
  then show ?thesis using ty by (simp add: gs_typed_handler)
qed (use ty in \<open>auto intro!: gs_typed_handler gs_typed_launch\<close>)

definition typed_inv :: "gateway_system \<Rightarrow> bool" where
  "typed_inv s \<longleftrightarrow> gs_inv s \<and> gs_typed s"

lemma typed_inv_step: "typed_inv s \<Longrightarrow> gs_step s l t \<Longrightarrow> typed_inv t"
  using gs_inv_step gs_typed_step by (auto simp: typed_inv_def)

lemma typed_inv_init: "gs_init s \<Longrightarrow> typed_inv s"
  by (simp add: typed_inv_def gs_inv_init)
     (simp add: gs_init_def gateway_new_def gs_typed_def heap_typed_def NewRequestTracker_def)

interpretation gst: state_invariant gs_init gs_step typed_inv
  by unfold_locales (auto intro: typed_inv_init typed_inv_step)

section \<open>Properties\<close>

text \<open>
  C14. Results are well typed under every interleaving: whatever is held at a program point of an attempt, buffered in a
  channel or offered in the race has exactly one of response and error, and what a handler
  returns to its client is a response or an error, never neither.
\<close>

theorem results_well_typed:
  assumes "reachable gs_init gs_step s"
  shows "gs_typed s \<and> (\<forall>l t. gs_step s l t \<longrightarrow> label_typed l)"
  using gst.sinv_reachable [OF assms] gs_typed_step by (auto simp: typed_inv_def)

theorem results_well_typed_witness: "gs_typed ex_waiting"
  using results_well_typed [OF ex_waiting_reachable] by blast

end
