(* ===== verification/Gateway_Stragglers.thy ===== *)
theory Gateway_Stragglers
  imports Gateway_Safety
begin

text \<open>
  What the attempts of a request do after its client has given up (\<^verbatim>\<open>Generate\<close>'s \<^verbatim>\<open>ctx.Done\<close> branch in
  \<^verbatim>\<open>internal/gateway/gateway.go\<close>): the branch leaves the latch open, so for the attempts nothing has happened. \<open>Gateway_Time\<close>
  bounds how long they go on.
\<close>

section \<open>A client that gives up\<close>

text \<open>Two workers; the request is on \<open>w1\<close>.\<close>

abbreviation ex_pair :: "wire_worker list" where
  "ex_pair \<equiv> [ex_wire ''w1'', ex_wire ''w2'']"

definition ex_record :: "string \<Rightarrow> int \<Rightarrow> string set \<Rightarrow> bool \<Rightarrow> attempt_result list \<Rightarrow> inflight" where
  "ex_record on d failed won buf = \<lparr>ih_req = ex_request, assigned = on, attempts = 1, dispatched = d,
     tried = failed, claimed = won, ih_result = buf\<rparr>"

lemma ex_record_sel [simp]:
  "ih_req (ex_record on d failed won buf) = ex_request" "claimed (ex_record on d failed won buf) = won"
  "ih_result (ex_record on d failed won buf) = buf"
  by (simp_all add: ex_record_def)

text \<open>Nobody is left: the handler has returned, its id is free again, the attempt holds the record by pointer.\<close>

definition ex_gone :: "inflight \<Rightarrow> attempt_pc \<Rightarrow> gateway_system" where
  "ex_gone ih pc = ex_gs ex_pair \<lparr>requests = Map.empty, heap = [0 \<mapsto> ih], next_ptr = 1\<rparr>
     (HDone (Inl (from_context_error CtxCanceled))) [pc] PIdle"

lemma ex_gone_step:
  assumes "attempt_step ex_pair 0 ih pc l ih' pc'"
  shows "gs_step (ex_gone ih pc) l (ex_gone ih' pc')"
proof -
  have "gs_step (ex_gone ih pc) l (set_record 0 ih' (set_attempt 0 pc' (ex_gone ih pc)))"
    by (rule gs_attempt [where p = 0 and pc = pc and ih = ih]) (use assms in \<open>simp_all add: ex_gone_def ex_defs\<close>)
  moreover have "set_record 0 ih' (set_attempt 0 pc' (ex_gone ih pc)) = ex_gone ih' pc'"
    by (simp add: ex_gone_def ex_defs)
  ultimately show ?thesis by simp
qed

definition ex_leaves :: "gs_label list" where
  "ex_leaves = [LCall 0 (ex_wire ''w1'') ex_request, LTau, LTau, LTau]"

lemma ex_leaves_exec:
  "exec gs_step ex_waiting (ex_leaves @ [LReturn ex_request (Inl (from_context_error CtxCanceled))])
     (ex_gone (ex_record ''w1'' 1 {} False []) (AAir (ex_wire ''w1'')))"
proof -
  let ?w1 = "ex_wire ''w1''" and ?e = "from_context_error CtxCanceled"
  let ?st = "\<lambda>view h pp. ex_gs view (ex_table ''w1'' 1 1 {} False []) h [AAir ?w1] pp"
  let ?ih = "\<lparr>ih_req = ex_request, assigned = ''w1'', attempts = 1, dispatched = 1, tried = {},
       claimed = False, ih_result = []\<rparr>"
  have 1: "gs_step ex_waiting (LCall 0 ?w1 ex_request) (?st [?w1] (HWaiting 0) PIdle)"
    using ex_attempt [OF as_call [of "[?w1]" 0 ?ih ?w1, simplified], of 0 "[AStart ?w1]"] by (simp add: ex_waiting_def)
  have 2: "gs_step (?st [?w1] (HWaiting 0) PIdle) LTau (?st [?w1] (HWaiting 0) (PFetched ex_pair))"
    using gs_poll_fetch [of "?st [?w1] (HWaiting 0) PIdle" "\<lparr>lw_Workers = ex_pair\<rparr>"] by (simp add: ex_gs_def)
  have 3: "gs_step (?st [?w1] (HWaiting 0) (PFetched ex_pair)) LTau (?st ex_pair (HWaiting 0) PIdle)"
    using gs_poll_same [of "?st [?w1] (HWaiting 0) (PFetched ex_pair)" ex_pair] by (simp add: ex_gs_def departedIDs_eq)
  have 4: "gs_step (?st ex_pair (HWaiting 0) PIdle) LTau (?st ex_pair (HReturning 0 (Inl ?e)) PIdle)"
    using gs_give_up [of 0 0 "?st ex_pair (HWaiting 0) PIdle" CtxCanceled] by (simp add: ex_defs)
  have 5: "gs_step (?st ex_pair (HReturning 0 (Inl ?e)) PIdle) (LReturn ex_request (Inl ?e))
      (ex_gone (ex_record ''w1'' 1 {} False []) (AAir ?w1))"
    using gs_return [of 0 0 "Inl ?e" "?st ex_pair (HReturning 0 (Inl ?e)) PIdle"]
    by (simp add: ex_defs ex_gone_def ex_record_def unregister_def)
  show ?thesis
    unfolding ex_leaves_def append_Cons append_Nil
    by (rule run_cons [OF 1 run_cons [OF 2 run_cons [OF 3 run_cons [OF 4 run_cons [OF 5 exec_nil]]]]])
qed

text \<open>Then \<open>w1\<close> refuses, and the request is sent to \<open>w2\<close>, which answers it.\<close>

definition ex_second :: inference_response where
  "ex_second = \<lparr>resp_RequestId = ''r1'', resp_Output = ''hi'', resp_WorkerId = ''w2''\<rparr>"

definition ex_afterwards :: "gs_label list" where
  "ex_afterwards = [LReply 0 (ex_wire ''w1'') (Inl ex_refused), LWork 0, LWork 0, LWork 0, LCall 0 (ex_wire ''w2'') ex_request,
     LReply 0 (ex_wire ''w2'') (Inr ex_second), LWin 0 (success_result (ex_wire ''w2'') ex_second), LWork 0]"

lemma ex_afterwards_exec:
  "exec gs_step (ex_gone (ex_record ''w1'' 1 {} False []) (AAir (ex_wire ''w1''))) ex_afterwards
     (ex_gone (ex_record ''w2'' 2 {''w1''} True [success_result (ex_wire ''w2'') ex_second]) ADone)"
proof -
  let ?w1 = "ex_wire ''w1''" and ?w2 = "ex_wire ''w2''" and ?r = "success_result (ex_wire ''w2'') ex_second"
  let ?i = "ex_record ''w1'' 1 {} False []" and ?j = "\<lambda>won buf. ex_record ''w2'' 2 {''w1''} won buf"
  have ret: "retryable ex_refused" by (simp add: ex_refused_def retryable_iff)
  have 1: "gs_step (ex_gone ?i (AAir ?w1)) (LReply 0 ?w1 (Inl ex_refused)) (ex_gone ?i (AFailed ?w1 ex_refused))"
    by (rule ex_gone_step [OF as_error])
  have 2: "gs_step (ex_gone ?i (AFailed ?w1 ex_refused)) (LWork 0) (ex_gone ?i (ARetry ?w1 ex_refused))"
    by (rule ex_gone_step [OF as_retry]) (simp_all add: ret)
  have "healthyExcept {wi_WorkerId ?w1} ex_pair = [?w2]" by (simp add: healthyExcept_def)
  with ex_gone_step [OF as_snapshot [of ex_pair 0 ?i ?w1 ex_refused]]
  have 3: "gs_step (ex_gone ?i (ARetry ?w1 ex_refused)) (LWork 0) (ex_gone ?i (ACands ?w1 ex_refused [?w2]))" by simp
  have "attempt_failed_locked (wi_WorkerId ?w1) [?w2] 0 ?i = (?j False [], Some ?w2, False, 2)"
    by (simp add: attempt_failed_locked_def maxAttempts_def ex_record_def)
  from ex_gone_step [OF as_replace [OF this]]
  have 4: "gs_step (ex_gone ?i (ACands ?w1 ex_refused [?w2])) (LWork 0) (ex_gone (?j False []) (AStart ?w2))" .
  have 5: "gs_step (ex_gone (?j False []) (AStart ?w2)) (LCall 0 ?w2 ex_request) (ex_gone (?j False []) (AAir ?w2))"
    using ex_gone_step [OF as_call [of ex_pair 0 "?j False []" ?w2]] by simp
  have 6: "gs_step (ex_gone (?j False []) (AAir ?w2)) (LReply 0 ?w2 (Inr ex_second)) (ex_gone (?j False []) (ASettle ?r))"
    by (rule ex_gone_step [OF as_success])
  have "cas_claim (?j False []) = (True, ?j True [])" by (simp add: cas_claim_def ex_record_def)
  from ex_gone_step [OF as_win [OF _ this]]
  have 7: "gs_step (ex_gone (?j False []) (ASettle ?r)) (LWin 0 ?r) (ex_gone (?j True []) (ASend ?r))" by simp
  have "chan_send 1 ?r (ih_result (?j True [])) = Some [?r]" by simp
  from ex_gone_step [OF as_send [OF this]]
  have 8: "gs_step (ex_gone (?j True []) (ASend ?r)) (LWork 0) (ex_gone (?j True [?r]) ADone)" by (simp add: ex_record_def)
  show ?thesis
    unfolding ex_afterwards_def
    by (rule run_cons [OF 1 run_cons [OF 2 run_cons [OF 3 run_cons [OF 4 run_cons [OF 5 run_cons [OF 6
        run_cons [OF 7 run_cons [OF 8 exec_nil]]]]]]]])
qed

section \<open>Property\<close>

text \<open>
  C39. An abandoned request is retried. There is an execution with a single client, in which the request's first call, of \<open>w1\<close>, is in the air
  when \<^verbatim>\<open>Generate\<close> returns the client's cancellation; no other attempt exists then and no poll is in progress. After that \<open>w1\<close>'s reply,
  a retryable error, arrives, and the same attempt goroutine works on the record and calls another worker \<open>w2\<close> for the request that
  nobody waits for; \<open>w2\<close>'s answer then wins the race and stays in the channel, with nobody to receive it. The comment at the
  \<^verbatim>\<open>ctx.Done\<close> branch says that attempts still running will lose harmlessly when they finish.
\<close>

theorem abandoned_request_is_retried:
  "\<exists>before s1 work s w1 w2 err resp. retryable err \<and> wi_WorkerId w2 \<noteq> wi_WorkerId w1
     \<and> exec gs_step gateway_new (before @ [LReturn ex_request (Inl (from_context_error CtxCanceled))]) s1
     \<and> LCall 0 w1 ex_request \<in> set before \<and> gs_attempts s1 = [\<lparr>ga_ih = 0, ga_pc = AAir w1\<rparr>]
     \<and> map gh_pc (gs_handlers s1) = [HDone (Inl (from_context_error CtxCanceled))] \<and> gs_poll s1 = PIdle
     \<and> exec gs_step s1 ([LReply 0 w1 (Inl err)] @ work @ [LCall 0 w2 ex_request, LReply 0 w2 (Inr resp), LWin 0 (success_result w2 resp), LWork 0]) s
     \<and> set work = {LWork 0} \<and> gs_attempts s = [\<lparr>ga_ih = 0, ga_pc = ADone\<rparr>]
     \<and> gs_handlers s = gs_handlers s1 \<and> map_option ih_result (heap (gs_tracker s) 0) = Some [success_result w2 resp]"
proof -
  let ?b = "[LTau, LTau, LTau, LTau, LTau, LTau] @ ex_leaves" and ?w1 = "ex_wire ''w1''" and ?w2 = "ex_wire ''w2''"
  let ?s1 = "ex_gone (ex_record ''w1'' 1 {} False []) (AAir ?w1)"
  let ?s = "ex_gone (ex_record ''w2'' 2 {''w1''} True [success_result ?w2 ex_second]) ADone"
  let ?work = "[LWork 0, LWork 0, LWork 0]"
  from exec_append [OF ex_leaves_exec ex_waiting_run]
  have "exec gs_step gateway_new (?b @ [LReturn ex_request (Inl (from_context_error CtxCanceled))]) ?s1" by simp
  moreover have "exec gs_step ?s1 ([LReply 0 ?w1 (Inl ex_refused)] @ ?work
      @ [LCall 0 ?w2 ex_request, LReply 0 ?w2 (Inr ex_second), LWin 0 (success_result ?w2 ex_second), LWork 0]) ?s"
    using ex_afterwards_exec by (simp add: ex_afterwards_def)
  moreover have "retryable ex_refused" "wi_WorkerId ?w2 \<noteq> wi_WorkerId ?w1" by (simp_all add: ex_refused_def retryable_iff)
  moreover have "LCall 0 ?w1 ex_request \<in> set ?b" "set ?work = {LWork 0}" by (simp_all add: ex_leaves_def)
  moreover have "gs_attempts ?s1 = [\<lparr>ga_ih = 0, ga_pc = AAir ?w1\<rparr>]" "gs_attempts ?s = [\<lparr>ga_ih = 0, ga_pc = ADone\<rparr>]"
    "map gh_pc (gs_handlers ?s1) = [HDone (Inl (from_context_error CtxCanceled))]" "gs_poll ?s1 = PIdle" "gs_handlers ?s = gs_handlers ?s1"
    "map_option ih_result (heap (gs_tracker ?s) 0) = Some [success_result ?w2 ex_second]"
    by (simp_all add: ex_gone_def ex_gs_def)
  ultimately show ?thesis
    by (intro exI [of _ ?b] exI [of _ ?s1] exI [of _ ?work] exI [of _ ?s] exI [of _ ?w1] exI [of _ ?w2] exI [of _ ex_refused]
        exI [of _ ex_second] conjI)
qed

end
