(* ===== verification/Retry_Chain.thy ===== *)
theory Retry_Chain
  imports Gateway
begin

text \<open>
  One request on its own (\<^verbatim>\<open>attempt\<close>, \<^verbatim>\<open>attemptFailed\<close> and \<^verbatim>\<open>Generate\<close> of
  \<^verbatim>\<open>internal/gateway/gateway.go\<close>): the chain of attempts that one goroutine runs while no poll
  reroutes the request and no other attempt races it. The two functions call each other exactly as
  in the source, and their termination is the retry budget.

  What the chain meets is its environment: the answer of the \<open>k\<close>-th dispatch, the worker view at
  the \<open>k\<close>-th failure (which may change from one failure to the next) and the random draws.
  \<open>None\<close> is a send that blocks.
\<close>

record chain_env =
  ce_dispatch :: "nat \<Rightarrow> wire_worker \<Rightarrow> inference_request \<Rightarrow> go_error + inference_response"
  ce_view :: "nat \<Rightarrow> wire_worker list"
  ce_draw :: "nat \<Rightarrow> nat"

lemma locked_budget:
  "attempt_failed_locked wid cands draw ih = (ih', Some w, ex, d) \<Longrightarrow>
     2 * nat (maxAttempts - dispatched ih') + 1 < 2 * nat (maxAttempts - dispatched ih)"
  using locked_replaced [of wid cands draw ih ih' w ex d] by auto

lemma locked_budget_eq:
  "(ih', Some w, ex, d) = attempt_failed_locked wid cands draw ih \<Longrightarrow>
     Suc (2 * nat (maxAttempts - dispatched ih')) < 2 * nat (maxAttempts - dispatched ih)"
  using locked_budget [of wid cands draw ih ih' w ex d] by simp

function attempt ::
  "chain_env \<Rightarrow> wire_worker \<Rightarrow> inflight \<Rightarrow> wire_worker list \<Rightarrow> (inflight \<times> wire_worker list) option"
and attemptFailed ::
  "chain_env \<Rightarrow> wire_worker \<Rightarrow> go_error \<Rightarrow> inflight \<Rightarrow> wire_worker list
     \<Rightarrow> (inflight \<times> wire_worker list) option" where
  "attempt E target ih calls =
     (let calls' = calls @ [target]
      in case ce_dispatch E (length calls') target (ih_req ih) of
           Inl err \<Rightarrow> attemptFailed E target err ih calls'
         | Inr resp \<Rightarrow> map_option (\<lambda>(won, ih'). (ih', calls')) (settle (success_result target resp) ih))"
| "attemptFailed E target err ih calls =
     (if claimed ih then Some (ih, calls)
      else if \<not> retryable err
      then map_option (\<lambda>(won, ih'). (ih', calls)) (settle (error_result target err) ih)
      else
        (let workerID = wi_WorkerId target;
             candidates = healthyExcept {workerID} (ce_view E (length calls))
         in case attempt_failed_locked workerID candidates (ce_draw E (length calls)) ih of
              (ih', Some replacement, exhausted, n) \<Rightarrow> attempt E replacement ih' calls
            | (ih', None, exhausted, n) \<Rightarrow>
                (if exhausted
                 then map_option (\<lambda>(won, ih''). (ih'', calls))
                        (settle (error_result target (exhausted_error n err)) ih')
                 else Some (ih', calls))))"
  by pat_completeness auto
termination
  by (relation "measure (\<lambda>x. case x of
        Inl (E, target, ih, calls) \<Rightarrow> 2 * nat (maxAttempts - dispatched ih) + 1
      | Inr (E, target, err, ih, calls) \<Rightarrow> 2 * nat (maxAttempts - dispatched ih))")
     (auto dest: locked_budget locked_budget_eq)

text \<open>How \<^verbatim>\<open>attemptFailed\<close> goes on, one case per return and one for the next attempt.\<close>

lemma attemptFailed_kinds:
  assumes "attemptFailed E w err ih calls = Some (ih', calls')"
  obtains
    (late) "claimed ih" "ih' = ih" "calls' = calls"
  | (terminal) won where "\<not> claimed ih" "\<not> retryable err" "settle (error_result w err) ih = Some (won, ih')" "calls' = calls"
  | (replaced) ih1 r ex d where "\<not> claimed ih" "retryable err"
      "attempt_failed_locked (wi_WorkerId w) (healthyExcept {wi_WorkerId w} (ce_view E (length calls))) (ce_draw E (length calls)) ih
         = (ih1, Some r, ex, d)"
      "attempt E r ih1 calls = Some (ih', calls')"
  | (exhausted) ih1 d won where "\<not> claimed ih" "retryable err"
      "attempt_failed_locked (wi_WorkerId w) (healthyExcept {wi_WorkerId w} (ce_view E (length calls))) (ce_draw E (length calls)) ih
         = (ih1, None, True, d)"
      "settle (error_result w (exhausted_error d err)) ih1 = Some (won, ih')" "calls' = calls"
  | (over) d where "\<not> claimed ih" "retryable err"
      "attempt_failed_locked (wi_WorkerId w) (healthyExcept {wi_WorkerId w} (ce_view E (length calls))) (ce_draw E (length calls)) ih
         = (ih', None, False, d)"
      "calls' = calls"
  using assms
  by (cases "attempt_failed_locked (wi_WorkerId w) (healthyExcept {wi_WorkerId w} (ce_view E (length calls))) (ce_draw E (length calls)) ih")
    (auto simp: attemptFailed.simps Let_def split: if_splits option.splits)

declare attempt.simps [simp del] attemptFailed.simps [simp del]

text \<open>
  \<^verbatim>\<open>Generate\<close>: the guards in the code's order, the registration, the chain, the receive, and the
  deferred unregistration. The components of the result are what the client gets, the tracker
  afterwards and the workers called.
\<close>

definition Generate ::
  "chain_env \<Rightarrow> nat \<Rightarrow> inference_request \<Rightarrow> wire_worker list \<Rightarrow> request_tracker
     \<Rightarrow> ((go_error + inference_response option) \<times> request_tracker \<times> wire_worker list) option" where
  "Generate E draw req view t =
     (let reqID = req_RequestId req
      in if reqID = '''' then Some (Inl missing_id_error, t, [])
         else case pickWorker draw view of
           Inl err \<Rightarrow> Some (Inl err, t, [])
         | Inr w \<Rightarrow>
             (case register req (wi_WorkerId w) t of
                (Inl err, t1) \<Rightarrow> Some (Inl err, t1, [])
              | (Inr p, t1) \<Rightarrow>
                  Option.bind (heap t1 p) (\<lambda>ih.
                  Option.bind (attempt E w ih []) (\<lambda>(ih1, calls).
                  Option.bind (take_result ih1) (\<lambda>(r, ih2).
                    Some (outcome_of r, unregister reqID (t1\<lparr>heap := (heap t1)(p \<mapsto> ih2)\<rparr>), calls))))))"

section \<open>What a chain does\<close>

text \<open>
  The contract of a chain that called the workers \<open>calls\<close>, in order, and ended with the result
  \<open>r\<close>: every call but the last failed with a retryable error; the last call's answer is the
  result, unless it is a retryable error too, and then the result says how many attempts were
  made, and either the budget was spent or every worker in the view had failed before.
\<close>

definition failed_so_far :: "chain_env \<Rightarrow> inference_request \<Rightarrow> wire_worker list \<Rightarrow> bool" where
  "failed_so_far E req calls \<longleftrightarrow> (\<forall>i < length calls.
     \<exists>err. ce_dispatch E (Suc i) (calls ! i) req = Inl err \<and> retryable err)"

text \<open>Every call after the first goes to a worker of the view its failure saw.\<close>

definition from_views :: "chain_env \<Rightarrow> wire_worker list \<Rightarrow> bool" where
  "from_views E calls \<longleftrightarrow> (\<forall>i. 0 < i \<longrightarrow> i < length calls \<longrightarrow> calls ! i \<in> set (ce_view E i))"

definition chain_spec :: "chain_env \<Rightarrow> inference_request \<Rightarrow> wire_worker list \<Rightarrow> attempt_result \<Rightarrow> bool" where
  "chain_spec E req calls r \<longleftrightarrow> calls \<noteq> [] \<and> from_views E calls \<and> failed_so_far E req (butlast calls)
     \<and> (case ce_dispatch E (length calls) (last calls) req of
          Inr resp \<Rightarrow> r = success_result (last calls) resp
        | Inl err \<Rightarrow>
            if retryable err
            then r = error_result (last calls) (exhausted_error (int (length calls)) err)
              \<and> (int (length calls) = maxAttempts
                  \<or> (\<forall>c \<in> set (ce_view E (length calls)). wi_WorkerId c \<in> wi_WorkerId ` set calls))
            else r = error_result (last calls) err)"

text \<open>The state of the record between two calls of the chain.\<close>

definition chain_state :: "inflight \<Rightarrow> wire_worker list \<Rightarrow> wire_worker \<Rightarrow> bool" where
  "chain_state ih calls target \<longleftrightarrow> latch_wf ih \<and> \<not> claimed ih \<and> attempts ih = 1
     \<and> dispatched ih = int (length calls) + 1 \<and> int (length calls) + 1 \<le> maxAttempts
     \<and> tried ih = wi_WorkerId ` set calls \<and> distinct (map wi_WorkerId (calls @ [target]))"

definition chain_post ::
  "chain_env \<Rightarrow> inference_request \<Rightarrow> wire_worker list \<Rightarrow> inflight \<times> wire_worker list \<Rightarrow> bool" where
  "chain_post E req made = (\<lambda>(ih, calls). (\<exists>rest. calls = made @ rest) \<and> claimed ih \<and> ih_req ih = req \<and> latch_wf ih
     \<and> int (length calls) \<le> maxAttempts \<and> distinct (map wi_WorkerId calls)
     \<and> (\<exists>r. ih_result ih = [r] \<and> chain_spec E req calls r))"

lemma failed_so_far_snoc:
  "failed_so_far E req (calls @ [w]) \<longleftrightarrow> failed_so_far E req calls
     \<and> (\<exists>err. ce_dispatch E (Suc (length calls)) w req = Inl err \<and> retryable err)"
  by (auto simp: failed_so_far_def nth_append less_Suc_eq)

lemma from_views_snoc:
  "calls \<noteq> [] \<Longrightarrow> from_views E (calls @ [w]) \<longleftrightarrow> from_views E calls \<and> w \<in> set (ce_view E (length calls))"
  by (auto simp: from_views_def nth_append less_Suc_eq)

text \<open>The two ways out of a retryable failure: another worker is called, or the last error is the answer.\<close>

lemma chain_replaced:
  assumes st: "chain_state ih calls target" and views: "from_views E (calls @ [target])"
    and L: "attempt_failed_locked (wi_WorkerId target) (healthyExcept {wi_WorkerId target} (ce_view E (length (calls @ [target]))))
      (ce_draw E (length (calls @ [target]))) ih = (ih', Some w, ex, n)"
  shows "chain_state ih' (calls @ [target]) w" and "from_views E ((calls @ [target]) @ [w])"
    and "2 * nat (maxAttempts - dispatched ih') < 2 * nat (maxAttempts - dispatched ih)"
proof -
  note fr = locked_frame [OF L] and rp = locked_replaced [OF L]
  show "chain_state ih' (calls @ [target]) w" using st fr rp by (auto simp: chain_state_def latch_wf_def)
  show "from_views E ((calls @ [target]) @ [w])"
    using views rp(5) by (subst from_views_snoc) (auto simp: set_healthyExcept)
  show "2 * nat (maxAttempts - dispatched ih') < 2 * nat (maxAttempts - dispatched ih)"
    using locked_budget [OF L] by linarith
qed

lemma chain_exhausted:
  assumes st: "chain_state ih calls target" and failed: "failed_so_far E (ih_req ih) calls" and views: "from_views E (calls @ [target])"
    and err: "ce_dispatch E (Suc (length calls)) target (ih_req ih) = Inl err" "retryable err"
    and L: "attempt_failed_locked (wi_WorkerId target) (healthyExcept {wi_WorkerId target} (ce_view E (length (calls @ [target]))))
      (ce_draw E (length (calls @ [target]))) ih = (ih', None, ex, n)"
  shows "\<exists>res. attemptFailed E target err ih (calls @ [target]) = Some res \<and> chain_post E (ih_req ih) (calls @ [target]) res"
proof -
  let ?k = "length (calls @ [target])"
  note fr = locked_frame [OF L] and np = locked_not_replaced [OF L]
  have s: "latch_wf ih" "\<not> claimed ih" "attempts ih = 1" "dispatched ih = int (length calls) + 1"
      "int (length calls) + 1 \<le> maxAttempts" "tried ih = wi_WorkerId ` set calls" "distinct (map wi_WorkerId (calls @ [target]))"
    using st by (auto simp: chain_state_def)
  have "latch_wf ih'" "\<not> claimed ih'" using s fr by (auto simp: latch_wf_def)
  then have "attemptFailed E target err ih (calls @ [target])
      = Some (ih'\<lparr>claimed := True, ih_result := [error_result target (exhausted_error n err)]\<rparr>, calls @ [target])"
    using err(2) s np fr L by (simp add: attemptFailed.simps settle_unclaimed)
  moreover have "int ?k = maxAttempts \<or> (\<forall>c \<in> set (ce_view E ?k). wi_WorkerId c \<in> wi_WorkerId ` set (calls @ [target]))"
    using np(4) s(4-6) by (auto simp: set_healthyExcept)
  moreover have "n = int ?k" using fr(6) np(2) s(4) by simp
  moreover have "failed_so_far E (ih_req ih) (calls @ [target])" using failed err by (simp add: failed_so_far_snoc)
  ultimately show ?thesis
    using err views s fr np failed by (auto simp: chain_post_def chain_spec_def latch_wf_def failed_so_far_snoc add.commute)
qed

lemma chain_correct:
  "chain_state ih calls target \<Longrightarrow> failed_so_far E (ih_req ih) calls \<Longrightarrow> from_views E (calls @ [target]) \<Longrightarrow>
     \<exists>res. attempt E target ih calls = Some res \<and> chain_post E (ih_req ih) (calls @ [target]) res"
  "chain_state ih calls target \<Longrightarrow> failed_so_far E (ih_req ih) calls \<Longrightarrow> from_views E (calls @ [target]) \<Longrightarrow>
     ce_dispatch E (Suc (length calls)) target (ih_req ih) = Inl err \<Longrightarrow>
     \<exists>res. attemptFailed E target err ih (calls @ [target]) = Some res \<and> chain_post E (ih_req ih) (calls @ [target]) res"
proof (induction "2 * nat (maxAttempts - dispatched ih)" arbitrary: ih calls target err rule: less_induct)
  case less
  { case 2
    then have st: "latch_wf ih" "\<not> claimed ih" by (auto simp: chain_state_def)
    show ?case
    proof (cases "retryable err")
      case False
      then show ?thesis
        using 2 by (auto simp: attemptFailed.simps settle_unclaimed chain_state_def chain_post_def chain_spec_def latch_wf_def)
    next
      case True
      let ?wid = "wi_WorkerId target" and ?k = "length (calls @ [target])"
      obtain ih' repl ex n where L: "attempt_failed_locked ?wid (healthyExcept {?wid} (ce_view E ?k)) (ce_draw E ?k) ih = (ih', repl, ex, n)"
        by (metis prod_cases4)
      show ?thesis
      proof (cases repl)
        case (Some w)
        note ch = chain_replaced [OF 2(1,3) L [unfolded Some]] and req = locked_frame(1) [OF L]
        have "failed_so_far E (ih_req ih') (calls @ [target])" using 2 True req by (simp add: failed_so_far_snoc)
        from less(1) [OF ch(3,1) this ch(2)] obtain res where
          "attempt E w ih' (calls @ [target]) = Some res" "chain_post E (ih_req ih) (calls @ [target]) res"
          using req by (auto simp: chain_post_def)
        then show ?thesis using True st(2) L Some by (simp add: attemptFailed.simps)
      next
        case None
        show ?thesis by (rule chain_exhausted [OF 2 True L [unfolded None]])
      qed
    qed
  } note second = this
  { case 1
    show ?case
    proof (cases "ce_dispatch E (Suc (length calls)) target (ih_req ih)")
      case (Inl err)
      with second 1 show ?thesis by (simp add: attempt.simps)
    next
      case (Inr resp)
      then show ?thesis
        using 1 by (auto simp: attempt.simps settle_unclaimed chain_state_def chain_post_def chain_spec_def
            latch_wf_def)
    qed
  }
qed

lemma attempt_new:
  "\<exists>ih calls r. attempt E w (new_inflight req (wi_WorkerId w)) [] = Some (ih, calls)
     \<and> ih_result ih = [r] \<and> chain_spec E req calls r \<and> int (length calls) \<le> maxAttempts
     \<and> distinct (map wi_WorkerId calls) \<and> hd calls = w"
  using chain_correct(1) [of "new_inflight req (wi_WorkerId w)" "[]" w E]
  by (force simp: chain_state_def chain_post_def failed_so_far_def from_views_def maxAttempts_def)

section \<open>The handler\<close>

lemma chain_specD:
  assumes "chain_spec E req calls r"
  shows "calls \<noteq> []" and "from_views E calls"
    and "Suc i < length calls \<Longrightarrow> \<exists>err. ce_dispatch E (Suc i) (calls ! i) req = Inl err \<and> retryable err"
  using assms by (auto simp: chain_spec_def failed_so_far_def nth_butlast)

lemma Generate_admitted:
  assumes "req_RequestId req \<noteq> ''''" and "view \<noteq> []" and "requests t (req_RequestId req) = None"
  shows "\<exists>r t' calls. Generate E draw req view t = Some (outcome_of r, t', calls)
     \<and> chain_spec E req calls r \<and> hd calls \<in> set view \<and> int (length calls) \<le> maxAttempts
     \<and> distinct (map wi_WorkerId calls) \<and> requests t' = requests t"
proof -
  obtain w where w: "pickWorker draw view = Inr w" "w \<in> set view"
    using assms(2) by (auto simp: pickWorker_def)
  obtain p t1 where reg: "register req (wi_WorkerId w) t = (Inr p, t1)"
    using assms(3) by (simp add: register_def Let_def)
  then have t1: "requests t1 = (requests t)(req_RequestId req \<mapsto> p)"
      "heap t1 p = Some (new_inflight req (wi_WorkerId w))"
    by (auto simp: register_Inr)
  obtain ih calls r where run: "attempt E w (new_inflight req (wi_WorkerId w)) [] = Some (ih, calls)"
      "ih_result ih = [r]" "chain_spec E req calls r" "int (length calls) \<le> maxAttempts"
      "distinct (map wi_WorkerId calls)" "hd calls = w"
    using attempt_new [of E w req] by blast
  define t' where "t' = unregister (req_RequestId req)
      (t1\<lparr>heap := (heap t1)(p \<mapsto> ih\<lparr>ih_result := []\<rparr>)\<rparr>)"
  have "Generate E draw req view t = Some (outcome_of r, t', calls)"
    using assms(1) w(1) reg t1(2) run(1,2) by (simp add: Generate_def Let_def take_result_def t'_def)
  moreover have "requests t' = requests t" using t1(1) assms(3) by (auto simp: t'_def)
  ultimately show ?thesis using w(2) run by metis
qed

text \<open>When the view does not change during the request, every call stays inside it.\<close>

lemma steady_calls:
  assumes "chain_spec E req calls r" and "hd calls \<in> set view" and "\<forall>k. ce_view E k = view"
  shows "set calls \<subseteq> set view"
proof -
  have "calls ! i \<in> set view" if "i < length calls" for i
    using that assms chain_specD(1,2) [OF assms(1)] by (cases i) (auto simp: from_views_def hd_conv_nth)
  then show ?thesis by (auto simp: in_set_conv_nth)
qed

lemma card_calls: "distinct (map wi_WorkerId calls) \<Longrightarrow> card (wi_WorkerId ` set calls) = length calls"
  by (metis distinct_card length_map list.set_map)

section \<open>A sample fleet\<close>

definition ex_fleet :: "wire_worker list" where
  "ex_fleet = [ex_wire ''w1'', ex_wire ''w2'', ex_wire ''w3'']"

text \<open>The workers in \<open>dead\<close> refuse the connection, the others answer.\<close>

definition ex_chain :: "string set \<Rightarrow> wire_worker list \<Rightarrow> chain_env" where
  "ex_chain dead fleet =
     \<lparr>ce_dispatch = (\<lambda>k w q. if wi_WorkerId w \<in> dead then Inl (GoError Unavailable ''refused'' [])
        else Inr \<lparr>resp_RequestId = req_RequestId q, resp_Output = req_Prompt q, resp_WorkerId = wi_WorkerId w\<rparr>),
      ce_view = (\<lambda>_. fleet), ce_draw = (\<lambda>_. 0)\<rparr>"

lemma ex_chain_sel [simp]:
  "ce_view (ex_chain dead fleet) = (\<lambda>_. fleet)"
  "ce_dispatch (ex_chain dead fleet) k w q = (if wi_WorkerId w \<in> dead then Inl (GoError Unavailable ''refused'' [])
     else Inr \<lparr>resp_RequestId = req_RequestId q, resp_Output = req_Prompt q, resp_WorkerId = wi_WorkerId w\<rparr>)"
  by (simp_all add: ex_chain_def)

section \<open>Properties\<close>

text \<open>
  C12. The full contract of \<^verbatim>\<open>Generate\<close> without interference. An admitted request always gets a
  result (no call chain runs for ever, no send blocks); at most \<^verbatim>\<open>maxAttempts\<close> calls are made, to
  pairwise distinct workers, the first from the view at admission; the result is what
  \<open>chain_spec\<close> says: the first answer that is not a retryable error, or the exhaustion error with
  the number of attempts, and that only if the budget is spent or no worker is left to try. The
  table afterwards is the table before.
\<close>

theorem generate_meets_chain_spec:
  assumes "req_RequestId req \<noteq> ''''" and "view \<noteq> []" and "requests t (req_RequestId req) = None"
  shows "\<exists>r t' calls. Generate E draw req view t = Some (outcome_of r, t', calls)
     \<and> chain_spec E req calls r \<and> hd calls \<in> set view \<and> int (length calls) \<le> maxAttempts
     \<and> distinct (map wi_WorkerId calls) \<and> requests t' = requests t"
  using assms by (rule Generate_admitted)

theorem generate_meets_chain_spec_witness:
  "\<exists>r t' calls. Generate (ex_chain {''w1''} ex_fleet) 0 ex_request ex_fleet NewRequestTracker
       = Some (outcome_of r, t', calls) \<and> length calls \<le> 3"
  using generate_meets_chain_spec [of ex_request ex_fleet NewRequestTracker "ex_chain {''w1''} ex_fleet" 0]
  by (fastforce simp: ex_fleet_def NewRequestTracker_def maxAttempts_def)

text \<open>
  The guards of \<^verbatim>\<open>Generate\<close>, in their order: a request without an id is refused with
  \<^verbatim>\<open>InvalidArgument\<close>, one that meets an empty view with \<^verbatim>\<open>Unavailable\<close>, one whose id is in flight
  with \<^verbatim>\<open>AlreadyExists\<close>; a refused request reaches no worker and leaves the table as it was.
\<close>

lemma generate_guards:
  assumes "req_RequestId req = '''' \<or> view = [] \<or> req_RequestId req \<in> dom (requests t)"
  shows "\<exists>e. Generate E draw req view t = Some (Inl e, t, [])
     \<and> err_code e = (if req_RequestId req = '''' then InvalidArgument
                      else if view = [] then Unavailable else AlreadyExists)"
  using assms by (auto simp: Generate_def Let_def missing_id_error_def pickWorker_def register_def)

lemma generate_guards_witness:
  "\<exists>e. Generate (ex_chain {} []) 0 ex_request [] NewRequestTracker = Some (Inl e, NewRequestTracker, [])
     \<and> err_code e = Unavailable"
  using generate_guards [of ex_request "[]" NewRequestTracker "ex_chain {} []" 0] by simp

text \<open>
  Retries need a cause: when the first call succeeds or fails with a terminal error, its answer
  is the client's and no other worker is called.
\<close>

lemma no_retry_without_cause:
  assumes "req_RequestId req \<noteq> ''''" and "view \<noteq> []" and "requests t (req_RequestId req) = None"
    and "\<forall>w \<in> set view. \<forall>e. ce_dispatch E 1 w req = Inl e \<longrightarrow> \<not> retryable e"
  shows "\<exists>w t'. w \<in> set view \<and> Generate E draw req view t
     = Some (case ce_dispatch E 1 w req of Inl e \<Rightarrow> Inl e | Inr resp \<Rightarrow> Inr (Some resp), t', [w])"
proof -
  obtain r t' calls where g: "Generate E draw req view t = Some (outcome_of r, t', calls)"
      "chain_spec E req calls r" "hd calls \<in> set view"
    using Generate_admitted [OF assms(1-3)] by blast
  note cs = chain_specD [OF g(2)]
  obtain w rest where c: "calls = w # rest" using cs(1) by (cases calls) auto
  have "rest = []" using cs(3) [of 0] c g(3) assms(4) by (cases rest) auto
  with g c have "outcome_of r = (case ce_dispatch E 1 w req of Inl e \<Rightarrow> Inl e | Inr resp \<Rightarrow> Inr (Some resp))"
    using assms(4) by (auto simp: chain_spec_def split: sum.splits)
  with g c \<open>rest = []\<close> show ?thesis by auto
qed

text \<open>
  What exhaustion costs: when the view does not change and every worker in it fails with a
  retryable error, exactly \<open>min 3 (number of workers)\<close> calls are made, and the client gets
  \<^verbatim>\<open>Unavailable\<close>, never the transport's own code, with that number in the message.
\<close>

lemma dead_fleet_exhausts:
  assumes "req_RequestId req \<noteq> ''''" and "view \<noteq> []" and "requests t (req_RequestId req) = None"
    and "\<forall>k. ce_view E k = view"
    and "\<forall>k. \<forall>w \<in> set view. \<exists>e. ce_dispatch E k w req = Inl e \<and> retryable e"
  shows "\<exists>last_err t' calls. Generate E draw req view t
       = Some (Inl (exhausted_error (int (length calls)) last_err), t', calls)
     \<and> length calls = min 3 (card (wi_WorkerId ` set view))
     \<and> err_code (exhausted_error (int (length calls)) last_err) = Unavailable"
proof -
  obtain r t' calls where g: "Generate E draw req view t = Some (outcome_of r, t', calls)"
      "chain_spec E req calls r" "hd calls \<in> set view" "int (length calls) \<le> maxAttempts"
      "distinct (map wi_WorkerId calls)"
    using Generate_admitted [OF assms(1-3)] by blast
  have sub: "set calls \<subseteq> set view" using steady_calls [OF g(2,3) assms(4)] .
  have "last calls \<in> set view" using sub chain_specD(1) [OF g(2)] last_in_set by blast
  then obtain e where e: "ce_dispatch E (length calls) (last calls) req = Inl e" "retryable e"
    using assms(5) by blast
  then have r: "r = error_result (last calls) (exhausted_error (int (length calls)) e)"
      and full: "int (length calls) = maxAttempts \<or> wi_WorkerId ` set view \<subseteq> wi_WorkerId ` set calls"
    using g(2) assms(4) by (auto simp: chain_spec_def)
  have le: "length calls \<le> card (wi_WorkerId ` set view)"
    unfolding card_calls [OF g(5), symmetric] using sub by (intro card_mono) auto
  have "length calls = card (wi_WorkerId ` set view)"
    if "wi_WorkerId ` set view \<subseteq> wi_WorkerId ` set calls"
    using that sub card_calls [OF g(5)] by (metis image_mono subset_antisym)
  then have "length calls = min 3 (card (wi_WorkerId ` set view))"
    using full le g(4) by (auto simp: maxAttempts_def)
  moreover have "err_code (exhausted_error (int (length calls)) e) = Unavailable"
    by (simp add: exhausted_error_def)
  ultimately show ?thesis using g(1) r by auto
qed

lemma dead_fleet_exhausts_witness:
  "\<exists>last_err t' calls. Generate (ex_chain UNIV ex_fleet) 0 ex_request ex_fleet NewRequestTracker
       = Some (Inl (exhausted_error (int (length calls)) last_err), t', calls) \<and> length calls = 3"
  using dead_fleet_exhausts [of ex_request ex_fleet NewRequestTracker "ex_chain UNIV ex_fleet" 0]
  by (fastforce simp: ex_fleet_def NewRequestTracker_def retryable_def)

text \<open>
  C26. Two crashed workers are masked. When the view does not change, at most two of its workers fail
  with retryable errors, and every other one answers, then the client gets an answer, and it is one
  that a healthy worker gave to this very request.
\<close>

theorem two_crashes_masked:
  assumes "req_RequestId req \<noteq> ''''" and "requests t (req_RequestId req) = None"
    and "\<forall>k. ce_view E k = view" and "finite dead" and "card dead \<le> 2"
    and "\<exists>w \<in> set view. wi_WorkerId w \<notin> dead"
    and "\<forall>k. \<forall>w \<in> set view. wi_WorkerId w \<notin> dead \<longrightarrow> (\<exists>resp. ce_dispatch E k w req = Inr resp)"
    and "\<forall>k. \<forall>w \<in> set view. wi_WorkerId w \<in> dead \<longrightarrow> (\<exists>e. ce_dispatch E k w req = Inl e \<and> retryable e)"
  shows "\<exists>resp t' calls. Generate E draw req view t = Some (Inr (Some resp), t', calls)
     \<and> calls \<noteq> [] \<and> last calls \<in> set view \<and> wi_WorkerId (last calls) \<notin> dead
     \<and> ce_dispatch E (length calls) (last calls) req = Inr resp"
proof -
  have "view \<noteq> []" using assms(6) by auto
  then obtain r t' calls where g: "Generate E draw req view t = Some (outcome_of r, t', calls)"
      "chain_spec E req calls r" "hd calls \<in> set view" "int (length calls) \<le> maxAttempts"
      "distinct (map wi_WorkerId calls)"
    using Generate_admitted [OF assms(1) _ assms(2)] by blast
  note cs = chain_specD [OF g(2)]
  have sub: "set calls \<subseteq> set view" using steady_calls [OF g(2,3) assms(3)] .
  have last: "last calls \<in> set view" using sub cs(1) last_in_set by blast
  have early: "wi_WorkerId (calls ! i) \<in> dead" if "Suc i < length calls" for i
    using cs(3) [OF that] assms(7) sub that by (metis Inl_Inr_False Suc_lessD nth_mem subset_iff)
  have "wi_WorkerId (last calls) \<notin> dead"
  proof
    assume l: "wi_WorkerId (last calls) \<in> dead"
    have "wi_WorkerId (calls ! i) \<in> dead" if "i < length calls" for i
    proof (cases "Suc i = length calls")
      case True
      then have "i = length calls - 1" by simp
      with l cs(1) show ?thesis by (simp add: last_conv_nth)
    qed (use that early [of i] in simp)
    then have all: "wi_WorkerId ` set calls \<subseteq> dead" by (auto simp: in_set_conv_nth)
    then have "length calls \<le> 2"
      using card_mono [OF assms(4) all] assms(5) card_calls [OF g(5)] by simp
    moreover obtain e where "ce_dispatch E (length calls) (last calls) req = Inl e" "retryable e"
      using assms(8) last l by blast
    ultimately have "\<forall>c \<in> set view. wi_WorkerId c \<in> wi_WorkerId ` set calls"
      using g(2) assms(3) by (auto simp: chain_spec_def maxAttempts_def)
    with all assms(6) show False by (meson subsetD)
  qed
  moreover from this obtain resp where resp: "ce_dispatch E (length calls) (last calls) req = Inr resp"
    using assms(7) last by blast
  moreover have "outcome_of r = Inr (Some resp)" using g(2) resp by (simp add: chain_spec_def)
  ultimately show ?thesis using g(1) cs(1) last by auto
qed

theorem two_crashes_masked_witness:
  "\<exists>resp t' calls. Generate (ex_chain {''w1'', ''w3''} ex_fleet) 0 ex_request ex_fleet NewRequestTracker
     = Some (Inr (Some resp), t', calls)"
  using two_crashes_masked [of ex_request NewRequestTracker "ex_chain {''w1'', ''w3''} ex_fleet" ex_fleet
      "{''w1'', ''w3''}" 0]
  by (fastforce simp: ex_fleet_def NewRequestTracker_def retryable_def)

end
