(* ===== verification/Chain_System.thy ===== *)
theory Chain_System
  imports Retry_Chain Gateway_Invariant
begin

text \<open>
  The two models of the gateway agree: a run of the sequential function \<open>Generate\<close> (\<open>Retry_Chain\<close>) is an
  execution of the interleaved system (\<open>Gateway_System\<close>) in which one handler and its chain of attempts are
  scheduled without interference. Calls and replies are read off the trace.
\<close>

section \<open>Calls and replies of a trace\<close>

fun called_in :: "gs_label \<Rightarrow> wire_worker list" where
  "called_in (LCall p w req) = [w]"
| "called_in l = []"

fun replied_in :: "gs_label \<Rightarrow> (go_error + inference_response) list" where
  "replied_in (LReply p w res) = [res]"
| "replied_in l = []"

definition called :: "gs_label list \<Rightarrow> wire_worker list" where
  "called ls = concat (map called_in ls)"

definition replied :: "gs_label list \<Rightarrow> (go_error + inference_response) list" where
  "replied ls = concat (map replied_in ls)"

lemma called_simps [simp]:
  "called [] = []" "called (l # ls) = called_in l @ called ls" "called (ls @ ls') = called ls @ called ls'"
  "replied [] = []" "replied (l # ls) = replied_in l @ replied ls" "replied (ls @ ls') = replied ls @ replied ls'"
  by (simp_all add: called_def replied_def)

text \<open>The answers the environment gives to the calls after the first \<open>k\<close>.\<close>

fun answers :: "chain_env \<Rightarrow> inference_request \<Rightarrow> nat \<Rightarrow> wire_worker list \<Rightarrow> (go_error + inference_response) list" where
  "answers E req k [] = []"
| "answers E req k (w # ws) = ce_dispatch E (Suc k) w req # answers E req (Suc k) ws"

section \<open>The chain\<close>

definition at_point :: "gateway_system \<Rightarrow> nat \<Rightarrow> ptr \<Rightarrow> inflight \<Rightarrow> attempt_pc \<Rightarrow> gateway_system" where
  "at_point s i p ih pc = set_record p ih (set_attempt i pc s)"

lemma at_point_step:
  assumes "i < length (gs_attempts s)" and "ga_ih (gs_attempts s ! i) = p"
    and "attempt_step (gs_view s) p ih pc l ih' pc'"
  shows "gs_step (at_point s i p ih pc) l (at_point s i p ih' pc')"
proof -
  let ?u = "at_point s i p ih pc"
  have "gs_step ?u l (set_record p ih' (set_attempt i pc' ?u))"
  proof (rule gs_attempt)
    show "i < length (gs_attempts ?u)" "gs_attempts ?u ! i = \<lparr>ga_ih = p, ga_pc = pc\<rparr>"
      using assms(1,2) by (simp_all add: at_point_def set_attempt_def)
    show "heap (gs_tracker ?u) p = Some ih" by (simp add: at_point_def)
    show "attempt_step (gs_view ?u) p ih pc l ih' pc'" using assms(3) by (simp add: at_point_def)
  qed
  moreover have "set_record p ih' (set_attempt i pc' ?u) = at_point s i p ih' pc'"
    using assms(1) by (simp add: at_point_def set_attempt_def set_record_def)
  ultimately show ?thesis by simp
qed

text \<open>A quiet run from one point of the attempt to another: what it calls and what it is answered.\<close>

definition runs :: "gateway_system \<Rightarrow> nat \<Rightarrow> ptr \<Rightarrow> inflight \<Rightarrow> attempt_pc \<Rightarrow> wire_worker list \<Rightarrow>
    (go_error + inference_response) list \<Rightarrow> inflight \<Rightarrow> attempt_pc \<Rightarrow> bool" where
  "runs s i p ih pc ws as ih' pc' \<longleftrightarrow>
     (\<exists>ls. exec gs_step (at_point s i p ih pc) ls (at_point s i p ih' pc') \<and> called ls = ws \<and> replied ls = as)"

definition attempt_here :: "gateway_system \<Rightarrow> nat \<Rightarrow> ptr \<Rightarrow> bool" where
  "attempt_here s i p \<longleftrightarrow> i < length (gs_attempts s) \<and> ga_ih (gs_attempts s ! i) = p"

lemma runs_refl: "runs s i p ih pc [] [] ih pc"
  by (auto simp: runs_def intro!: exI [of _ "[]"])

lemma runs_step:
  assumes "attempt_here s i p" and "attempt_step (gs_view s) p ih pc l ih1 pc1"
    and "runs s i p ih1 pc1 ws as ih' pc'"
  shows "runs s i p ih pc (called_in l @ ws) (replied_in l @ as) ih' pc'"
proof -
  obtain ls where "exec gs_step (at_point s i p ih1 pc1) ls (at_point s i p ih' pc')" "called ls = ws" "replied ls = as"
    using assms(3) by (auto simp: runs_def)
  moreover have "gs_step (at_point s i p ih pc) l (at_point s i p ih1 pc1)"
    using assms(1) at_point_step [OF _ _ assms(2)] by (simp add: attempt_here_def)
  ultimately show ?thesis unfolding runs_def by (intro exI [of _ "l # ls"]) (auto intro: exec_cons)
qed

lemmas runs_work = runs_step [where l = "LWork p" for p, simplified]

lemma settle_runs:
  assumes "attempt_here s i p" and "settle r ih = Some (won, ih')" and "pc = ASettle r \<or> pc = AExhaust r"
  shows "runs s i p ih pc [] [] ih' ADone"
proof (cases "claimed ih")
  case True
  then have "ih' = ih" using assms(2) settle_claimed [OF True] by simp
  with runs_step [OF assms(1) as_lose [OF assms(3)] runs_refl] True show ?thesis by (simp add: cas_claim_def)
next
  case False
  let ?ih = "ih\<lparr>claimed := True\<rparr>"
  obtain buf where buf: "chan_send 1 r (ih_result ?ih) = Some buf" "ih' = ?ih\<lparr>ih_result := buf\<rparr>"
    using assms(2) False by (auto simp: settle_def cas_claim_def)
  have "cas_claim ih = (True, ?ih)" using False by (simp add: cas_claim_def)
  from runs_step [OF assms(1) as_win [OF assms(3) this] runs_work [OF assms(1) as_send [OF buf(1)] runs_refl]]
  show ?thesis using buf(2) by simp
qed

lemma chain_runs:
  "attempt E w ih calls = Some (ih', calls') \<Longrightarrow> attempt_here s i p \<Longrightarrow> ce_view E = (\<lambda>_. gs_view s) \<Longrightarrow>
     \<exists>ws. calls' = calls @ ws \<and> runs s i p ih (AStart w) ws (answers E (ih_req ih) (length calls) ws) ih' ADone"
  "attemptFailed E w err ih calls = Some (ih', calls') \<Longrightarrow> attempt_here s i p \<Longrightarrow> ce_view E = (\<lambda>_. gs_view s) \<Longrightarrow>
     \<exists>ws. calls' = calls @ ws \<and> runs s i p ih (AFailed w err) ws (answers E (ih_req ih) (length calls) ws) ih' ADone"
proof (induction E w ih calls and E w err ih calls arbitrary: ih' calls' and ih' calls' rule: attempt_attemptFailed.induct)
  case (1 E w ih calls)
  note h = 1(3,4)
  let ?a = "ce_dispatch E (Suc (length calls)) w (ih_req ih)"
  have "\<exists>ws. calls' = (calls @ [w]) @ ws
     \<and> runs s i p ih (AAir w) ws (?a # answers E (ih_req ih) (Suc (length calls)) ws) ih' ADone"
  proof (cases ?a)
    case (Inl err)
    then have "attemptFailed E w err ih (calls @ [w]) = Some (ih', calls')"
      using 1(2) by (simp add: attempt.simps Let_def)
    with 1(1) [OF refl _ this h] Inl obtain ws where
      "calls' = (calls @ [w]) @ ws"
      "runs s i p ih (AFailed w err) ws (answers E (ih_req ih) (Suc (length calls)) ws) ih' ADone" by auto
    with runs_step [OF h(1) as_error this(2)] Inl show ?thesis by auto
  next
    case (Inr resp)
    then obtain won where r: "settle (success_result w resp) ih = Some (won, ih')" "calls' = calls @ [w]"
      using 1(2) by (auto simp: attempt.simps Let_def)
    from runs_step [OF h(1) as_success settle_runs [OF h(1) r(1)]] Inr r(2) show ?thesis by auto
  qed
  then obtain ws where "calls' = calls @ w # ws"
      "runs s i p ih (AAir w) ws (?a # answers E (ih_req ih) (Suc (length calls)) ws) ih' ADone" by auto
  with runs_step [OF h(1) as_call this(2)] show ?case by (intro exI [of _ "w # ws"]) simp
next
  case (2 E w err ih calls)
  note h = 2(3,4)
  have pre: "runs s i p ih (AFailed w err) ws as ih' ADone"
    if "\<not> claimed ih" "retryable err" "runs s i p ih (ACands w err (healthyExcept {wi_WorkerId w} (gs_view s))) ws as ih' ADone" for ws as
    by (rule runs_work [OF h(1) as_retry [OF that(1,2)] runs_work [OF h(1) as_snapshot that(3)]])
  from 2(2) show ?case
  proof (cases rule: attemptFailed_kinds)
    case late
    then show ?thesis using runs_work [OF h(1) as_late [OF late(1)] runs_refl] by simp
  next
    case (terminal won)
    then show ?thesis using runs_work [OF h(1) as_terminal [OF terminal(1,2)] settle_runs [OF h(1) terminal(3)]] by simp
  next
    case (replaced ih1 r ex d)
    note l = replaced(3) [unfolded h(2)]
    from 2(1) [OF replaced(1) _ refl refl replaced(3) [symmetric] refl refl refl replaced(4) h] replaced(2) obtain ws where
      "calls' = calls @ ws" "runs s i p ih1 (AStart r) ws (answers E (ih_req ih1) (length calls) ws) ih' ADone" by auto
    with pre [OF replaced(1,2) runs_work [OF h(1) as_replace [OF l] this(2)]] locked_frame(1) [OF l] show ?thesis by auto
  next
    case (exhausted ih1 d won)
    from pre [OF exhausted(1,2) runs_work [OF h(1) as_exhaust [OF exhausted(3) [unfolded h(2)]] settle_runs [OF h(1) exhausted(4)]]]
      exhausted(5) show ?thesis by simp
  next
    case (over d)
    from pre [OF over(1,2) runs_work [OF h(1) as_over [OF over(3) [unfolded h(2)]] runs_refl]] over(4) show ?thesis by simp
  qed
qed

section \<open>A whole request\<close>

definition finished :: "gateway_system \<Rightarrow> inference_request \<Rightarrow> outcome \<Rightarrow> request_tracker \<Rightarrow> attempt_goroutine list \<Rightarrow> gateway_system" where
  "finished s req out t extra = s\<lparr>gs_attempts := gs_attempts s @ extra, gs_tracker := t,
     gs_handlers := gs_handlers s @ [\<lparr>gh_req = req, gh_pc = HDone out\<rparr>]\<rparr>"

text \<open>The handler that has just arrived, at a program point.\<close>

definition arrived :: "gateway_system \<Rightarrow> inference_request \<Rightarrow> handler_pc \<Rightarrow> gateway_system" where
  "arrived s req pc = s\<lparr>gs_handlers := gs_handlers s @ [\<lparr>gh_req = req, gh_pc = pc\<rparr>]\<rparr>"

lemma arrived_sel [simp]:
  "handler_at (length (gs_handlers s)) pc' (arrived s req pc) \<longleftrightarrow> pc' = pc"
  "handler_req (length (gs_handlers s)) (arrived s req pc) = req"
  "gs_view (arrived s req pc) = gs_view s" "gs_tracker (arrived s req pc) = gs_tracker s"
  "gs_attempts (arrived s req pc) = gs_attempts s"
  "set_handler (length (gs_handlers s)) pc' (arrived s req pc) = arrived s req pc'"
  by (auto simp: arrived_def handler_at_def set_handler_def)

lemma arrived_tracker [simp]:
  "(arrived s req pc)\<lparr>gs_tracker := t\<rparr> = arrived (s\<lparr>gs_tracker := t\<rparr>) req pc"
  "set_handler (length (gs_handlers s)) pc' (arrived (s\<lparr>gs_tracker := t\<rparr>) req pc) = arrived (s\<lparr>gs_tracker := t\<rparr>) req pc'"
  by (simp_all add: arrived_def set_handler_def)

lemma admitted_run:
  assumes "req_RequestId req \<noteq> ''''" and "pickWorker draw (gs_view s) = Inr w"
    and "register req (wi_WorkerId w) (gs_tracker s) = (Inr p, t1)" and "heap t1 p = Some ih"
    and "attempt E w ih [] = Some (ih1, calls)" and "take_result ih1 = Some (r, ih2)"
    and "ce_view E = (\<lambda>_. gs_view s)"
  shows "\<exists>ls. exec gs_step s (ls @ [LReturn req (outcome_of r)])
       (finished s req (outcome_of r) (unregister (req_RequestId req) (t1\<lparr>heap := (heap t1)(p \<mapsto> ih2)\<rparr>))
          [\<lparr>ga_ih = p, ga_pc = ADone\<rparr>])
     \<and> called ls = calls \<and> replied ls = answers E (ih_req ih) 0 calls"
proof -
  let ?h = "length (gs_handlers s)" and ?i = "length (gs_attempts s)"
  let ?s1 = "s\<lparr>gs_tracker := t1\<rparr>"
  let ?s2 = "launch p w (arrived ?s1 req (HWaiting p))"
  have "gs_step s LTau (arrived s req HStart)" unfolding arrived_def by (rule gs_arrive)
  moreover have "gs_step (arrived s req HStart) LTau (arrived s req (HPicked w))"
    using gs_pick [of ?h "arrived s req HStart" draw w] assms(1,2) by simp
  moreover have "gs_step (arrived s req (HPicked w)) LTau (arrived ?s1 req (HRegistered p w))"
    using gs_register [of ?h w "arrived s req (HPicked w)" p t1] assms(3) by simp
  moreover have "gs_step (arrived ?s1 req (HRegistered p w)) LTau ?s2"
    using gs_launch [of ?h p w "arrived ?s1 req (HRegistered p w)"] arrived_sel(1,6) [of ?s1] by simp
  ultimately have up: "exec gs_step s [LTau, LTau, LTau, LTau] ?s2" by (blast intro: exec_cons)
  have here: "attempt_here ?s2 ?i p" by (simp add: attempt_here_def arrived_def)
  obtain ws where ws: "calls = [] @ ws" "runs ?s2 ?i p ih (AStart w) ws (answers E (ih_req ih) 0 ws) ih1 ADone"
    using chain_runs(1) [OF assms(5) here] assms(7) by (auto simp: arrived_def)
  have "at_point ?s2 ?i p ih (AStart w) = ?s2"
    using assms(4) by (simp add: at_point_def set_record_def set_attempt_def launch_def arrived_def fun_upd_idem)
  then obtain ls where ls: "exec gs_step ?s2 ls (at_point ?s2 ?i p ih1 ADone)" "called ls = calls"
      "replied ls = answers E (ih_req ih) 0 calls"
    using ws by (auto simp: runs_def)
  let ?s3 = "at_point ?s2 ?i p ih1 ADone"
  let ?s4 = "set_record p ih2 (set_handler ?h (HReturning p (outcome_of r)) ?s3)"
  have "gs_step ?s3 LTau ?s4"
    using assms(6) by (intro gs_receive [where ih = ih1])
      (simp_all add: handler_at_def at_point_def arrived_def)
  moreover have "gs_step ?s4 (LReturn req (outcome_of r))
      (finished s req (outcome_of r) (unregister (req_RequestId req) (t1\<lparr>heap := (heap t1)(p \<mapsto> ih2)\<rparr>)) [\<lparr>ga_ih = p, ga_pc = ADone\<rparr>])"
    using gs_return [of ?h p "outcome_of r" ?s4]
    by (simp add: handler_at_def at_point_def arrived_def finished_def set_handler_def set_record_def set_attempt_def launch_def)
  ultimately have "exec gs_step ?s3 [LTau, LReturn req (outcome_of r)]
      (finished s req (outcome_of r) (unregister (req_RequestId req) (t1\<lparr>heap := (heap t1)(p \<mapsto> ih2)\<rparr>)) [\<lparr>ga_ih = p, ga_pc = ADone\<rparr>])"
    by (blast intro: exec_cons)
  from exec_append [OF exec_append [OF this ls(1)] up]
  show ?thesis using ls(2,3) by (intro exI [of _ "[LTau, LTau, LTau, LTau] @ ls @ [LTau]"]) simp
qed

lemma refused_run:
  assumes "gs_step (arrived s req pc) (LReturn req (Inl err)) (arrived s req (HDone (Inl err)))"
    and "exec gs_step s ls (arrived s req pc)" and "called ls = []" "replied ls = []"
  shows "\<exists>ls. exec gs_step s (ls @ [LReturn req (Inl err)]) (finished s req (Inl err) (gs_tracker s) [])
     \<and> called ls = [] \<and> replied ls = []"
proof -
  have "finished s req (Inl err) (gs_tracker s) [] = arrived s req (HDone (Inl err))"
    by (simp add: finished_def arrived_def)
  with assms show ?thesis by (auto intro: exec_snoc)
qed

text \<open>The request after a worker was picked: refused as a duplicate, or admitted.\<close>

lemma picked_run:
  assumes b: "req_RequestId req \<noteq> ''''" and w: "pickWorker draw (gs_view s) = Inr w"
    and g: "Generate E draw req (gs_view s) (gs_tracker s) = Some (out, t', calls)" and v: "ce_view E = (\<lambda>_. gs_view s)"
    and arrive: "exec gs_step s [LTau] (arrived s req HStart)"
  shows "\<exists>ls extra. exec gs_step s (ls @ [LReturn req out]) (finished s req out t' extra)
     \<and> called ls = calls \<and> replied ls = answers E req 0 calls"
proof -
  let ?h = "length (gs_handlers s)"
  have "gs_step (arrived s req HStart) LTau (arrived s req (HPicked w))"
    using gs_pick [of ?h "arrived s req HStart" draw w] b w by simp
  then have picked: "exec gs_step s [LTau, LTau] (arrived s req (HPicked w))"
    using exec_append [OF exec_single arrive] by simp
  obtain res t1 where reg: "register req (wi_WorkerId w) (gs_tracker s) = (res, t1)" by (metis surj_pair)
  show ?thesis
  proof (cases res)
    case (Inl err)
    have same: "t1 = gs_tracker s" using reg Inl by (auto simp: register_def Let_def split: option.splits)
    have "gs_step (arrived s req (HPicked w)) (LReturn req (Inl err)) (arrived s req (HDone (Inl err)))"
      using gs_duplicate [of ?h w "arrived s req (HPicked w)" err t1] reg Inl same by simp
    from refused_run [OF this picked] same b w reg Inl g show ?thesis by (auto simp: Generate_def Let_def)
  next
    case (Inr p)
    then obtain ih ih1 r ih2 where a: "heap t1 p = Some ih" "attempt E w ih [] = Some (ih1, calls)"
        "take_result ih1 = Some (r, ih2)" "out = outcome_of r"
        "t' = unregister (req_RequestId req) (t1\<lparr>heap := (heap t1)(p \<mapsto> ih2)\<rparr>)"
      using g b w reg by (auto simp: Generate_def Let_def split: bind_splits)
    have "ih_req ih = req" using reg Inr a(1) by (auto simp: register_def new_inflight_def Let_def split: option.splits)
    with admitted_run [OF b w reg [unfolded Inr] a(1-3) v] a(4,5) show ?thesis by auto
  qed
qed

section \<open>Properties\<close>

text \<open>
  C13. The sequential reading of \<^verbatim>\<open>Generate\<close> is sound for the concurrent gateway: for every request, refusals
  included, every choice of workers and every behaviour of the workers, in an environment whose view is the
  gateway's own and does not change during the run, what the function computes is what the system does when
  the request is scheduled on its own from any state: the same calls in the same order with the same answers,
  the same value returned to the client, and the same table and records afterwards. (A view that changes is
  the poll's doing, and a poll may also reroute the request; those executions are the other properties'.)
\<close>

theorem generate_is_an_execution:
  assumes "Generate E draw req (gs_view s) (gs_tracker s) = Some (out, t', calls)" and "ce_view E = (\<lambda>_. gs_view s)"
  shows "\<exists>ls extra. exec gs_step s (ls @ [LReturn req out]) (finished s req out t' extra)
     \<and> called ls = calls \<and> replied ls = answers E req 0 calls"
proof -
  let ?h = "length (gs_handlers s)"
  have arrive: "exec gs_step s [LTau] (arrived s req HStart)"
    unfolding arrived_def by (rule exec_single) (rule gs_arrive)
  consider "req_RequestId req = ''''" | "req_RequestId req \<noteq> ''''" by blast
  then show ?thesis
  proof cases
    case 1
    then have "gs_step (arrived s req HStart) (LReturn req (Inl missing_id_error)) (arrived s req (HDone (Inl missing_id_error)))"
      using gs_no_id [of ?h "arrived s req HStart"] by simp
    from refused_run [OF this arrive] 1 assms(1) show ?thesis by (auto simp: Generate_def)
  next
    case b: 2
    show ?thesis
    proof (cases "pickWorker draw (gs_view s)")
      case (Inl err)
      then have "gs_step (arrived s req HStart) (LReturn req (Inl err)) (arrived s req (HDone (Inl err)))"
        using gs_no_worker [of ?h "arrived s req HStart"] b by simp
      from refused_run [OF this arrive] b Inl assms(1) show ?thesis by (auto simp: Generate_def Let_def)
    next
      case (Inr w)
      from picked_run [OF b this assms arrive] show ?thesis .
    qed
  qed
qed

theorem generate_is_an_execution_witness:
  "\<exists>ls extra out t'. exec gs_step (gateway_new\<lparr>gs_view := ex_fleet\<rparr>) (ls @ [LReturn ex_request out])
     (finished (gateway_new\<lparr>gs_view := ex_fleet\<rparr>) ex_request out t' extra)"
proof -
  let ?s = "gateway_new\<lparr>gs_view := ex_fleet\<rparr>" and ?E = "ex_chain {''w1'', ''w3''} ex_fleet"
  have v: "ce_view ?E = (\<lambda>_. gs_view ?s)" by (simp add: ex_chain_def)
  have "req_RequestId ex_request \<noteq> ''''" "gs_view ?s \<noteq> []" "requests (gs_tracker ?s) (req_RequestId ex_request) = None"
    by (simp_all add: ex_fleet_def gateway_new_def NewRequestTracker_def)
  from Generate_admitted [OF this, of ?E 0] obtain out t' calls where
    "Generate ?E 0 ex_request (gs_view ?s) (gs_tracker ?s) = Some (out, t', calls)" by blast
  from generate_is_an_execution [OF this v] show ?thesis by blast
qed

end
