(* ===== verification/Demo_Client.thy ===== *)
theory Demo_Client
  imports Wire
begin

text \<open>
  The batch client (\<^verbatim>\<open>cmd/democlient/main.go\<close>): the ids it assigns, the outcome it records per request,
  its tally and its exit code. The answers of the gateway are an argument; printing, flags and the JSON
  file are left out. A status code or error that is the empty string in Go is \<open>None\<close>.
\<close>

section \<open>Request ids\<close>

definition digit_char :: "nat \<Rightarrow> char" where
  "digit_char d = char_of (48 + d)"

fun decimal :: "nat \<Rightarrow> string" where
  "decimal k = (if k < 10 then [digit_char k] else decimal (k div 10) @ [digit_char (k mod 10)])"

declare decimal.simps [simp del]

definition zero_pad :: "nat \<Rightarrow> string \<Rightarrow> string" where
  "zero_pad k s = replicate (k - length s) (CHR ''0'') @ s"

text \<open>\<^verbatim>\<open>fmt.Sprintf("%s-%03d", prefix, i)\<close>\<close>

definition demo_id :: "string \<Rightarrow> nat \<Rightarrow> string" where
  "demo_id prefix i = prefix @ ''-'' @ zero_pad 3 (decimal i)"

definition read_decimal :: "string \<Rightarrow> nat" where
  "read_decimal = foldl (\<lambda>a ch. 10 * a + (of_char ch - 48)) 0"

lemma read_digit: "d < 10 \<Longrightarrow> (of_char (digit_char d) :: nat) - 48 = d"
  by (simp add: digit_char_def of_char_of)

lemma read_decimal_snoc [simp]: "read_decimal (s @ [ch]) = 10 * read_decimal s + (of_char ch - 48)"
  by (simp add: read_decimal_def)

lemma read_decimal_decimal [simp]: "read_decimal (decimal k) = k"
proof (induction k rule: decimal.induct)
  case (1 k)
  show ?case
  proof (cases "k < 10")
    case True
    then show ?thesis by (subst decimal.simps) (simp add: read_decimal_def read_digit)
  next
    case False
    then show ?thesis using 1 by (subst decimal.simps) (simp add: read_digit del: decimal.simps)
  qed
qed

lemma read_decimal_zeros: "read_decimal (replicate j (CHR ''0'') @ s) = read_decimal s"
  by (induction j) (simp_all add: read_decimal_def)

lemma read_zero_pad [simp]: "read_decimal (zero_pad j s) = read_decimal s"
  by (simp add: zero_pad_def read_decimal_zeros)

lemma demo_id_inj: "demo_id prefix i = demo_id prefix j \<longleftrightarrow> i = j"
  by (auto simp: demo_id_def dest: arg_cong [where f = read_decimal])

section \<open>Outcomes\<close>

record client_result =
  cr_RequestID :: string
  cr_WorkerID :: string
  cr_OK :: bool
  cr_Code :: "grpc_code option"
  cr_Err :: "go_error option"
  cr_ElapsedMs :: go_int64

definition client_outcome :: "string \<Rightarrow> go_int64 \<Rightarrow> go_error + inference_response \<Rightarrow> client_result" where
  "client_outcome i elapsed answer =
     (let r = \<lparr>cr_RequestID = i, cr_WorkerID = '''', cr_OK = False, cr_Code = None, cr_Err = None,
               cr_ElapsedMs = elapsed\<rparr>
      in case answer of
           Inl err \<Rightarrow> r\<lparr>cr_Code := Some (status_code (Some err)), cr_Err := Some err\<rparr>
         | Inr resp \<Rightarrow> r\<lparr>cr_OK := True, cr_WorkerID := resp_WorkerId resp\<rparr>)"

text \<open>The batch: one request per index; \<open>n\<close> is the flag.\<close>

definition batch ::
  "string \<Rightarrow> nat \<Rightarrow> (nat \<Rightarrow> go_int64) \<Rightarrow> (nat \<Rightarrow> go_error + inference_response) \<Rightarrow> client_result list" where
  "batch prefix k elapsed answers =
     map (\<lambda>i. client_outcome (demo_id prefix i) (elapsed i) (answers i)) [0..<k]"

definition tally :: "client_result list \<Rightarrow> int \<times> (string \<rightharpoonup> int)" where
  "tally results = foldl (\<lambda>(ok, byWorker) r.
     if cr_OK r
     then (ok + 1, byWorker(cr_WorkerID r \<mapsto> (case byWorker (cr_WorkerID r) of None \<Rightarrow> 0 | Some c \<Rightarrow> c) + 1))
     else (ok, byWorker)) (0, Map.empty) results"

definition exit_code :: "nat \<Rightarrow> client_result list \<Rightarrow> int" where
  "exit_code k results = (if fst (tally results) \<noteq> int k then 1 else 0)"

definition answered_by :: "string \<Rightarrow> client_result list \<Rightarrow> nat" where
  "answered_by w results = count_if (\<lambda>r. cr_OK r \<and> cr_WorkerID r = w) results"

lemma tally_spec:
  "tally results = (int (count_if cr_OK results),
     \<lambda>w. if answered_by w results = 0 then None else Some (int (answered_by w results)))"
proof (induction results rule: rev_induct)
  case Nil
  then show ?case by (simp add: tally_def answered_by_def)
next
  case (snoc r results)
  have "tally (results @ [r]) = (case tally results of (ok, byWorker) \<Rightarrow>
     if cr_OK r
     then (ok + 1, byWorker(cr_WorkerID r \<mapsto> (case byWorker (cr_WorkerID r) of None \<Rightarrow> 0 | Some c \<Rightarrow> c) + 1))
     else (ok, byWorker))"
    by (simp add: tally_def split_beta)
  then show ?case using snoc by (auto simp: answered_by_def fun_eq_iff)
qed

lemma client_outcome_OK: "cr_OK (client_outcome i e a) \<longleftrightarrow> (\<exists>resp. a = Inr resp)"
  by (cases a) (auto simp: client_outcome_def Let_def)

lemma count_if_le: "count_if P xs \<le> length xs"
  by (simp add: count_if_def)

lemma count_if_all: "count_if P xs = length xs \<longleftrightarrow> (\<forall>x \<in> set xs. P x)"
proof (induction xs)
  case (Cons x xs)
  then show ?case using count_if_le [of P xs] by auto
qed simp

section \<open>Properties\<close>

text \<open>
  The ids of a batch are pairwise distinct and none is empty, however large the batch (the padding to three digits
  never makes two indices collide), so no request of a batch is refused for a missing id or
  for the id of another request of the batch.
\<close>

lemma demo_ids_distinct:
  "distinct (map (demo_id prefix) [0..<k]) \<and> '''' \<notin> set (map (demo_id prefix) [0..<k])"
  by (auto simp: distinct_map inj_on_def demo_id_inj) (simp add: demo_id_def)

text \<open>
  The exit code tells the truth: it is 0 if and only if every request of the batch got a response, and 1
  otherwise.
\<close>

lemma exit_code_zero_iff_nothing_lost:
  "exit_code k (batch prefix k elapsed answers) = (if {i. i < k \<and> (\<exists>e. answers i = Inl e)} = {} then 0 else 1)"
proof -
  let ?b = "batch prefix k elapsed answers"
  have len: "length ?b = k" by (simp add: batch_def)
  have "(\<forall>r \<in> set ?b. cr_OK r) \<longleftrightarrow> (\<forall>i < k. \<exists>resp. answers i = Inr resp)"
    by (auto simp: batch_def client_outcome_OK)
  also have "\<dots> \<longleftrightarrow> {i. i < k \<and> (\<exists>e. answers i = Inl e)} = {}"
    using sum.exhaust by (auto, metis)
  finally show ?thesis using count_if_all [of cr_OK ?b] len by (simp add: exit_code_def tally_spec)
qed

text \<open>
  The tally adds up: the per-worker counts are the numbers of answers of each worker, no worker
  without an answer is listed, and together they are the number of completed requests.
\<close>

lemma tally_adds_up:
  "(let (ok, byWorker) = tally results
    in ok = int (count_if cr_OK results)
     \<and> byWorker = (\<lambda>w. if answered_by w results = 0 then None else Some (int (answered_by w results)))
     \<and> (\<Sum>w \<in> dom byWorker. the (byWorker w)) = ok)"
proof -
  let ?m = "\<lambda>w. if answered_by w results = 0 then None else Some (int (answered_by w results))"
  have d: "dom ?m = cr_WorkerID ` {r \<in> set results. cr_OK r}"
    by (auto simp: dom_def answered_by_def count_if_zero)
  have "(\<Sum>w \<in> dom ?m. the (?m w)) = (\<Sum>w \<in> dom ?m. int (answered_by w results))"
    by (intro sum.cong) (auto simp: dom_def)
  also have "\<dots> = int (count_if cr_OK results)"
  proof -
    have "(\<Sum>w \<in> A. int (answered_by w rs)) = int (count_if cr_OK rs)"
      if "finite A" "cr_WorkerID ` {r \<in> set rs. cr_OK r} \<subseteq> A" for A rs
      using that
    proof (induction rs)
      case Nil
      then show ?case by (simp add: answered_by_def)
    next
      case (Cons r rs)
      have "(\<Sum>w \<in> A. int (answered_by w (r # rs)))
          = (\<Sum>w \<in> A. (if cr_OK r \<and> cr_WorkerID r = w then 1 else 0) + int (answered_by w rs))"
        by (intro sum.cong) (auto simp: answered_by_def)
      also have "\<dots> = (\<Sum>w \<in> A. if cr_OK r \<and> cr_WorkerID r = w then 1 else 0) + (\<Sum>w \<in> A. int (answered_by w rs))"
        by (rule sum.distrib)
      also have "(\<Sum>w \<in> A. if cr_OK r \<and> cr_WorkerID r = w then 1 else 0) = (if cr_OK r then 1 else (0::int))"
        using Cons.prems by (auto simp: sum.delta)
      finally show ?case using Cons by auto
    qed
    then show ?thesis unfolding d by auto
  qed
  finally show ?thesis by (simp add: tally_spec)
qed

end
