(* ===== verification/Demo_Run.thy ===== *)
theory Demo_Run
  imports Demo_Client
begin

text \<open>
  The run of the batch client (\<^verbatim>\<open>main\<close> of \<^verbatim>\<open>cmd/democlient/main.go\<close>): the start, the goroutines that call the
  gateway and write their slot of the shared slice, the wait for all of them, and what the client prints,
  writes and exits with. When an answer comes, and which, is left open; the overall deadline is one of the
  errors an answer may be.
\<close>

section \<open>Start\<close>

record demo_flags =
  df_addr :: string
  df_n :: int
  df_prefix :: string
  df_json :: string

text \<open>The values the flags have when they are not given, and the default of the deadline for the whole batch.\<close>

definition default_demo_flags :: demo_flags where
  "default_demo_flags = \<lparr>df_addr = ''localhost:50052'', df_n = 20, df_prefix = ''req'', df_json = []\<rparr>"

definition default_timeout :: duration where "default_timeout = 60 * 1000000000"

text \<open>A goroutine: in its call, with the result in hand, with the slot written, gone.\<close>

datatype call_pc = Calling | Answered client_result | Stored | CallDone

text \<open>The main goroutine: in its loop at index \<open>i\<close>, or past \<^verbatim>\<open>wg.Wait()\<close> with what it reads from the slice.\<close>

datatype client_pc = Launching nat | Collected "client_result list"

record client_run =
  dr_results :: "client_result list"
  dr_calls :: "call_pc list"
  dr_wg :: int
  dr_main :: client_pc

definition zero_result :: client_result where
  "zero_result = \<lparr>cr_RequestID = '''', cr_WorkerID = '''', cr_OK = False, cr_Code = None, cr_Err = None,
     cr_ElapsedMs = 0\<rparr>"

definition client_start :: "nat \<Rightarrow> client_run" where
  "client_start k = \<lparr>dr_results = replicate k zero_result, dr_calls = [], dr_wg = 0, dr_main = Launching 0\<rparr>"

text \<open>
  \<^verbatim>\<open>main\<close> up to the loop: a failed \<^verbatim>\<open>grpc.NewClient\<close> exits with 2, and \<^verbatim>\<open>make([]result, n)\<close> panics for a negative \<open>n\<close>.
\<close>

datatype client_begin = Quit int string "fmt_arg list" | MakePanic | Run client_run

definition client_main :: "demo_flags \<Rightarrow> (string \<Rightarrow> go_error + nat) \<Rightarrow> client_begin" where
  "client_main fl dial =
     (case dial (df_addr fl) of
        Inl err \<Rightarrow> Quit 2 ''democlient: dial %s: %v'' [ArgString (df_addr fl), ArgErr err]
      | Inr conn \<Rightarrow> if df_n fl < 0 then MakePanic else Run (client_start (nat (df_n fl))))"

section \<open>The batch\<close>

datatype client_label =
    LaunchL nat
  | AnswerL nat go_int64 "go_error + inference_response"
  | StoreL nat
  | DoneL nat
  | WaitL

inductive client_step :: "string \<Rightarrow> nat \<Rightarrow> client_run \<Rightarrow> client_label \<Rightarrow> client_run \<Rightarrow> bool"
  for prefix :: string and k :: nat and s :: client_run where
  cl_launch: "dr_main s = Launching i \<Longrightarrow> i < k \<Longrightarrow>
    client_step prefix k s (LaunchL i)
      (s\<lparr>dr_calls := dr_calls s @ [Calling], dr_wg := dr_wg s + 1, dr_main := Launching (i + 1)\<rparr>)"
| cl_answer: "j < length (dr_calls s) \<Longrightarrow> dr_calls s ! j = Calling \<Longrightarrow>
    client_step prefix k s (AnswerL j ms a)
      (s\<lparr>dr_calls := (dr_calls s)[j := Answered (client_outcome (demo_id prefix j) ms a)]\<rparr>)"
| cl_store: "j < length (dr_calls s) \<Longrightarrow> dr_calls s ! j = Answered r \<Longrightarrow> j < length (dr_results s) \<Longrightarrow>
    client_step prefix k s (StoreL j)
      (s\<lparr>dr_results := (dr_results s)[j := r], dr_calls := (dr_calls s)[j := Stored]\<rparr>)"
| cl_done: "j < length (dr_calls s) \<Longrightarrow> dr_calls s ! j = Stored \<Longrightarrow>
    client_step prefix k s (DoneL j)
      (s\<lparr>dr_calls := (dr_calls s)[j := CallDone], dr_wg := dr_wg s - 1\<rparr>)"
| cl_wait: "dr_main s = Launching i \<Longrightarrow> k \<le> i \<Longrightarrow> dr_wg s = 0 \<Longrightarrow>
    client_step prefix k s WaitL (s\<lparr>dr_main := Collected (dr_results s)\<rparr>)"

text \<open>The answers index \<open>j\<close> has been given, in a trace.\<close>

fun reply_to :: "nat \<Rightarrow> client_label \<Rightarrow> (go_int64 \<times> (go_error + inference_response)) list" where
  "reply_to j (AnswerL i ms a) = (if i = j then [(ms, a)] else [])"
| "reply_to j l = []"

definition replies :: "nat \<Rightarrow> client_label list \<Rightarrow> (go_int64 \<times> (go_error + inference_response)) list" where
  "replies j ls = concat (map (reply_to j) ls)"

lemma replies_simps [simp]: "replies j [] = []" "replies j (ls @ [l]) = replies j ls @ reply_to j l"
  by (simp_all add: replies_def)

section \<open>Its invariant\<close>

text \<open>What is known of the goroutine \<open>j\<close>: its program point, the answers given to it, its slot.\<close>

definition call_ok :: "string \<Rightarrow> nat \<Rightarrow> call_pc \<Rightarrow> (go_int64 \<times> (go_error + inference_response)) list \<Rightarrow> client_result \<Rightarrow> bool" where
  "call_ok prefix j pc as r \<longleftrightarrow>
     (case pc of
        Calling \<Rightarrow> as = []
      | Answered r' \<Rightarrow> \<exists>ms a. as = [(ms, a)] \<and> r' = client_outcome (demo_id prefix j) ms a
      | _ \<Rightarrow> \<exists>ms a. as = [(ms, a)] \<and> r = client_outcome (demo_id prefix j) ms a)"

lemma call_ok_simps [simp]:
  "call_ok prefix j Calling as r \<longleftrightarrow> as = []"
  "call_ok prefix j (Answered r') as r \<longleftrightarrow> (\<exists>ms a. as = [(ms, a)] \<and> r' = client_outcome (demo_id prefix j) ms a)"
  "call_ok prefix j Stored as r \<longleftrightarrow> (\<exists>ms a. as = [(ms, a)] \<and> r = client_outcome (demo_id prefix j) ms a)"
  "call_ok prefix j CallDone as r \<longleftrightarrow> (\<exists>ms a. as = [(ms, a)] \<and> r = client_outcome (demo_id prefix j) ms a)"
  by (simp_all add: call_ok_def)

definition client_inv :: "string \<Rightarrow> nat \<Rightarrow> client_label list \<Rightarrow> client_run \<Rightarrow> bool" where
  "client_inv prefix k ls s \<longleftrightarrow> length (dr_results s) = k \<and> length (dr_calls s) \<le> k
     \<and> dr_wg s = int (count_if (\<lambda>pc. pc \<noteq> CallDone) (dr_calls s))
     \<and> (\<forall>j < length (dr_calls s). call_ok prefix j (dr_calls s ! j) (replies j ls) (dr_results s ! j))
     \<and> (\<forall>j \<ge> length (dr_calls s). replies j ls = [])
     \<and> (case dr_main s of
          Launching i \<Rightarrow> length (dr_calls s) = i
        | Collected rs \<Rightarrow> rs = dr_results s \<and> length (dr_calls s) = k \<and> (\<forall>pc \<in> set (dr_calls s). pc = CallDone))"

lemma count_live_update:
  "j < length xs \<Longrightarrow> xs ! j \<noteq> CallDone \<Longrightarrow> pc \<noteq> CallDone \<Longrightarrow>
     count_if (\<lambda>pc. pc \<noteq> CallDone) (xs[j := pc]) = count_if (\<lambda>pc. pc \<noteq> CallDone) xs"
  by (rule count_if_update_same) auto

lemma collected_done:
  "client_inv prefix k ls s \<Longrightarrow> dr_main s = Collected rs \<Longrightarrow> j < length (dr_calls s) \<Longrightarrow> dr_calls s ! j = CallDone"
  by (auto simp: client_inv_def)

lemma client_inv_step:
  assumes inv: "client_inv prefix k ls s" and step: "client_step prefix k s l t"
  shows "client_inv prefix k (ls @ [l]) t"
  using step
proof cases
  case (cl_launch i)
  then show ?thesis using inv by (auto simp: client_inv_def nth_append less_Suc_eq)
next
  case (cl_answer j ms a)
  have "dr_main s \<noteq> Collected rs" for rs using collected_done [OF inv] cl_answer by force
  with cl_answer inv show ?thesis
    by (auto simp: client_inv_def nth_list_update count_live_update split: client_pc.splits)
next
  case (cl_store j r)
  have "dr_main s \<noteq> Collected rs" for rs using collected_done [OF inv] cl_store by force
  with cl_store inv show ?thesis
    by (auto simp: client_inv_def nth_list_update count_live_update split: client_pc.splits)
next
  case (cl_done j)
  have "dr_main s \<noteq> Collected rs" for rs using collected_done [OF inv] cl_done by force
  moreover have "Suc (count_if (\<lambda>pc. pc \<noteq> CallDone) ((dr_calls s)[j := CallDone])) = count_if (\<lambda>pc. pc \<noteq> CallDone) (dr_calls s)"
    using cl_done by (intro count_if_update_loss) auto
  ultimately show ?thesis using cl_done inv
    by (auto simp: client_inv_def nth_list_update split: client_pc.splits)
next
  case (cl_wait i)
  then show ?thesis using inv by (auto simp: client_inv_def count_if_zero)
qed

definition client_init :: "nat \<Rightarrow> client_run \<Rightarrow> bool" where
  "client_init k s \<longleftrightarrow> s = client_start k"

interpretation dr: trace_invariant "client_init k" "client_step prefix k" "client_inv prefix k"
  by unfold_locales (simp add: client_init_def client_start_def client_inv_def, rule client_inv_step)

section \<open>What is printed, written and returned\<close>

text \<open>A printed line: its format's arguments. The counts per worker come in the order the walk of the map takes.\<close>

datatype printed =
    OkLine string go_int64 string
  | FailLine string go_int64 "grpc_code option" "go_error option"
  | SummaryLine int int int
  | WorkerLine string int

definition result_line :: "client_result \<Rightarrow> printed" where
  "result_line r = (if cr_OK r then OkLine (cr_RequestID r) (cr_ElapsedMs r) (cr_WorkerID r)
     else FailLine (cr_RequestID r) (cr_ElapsedMs r) (cr_Code r) (cr_Err r))"

definition report :: "int \<Rightarrow> string list \<Rightarrow> client_result list \<Rightarrow> printed list" where
  "report k ws results =
     (let (ok, byWorker) = tally results
      in map result_line results @ [SummaryLine ok k (k - ok)] @ map (\<lambda>w. WorkerLine w (the (byWorker w))) ws)"

text \<open>
  The JSON file, when a path is given: \<^verbatim>\<open>os.Create\<close> and the encoder are arguments. Both errors exit with 2, before the
  exit code for lost requests is looked at.
\<close>

definition write_json :: "string \<Rightarrow> (string \<Rightarrow> go_error option) \<Rightarrow> (client_result list \<Rightarrow> go_error option) \<Rightarrow>
    client_result list \<Rightarrow> go_error option" where
  "write_json path create encode results =
     (if path = [] then None
      else case create path of
             Some err \<Rightarrow> Some err
           | None \<Rightarrow> encode results)"

definition client_exit :: "demo_flags \<Rightarrow> (string \<Rightarrow> go_error option) \<Rightarrow> (client_result list \<Rightarrow> go_error option) \<Rightarrow>
    client_result list \<Rightarrow> int" where
  "client_exit fl create encode results =
     (case write_json (df_json fl) create encode results of
        Some err \<Rightarrow> 2
      | None \<Rightarrow> exit_code (nat (df_n fl)) results)"

section \<open>Progress and termination\<close>

fun call_weight :: "call_pc \<Rightarrow> nat" where
  "call_weight Calling = 3"
| "call_weight (Answered r) = 2"
| "call_weight Stored = 1"
| "call_weight CallDone = 0"

definition client_rank :: "nat \<Rightarrow> client_run \<Rightarrow> nat" where
  "client_rank k s = sum_list (map call_weight (dr_calls s))
     + (case dr_main s of Launching i \<Rightarrow> 4 * (k - i) + 1 | Collected rs \<Rightarrow> 0)"

lemma sum_list_weight_update:
  "j < length xs \<Longrightarrow> call_weight (xs ! j) = Suc (call_weight pc) \<Longrightarrow>
     sum_list (map call_weight xs) = Suc (sum_list (map call_weight (xs[j := pc])))"
  using sum_list_update [of j "map call_weight xs" "call_weight pc"] elem_le_sum_list [of j "map call_weight xs"]
  by (simp add: map_update)

lemma client_rank_step: "client_step prefix k s l t \<Longrightarrow> client_rank k s = Suc (client_rank k t)"
proof (induction rule: client_step.cases)
  case (cl_answer j ms a)
  then show ?case
    using sum_list_weight_update [of j "dr_calls s" "Answered (client_outcome (demo_id prefix j) ms a)"]
    by (simp add: client_rank_def)
next
  case (cl_store j r)
  then show ?case using sum_list_weight_update [of j "dr_calls s" Stored] by (simp add: client_rank_def)
next
  case (cl_done j)
  then show ?case using sum_list_weight_update [of j "dr_calls s" CallDone] by (simp add: client_rank_def)
qed (auto simp: client_rank_def)

lemma client_rank_exec: "exec (client_step prefix k) s ls t \<Longrightarrow> client_rank k s = length ls + client_rank k t"
  by (induction rule: exec.induct) (auto dest: client_rank_step)

lemma client_progress:
  assumes "client_inv prefix k ls s" and "dr_main s = Launching i"
  shows "\<exists>l t. client_step prefix k s l t"
proof (cases "\<exists>pc \<in> set (dr_calls s). pc \<noteq> CallDone")
  case True
  then obtain j where j: "j < length (dr_calls s)" "dr_calls s ! j \<noteq> CallDone" by (auto simp: in_set_conv_nth)
  moreover have "j < length (dr_results s)" using j(1) assms(1) by (simp add: client_inv_def)
  ultimately show ?thesis
    by (cases "dr_calls s ! j") (blast intro: cl_answer cl_store cl_done)+
next
  case False
  then have "dr_wg s = 0" using assms(1) by (auto simp: client_inv_def count_if_zero)
  then show ?thesis using assms(2) using cl_launch [of s i k prefix] cl_wait [of s i k prefix] by (meson not_less)
qed

lemma collected_batch:
  assumes "exec (client_step prefix k) (client_start k) ls t" and "dr_main t = Collected rs"
  shows "rs = batch prefix k (\<lambda>i. fst (hd (replies i ls))) (\<lambda>i. snd (hd (replies i ls)))"
    and "i < k \<Longrightarrow> \<exists>ms a. replies i ls = [(ms, a)]"
proof -
  have inv: "client_inv prefix k ls t" by (rule dr.tinv_exec [OF assms(1)]) (simp add: client_init_def)
  then have len: "length rs = k" "rs = dr_results t" "length (dr_calls t) = k"
    using assms(2) by (auto simp: client_inv_def)
  have slot: "\<exists>ms a. replies i ls = [(ms, a)] \<and> rs ! i = client_outcome (demo_id prefix i) ms a" if "i < k" for i
  proof -
    have "call_ok prefix i (dr_calls t ! i) (replies i ls) (dr_results t ! i)"
      using inv that len(3) by (simp add: client_inv_def)
    then show ?thesis using collected_done [OF inv assms(2), of i] that len by simp
  qed
  then show "i < k \<Longrightarrow> \<exists>ms a. replies i ls = [(ms, a)]" by blast
  show "rs = batch prefix k (\<lambda>i. fst (hd (replies i ls))) (\<lambda>i. snd (hd (replies i ls)))"
  proof (rule nth_equalityI)
    show "rs ! i = batch prefix k (\<lambda>i. fst (hd (replies i ls))) (\<lambda>i. snd (hd (replies i ls))) ! i"
      if "i < length rs" for i
      using slot [of i] that len(1) by (auto simp: batch_def)
  qed (simp add: len(1) batch_def)
qed

section \<open>Properties\<close>

text \<open>
  C34. The slots are filled as if the requests had been made one after another: however the goroutines interleave and
  in whatever order the answers come, what main reads from the slice after \<^verbatim>\<open>wg.Wait()\<close> is the function \<open>batch\<close> of the
  answers, slot \<open>i\<close> holding the one answer given to the request with id \<open>i\<close>; no slot is lost, overwritten or read early.
\<close>

theorem batch_independent_of_order:
  assumes "exec (client_step prefix k) (client_start k) ls t" and "dr_main t = Collected rs"
  shows "rs = batch prefix k (\<lambda>i. fst (hd (replies i ls))) (\<lambda>i. snd (hd (replies i ls)))
     \<and> (\<forall>i < k. length (replies i ls) = 1)"
  using collected_batch [OF assms] by fastforce

text \<open>Two requests, answered in the reverse order.\<close>

definition ex_answer :: "go_error + inference_response" where
  "ex_answer = Inr \<lparr>resp_RequestId = ''req-000'', resp_Output = ''out'', resp_WorkerId = ''w1''\<rparr>"

definition ex_batch_trace :: "client_label list" where
  "ex_batch_trace = [LaunchL 0, LaunchL 1, AnswerL 1 7 (Inl (GoError Unavailable [] [])), StoreL 1, DoneL 1,
     AnswerL 0 9 ex_answer, StoreL 0, DoneL 0, WaitL]"

definition ex_batch_results :: "client_result list" where
  "ex_batch_results = [client_outcome (demo_id ''req'' 0) 9 ex_answer,
     client_outcome (demo_id ''req'' 1) 7 (Inl (GoError Unavailable [] []))]"

definition ex_batch_end :: client_run where
  "ex_batch_end = \<lparr>dr_results = ex_batch_results, dr_calls = [CallDone, CallDone], dr_wg = 0,
     dr_main = Collected ex_batch_results\<rparr>"

lemma client_steps:
  "dr_main s = Launching i \<Longrightarrow> i < k \<Longrightarrow>
     exec (client_step prefix k) (s\<lparr>dr_calls := dr_calls s @ [Calling], dr_wg := dr_wg s + 1, dr_main := Launching (i + 1)\<rparr>) ls t \<Longrightarrow>
     exec (client_step prefix k) s (LaunchL i # ls) t"
  "j < length (dr_calls s) \<Longrightarrow> dr_calls s ! j = Calling \<Longrightarrow>
     exec (client_step prefix k) (s\<lparr>dr_calls := (dr_calls s)[j := Answered (client_outcome (demo_id prefix j) ms a)]\<rparr>) ls t \<Longrightarrow>
     exec (client_step prefix k) s (AnswerL j ms a # ls) t"
  "j < length (dr_calls s) \<Longrightarrow> dr_calls s ! j = Answered r \<Longrightarrow> j < length (dr_results s) \<Longrightarrow>
     exec (client_step prefix k) (s\<lparr>dr_results := (dr_results s)[j := r], dr_calls := (dr_calls s)[j := Stored]\<rparr>) ls t \<Longrightarrow>
     exec (client_step prefix k) s (StoreL j # ls) t"
  "j < length (dr_calls s) \<Longrightarrow> dr_calls s ! j = Stored \<Longrightarrow>
     exec (client_step prefix k) (s\<lparr>dr_calls := (dr_calls s)[j := CallDone], dr_wg := dr_wg s - 1\<rparr>) ls t \<Longrightarrow>
     exec (client_step prefix k) s (DoneL j # ls) t"
  "dr_main s = Launching i \<Longrightarrow> k \<le> i \<Longrightarrow> dr_wg s = 0 \<Longrightarrow> t = s\<lparr>dr_main := Collected (dr_results s)\<rparr> \<Longrightarrow>
     exec (client_step prefix k) s [WaitL] t"
  by (blast intro: exec_cons client_step.intros)+

lemma ex_batch_run: "exec (client_step ''req'' 2) (client_start 2) ex_batch_trace ex_batch_end"
  unfolding ex_batch_end_def ex_batch_results_def ex_batch_trace_def client_start_def
  by (rule client_steps, simp add: numeral_2_eq_2, simp add: numeral_2_eq_2, (simp add: numeral_2_eq_2)?)+ simp

theorem batch_independent_of_order_witness:
  "dr_results ex_batch_end = batch ''req'' 2 (\<lambda>i. fst (hd (replies i ex_batch_trace))) (\<lambda>i. snd (hd (replies i ex_batch_trace)))"
proof -
  have "dr_main ex_batch_end = Collected (dr_results ex_batch_end)" by (simp add: ex_batch_end_def)
  from batch_independent_of_order [OF ex_batch_run this] show ?thesis by simp
qed

text \<open>
  The batch always ends. No run of \<open>k\<close> requests takes more than \<open>4 * k + 1\<close> steps, and until main has collected the results
  some goroutine has a step: the wait for the group cannot hang once every call has been answered.
\<close>

lemma batch_terminates:
  assumes "exec (client_step prefix k) (client_start k) ls t"
  shows "length ls \<le> 4 * k + 1
     \<and> ((\<exists>rs. dr_main t = Collected rs) \<or> (\<exists>l u. client_step prefix k t l u))"
proof
  show "length ls \<le> 4 * k + 1"
    using client_rank_exec [OF assms] by (simp add: client_rank_def client_start_def)
  have "client_inv prefix k ls t" by (rule dr.tinv_exec [OF assms]) (simp add: client_init_def)
  from client_progress [OF this] show "(\<exists>rs. dr_main t = Collected rs) \<or> (\<exists>l u. client_step prefix k t l u)"
    by (cases "dr_main t") blast+
qed

lemma batch_terminates_witness: "length ex_batch_trace = 4 * 2 + 1"
proof -
  have "length ex_batch_trace \<le> 4 * 2 + 1" using batch_terminates [OF ex_batch_run] by blast
  then show ?thesis by (simp add: ex_batch_trace_def)
qed

text \<open>
  C35. The exit status and the report tell the truth. For every way the run can go: 2 if the JSON file was
  asked for and could not be written, else 1 if some request was answered with an error, else 0; and each failed request has its
  line in the report, with its id, its code and its error.
\<close>

theorem client_reports_every_loss:
  assumes "client_main fl dial = Run s" and "exec (client_step (df_prefix fl) (nat (df_n fl))) s ls t"
    and "dr_main t = Collected rs"
  shows "client_exit fl create encode rs =
       (if write_json (df_json fl) create encode rs \<noteq> None then 2
        else if \<exists>i < nat (df_n fl). \<exists>e. snd (hd (replies i ls)) = Inl e then 1 else 0)
     \<and> (\<forall>i < nat (df_n fl). \<forall>ms e. replies i ls = [(ms, Inl e)] \<longrightarrow>
          FailLine (demo_id (df_prefix fl) i) ms (Some (err_code e)) (Some e) \<in> set (report (df_n fl) ws rs))"
proof -
  have "s = client_start (nat (df_n fl))" using assms(1) by (auto simp: client_main_def split: sum.splits if_splits)
  note rs = collected_batch(1) [OF assms(2) [unfolded this] assms(3)]
  have "exit_code (nat (df_n fl)) rs = (if \<exists>i < nat (df_n fl). \<exists>e. snd (hd (replies i ls)) = Inl e then 1 else 0)"
    unfolding rs exit_code_zero_iff_nothing_lost by auto
  moreover have "FailLine (demo_id (df_prefix fl) i) ms (Some (err_code e)) (Some e) \<in> set (report (df_n fl) ws rs)"
    if "i < nat (df_n fl)" "replies i ls = [(ms, Inl e)]" for i ms e
  proof -
    have "client_outcome (demo_id (df_prefix fl) i) ms (Inl e) \<in> set rs"
      unfolding rs batch_def using that by (force simp: image_iff)
    then have "result_line (client_outcome (demo_id (df_prefix fl) i) ms (Inl e)) \<in> set (report (df_n fl) ws rs)"
      by (simp add: report_def split_beta Let_def)
    then show ?thesis by (simp add: result_line_def client_outcome_def)
  qed
  ultimately show ?thesis by (auto simp: client_exit_def split: option.split)
qed

theorem client_reports_every_loss_witness:
  "client_exit \<lparr>df_addr = [], df_n = 2, df_prefix = ''req'', df_json = []\<rparr> (\<lambda>_. None) (\<lambda>_. None) ex_batch_results = 1"
proof -
  let ?fl = "\<lparr>df_addr = [], df_n = 2, df_prefix = ''req'', df_json = []\<rparr>"
  have m: "client_main ?fl (\<lambda>_. Inr 0) = Run (client_start 2)" by (simp add: client_main_def)
  have e: "exec (client_step (df_prefix ?fl) (nat (df_n ?fl))) (client_start 2) ex_batch_trace ex_batch_end"
    using ex_batch_run by simp
  have c: "dr_main ex_batch_end = Collected ex_batch_results" by (simp add: ex_batch_end_def)
  have "replies 1 ex_batch_trace = [(7, Inl (GoError Unavailable [] []))]"
    by (simp add: replies_def ex_batch_trace_def)
  then have "\<exists>i < nat (df_n ?fl). \<exists>e. snd (hd (replies i ex_batch_trace)) = Inl e" by (intro exI [of _ 1]) simp
  with client_reports_every_loss [OF m e c, of "\<lambda>_. None" "\<lambda>_. None" "[]"] show ?thesis by (simp add: write_json_def)
qed

end
