(* ===== verification/Lock_Discipline.thy ===== *)
theory Lock_Discipline
  imports Prelude
begin

text \<open>
  Goroutines that share fields under mutexes, for any program: what a function does with locks, shared fields and calls
  that wait is its skeleton; a check of the skeleton, in the manner of a type system, rules out data races, deadlocks and
  a lock held across a wait for every interleaving of any number of goroutines. \<open>Locks\<close> applies it to the program.
\<close>

section \<open>Skeletons and their paths\<close>

datatype mode = Excl | Shared

text \<open>\<open>Acquire Excl l\<close> is \<^verbatim>\<open>l.Lock()\<close>, \<open>Acquire Shared l\<close> is \<^verbatim>\<open>l.RLock()\<close>. \<open>Wait\<close> is a call or channel operation that may not return soon.\<close>

datatype ('l, 'f) act =
    Acquire mode 'l
  | Release mode 'l
  | Read 'f
  | Write 'f
  | Wait

datatype ('l, 'f) skel =
    Skip
  | Do "('l, 'f) act"
  | Seq "('l, 'f) skel" "('l, 'f) skel"
  | Alt "('l, 'f) skel" "('l, 'f) skel"
  | Many "('l, 'f) skel"

inductive runs :: "('l, 'f) skel \<Rightarrow> ('l, 'f) act list \<Rightarrow> bool" where
  runs_skip: "runs Skip []"
| runs_do: "runs (Do a) [a]"
| runs_seq: "runs c p \<Longrightarrow> runs d q \<Longrightarrow> runs (Seq c d) (p @ q)"
| runs_left: "runs c p \<Longrightarrow> runs (Alt c d) p"
| runs_right: "runs d p \<Longrightarrow> runs (Alt c d) p"
| runs_stop: "runs (Many c) []"
| runs_again: "runs c p \<Longrightarrow> runs (Many c) q \<Longrightarrow> runs (Many c) (p @ q)"

inductive_simps runs_simps [simp]: "runs Skip p" "runs (Do a) p" "runs (Seq c d) p" "runs (Alt c d) p"

fun seqs :: "('l, 'f) skel list \<Rightarrow> ('l, 'f) skel" where
  "seqs [] = Skip"
| "seqs (c # cs) = Seq c (seqs cs)"

text \<open>\<^verbatim>\<open>l.Lock(); defer l.Unlock()\<close> at the head of a function: every return of the body releases the lock.\<close>

definition locked :: "'l \<Rightarrow> ('l, 'f) skel \<Rightarrow> ('l, 'f) skel" where
  "locked l c = seqs [Do (Acquire Excl l), c, Do (Release Excl l)]"

definition rlocked :: "'l \<Rightarrow> ('l, 'f) skel \<Rightarrow> ('l, 'f) skel" where
  "rlocked l c = seqs [Do (Acquire Shared l), c, Do (Release Shared l)]"

lemma runs_locked: "runs c p \<Longrightarrow> runs (locked l c) (Acquire Excl l # p @ [Release Excl l])"
  using runs_seq [OF runs_do runs_seq [OF _ runs_seq [OF runs_do runs_skip]]] by (fastforce simp: locked_def)

section \<open>Goroutines\<close>

record ('l, 'f) routine =
  holds :: "(mode \<times> 'l) list"
  todo :: "('l, 'f) act list"

text \<open>
  Mutexes are not reentrant, and a reader queues behind a writer that waits (\<^verbatim>\<open>sync.RWMutex\<close>).
\<close>

definition may_acquire :: "mode \<Rightarrow> 'l \<Rightarrow> ('l, 'f) routine list \<Rightarrow> bool" where
  "may_acquire m l s \<longleftrightarrow>
     (case m of
        Excl \<Rightarrow> \<forall>t \<in> set s. (Excl, l) \<notin> set (holds t) \<and> (Shared, l) \<notin> set (holds t)
      | Shared \<Rightarrow> \<forall>t \<in> set s. (Excl, l) \<notin> set (holds t) \<and> take 1 (todo t) \<noteq> [Acquire Excl l])"

text \<open>A goroutine is started on one of the program's skeletons, or goroutine \<open>i\<close> goes one act further.\<close>

inductive lk_step ::
  "(('l, 'f) skel \<Rightarrow> bool) \<Rightarrow> ('l, 'f) routine list \<Rightarrow> nat option \<Rightarrow> ('l, 'f) routine list \<Rightarrow> bool"
  for prog :: "('l, 'f) skel \<Rightarrow> bool" and s :: "('l, 'f) routine list" where
  lk_go: "prog c \<Longrightarrow> runs c p \<Longrightarrow> lk_step prog s None (s @ [\<lparr>holds = [], todo = p\<rparr>])"
| lk_acquire: "i < length s \<Longrightarrow> s ! i = \<lparr>holds = h, todo = Acquire m l # p\<rparr> \<Longrightarrow> may_acquire m l s \<Longrightarrow>
    lk_step prog s (Some i) (s[i := \<lparr>holds = (m, l) # h, todo = p\<rparr>])"
| lk_release: "i < length s \<Longrightarrow> s ! i = \<lparr>holds = h, todo = Release m l # p\<rparr> \<Longrightarrow> (m, l) \<in> set h \<Longrightarrow>
    lk_step prog s (Some i) (s[i := \<lparr>holds = remove1 (m, l) h, todo = p\<rparr>])"
| lk_read: "i < length s \<Longrightarrow> s ! i = \<lparr>holds = h, todo = Read f # p\<rparr> \<Longrightarrow>
    lk_step prog s (Some i) (s[i := \<lparr>holds = h, todo = p\<rparr>])"
| lk_write: "i < length s \<Longrightarrow> s ! i = \<lparr>holds = h, todo = Write f # p\<rparr> \<Longrightarrow>
    lk_step prog s (Some i) (s[i := \<lparr>holds = h, todo = p\<rparr>])"
| lk_wait: "i < length s \<Longrightarrow> s ! i = \<lparr>holds = h, todo = Wait # p\<rparr> \<Longrightarrow>
    lk_step prog s (Some i) (s[i := \<lparr>holds = h, todo = p\<rparr>])"

definition lk_init :: "('l, 'f) routine list \<Rightarrow> bool" where
  "lk_init s \<longleftrightarrow> s = []"

text \<open>Two goroutines are about to touch the same field at the same moment, one of them to write it.\<close>

definition accesses :: "('l, 'f) routine \<Rightarrow> 'f \<Rightarrow> bool" where
  "accesses t f \<longleftrightarrow> take 1 (todo t) = [Read f] \<or> take 1 (todo t) = [Write f]"

definition race :: "('l, 'f) routine list \<Rightarrow> bool" where
  "race s \<longleftrightarrow> (\<exists>i < length s. \<exists>j < length s. \<exists>f. i \<noteq> j \<and> take 1 (todo (s ! i)) = [Write f] \<and> accesses (s ! j) f)"

definition waits :: "('l, 'f) routine \<Rightarrow> bool" where
  "waits t \<longleftrightarrow> take 1 (todo t) = [Wait]"

section \<open>The check\<close>

text \<open>
  What is held after one act, \<open>None\<close> if the act breaks the discipline: locks never nest, a field is touched only under its
  lock, written only under its write lock, and nobody waits while holding one.
\<close>

fun obey :: "('f \<Rightarrow> 'l) \<Rightarrow> (mode \<times> 'l) option \<Rightarrow> ('l, 'f) act \<Rightarrow> (mode \<times> 'l) option option" where
  "obey g h (Acquire m l) = (if h = None then Some (Some (m, l)) else None)"
| "obey g h (Release m l) = (if h = Some (m, l) then Some None else None)"
| "obey g h (Read f) = (if h = Some (Excl, g f) \<or> h = Some (Shared, g f) then Some h else None)"
| "obey g h (Write f) = (if h = Some (Excl, g f) then Some h else None)"
| "obey g h Wait = (if h = None then Some h else None)"

fun follow :: "('f \<Rightarrow> 'l) \<Rightarrow> (mode \<times> 'l) option \<Rightarrow> ('l, 'f) act list \<Rightarrow> (mode \<times> 'l) option option" where
  "follow g h [] = Some h"
| "follow g h (a # p) = (case obey g h a of None \<Rightarrow> None | Some h' \<Rightarrow> follow g h' p)"

fun check :: "('f \<Rightarrow> 'l) \<Rightarrow> (mode \<times> 'l) option \<Rightarrow> ('l, 'f) skel \<Rightarrow> (mode \<times> 'l) option option" where
  "check g h Skip = Some h"
| "check g h (Do a) = obey g h a"
| "check g h (Seq c d) = (case check g h c of None \<Rightarrow> None | Some h' \<Rightarrow> check g h' d)"
| "check g h (Alt c d) = (if check g h c = check g h d then check g h c else None)"
| "check g h (Many c) = (if check g h c = Some h then Some h else None)"

lemma follow_append:
  "follow g h (p @ q) = (case follow g h p of None \<Rightarrow> None | Some h' \<Rightarrow> follow g h' q)"
  by (induction p arbitrary: h) (auto split: option.splits)

text \<open>The check covers every path.\<close>

lemma check_runs:
  "runs c p \<Longrightarrow> check g h c = Some h' \<Longrightarrow> follow g h p = Some h'"
proof (induction arbitrary: h h' rule: runs.induct)
  case (runs_left c p d)
  from runs_left.prems have "check g h c = Some h'" by (simp split: if_splits)
  then show ?case by (rule runs_left.IH)
next
  case (runs_right d p c)
  from runs_right.prems have "check g h d = Some h'" by (simp split: if_splits)
  then show ?case by (rule runs_right.IH)
next
  case (runs_again c p q)
  then show ?case by (auto simp: follow_append split: if_splits)
qed (auto simp: follow_append split: option.splits if_splits)

text \<open>Locked sections around a body that keeps the lock.\<close>

lemma check_locked [simp]:
  "check g h (locked l c) = (if h = None \<and> check g (Some (Excl, l)) c = Some (Some (Excl, l)) then Some None else None)"
  "check g h (rlocked l c) = (if h = None \<and> check g (Some (Shared, l)) c = Some (Some (Shared, l)) then Some None else None)"
  by (auto simp: locked_def rlocked_def split: option.splits if_splits)

section \<open>What the check guarantees\<close>

definition stack :: "(mode \<times> 'l) option \<Rightarrow> (mode \<times> 'l) list" where
  "stack h = (case h of None \<Rightarrow> [] | Some x \<Rightarrow> [x])"

lemma stack_simps [simp]: "stack None = []" "stack (Some x) = [x]"
  by (simp_all add: stack_def)

definition orderly :: "('f \<Rightarrow> 'l) \<Rightarrow> ('l, 'f) routine \<Rightarrow> bool" where
  "orderly g t \<longleftrightarrow> (\<exists>h. holds t = stack h \<and> follow g h (todo t) = Some None)"

text \<open>A write lock excludes every other holder.\<close>

definition exclusive :: "('l, 'f) routine list \<Rightarrow> bool" where
  "exclusive s \<longleftrightarrow> (\<forall>i < length s. \<forall>j < length s. \<forall>l m. i \<noteq> j \<longrightarrow> (Excl, l) \<in> set (holds (s ! i)) \<longrightarrow> (m, l) \<notin> set (holds (s ! j)))"

definition lk_inv :: "('f \<Rightarrow> 'l) \<Rightarrow> ('l, 'f) routine list \<Rightarrow> bool" where
  "lk_inv g s \<longleftrightarrow> (\<forall>t \<in> set s. orderly g t) \<and> exclusive s"

lemma orderly_next:
  assumes "orderly g \<lparr>holds = hs, todo = a # p\<rparr>"
  shows "\<exists>h h'. hs = stack h \<and> obey g h a = Some h' \<and> orderly g \<lparr>holds = stack h', todo = p\<rparr>"
  using assms by (auto simp: orderly_def split: option.splits)

lemma orderly_start: "follow g None p = Some None \<Longrightarrow> orderly g \<lparr>holds = [], todo = p\<rparr>"
  unfolding orderly_def by (intro exI [of _ None]) simp

lemma lk_inv_update:
  assumes "lk_inv g s" and "i < length s" and "orderly g t"
    and "\<And>l m. (m, l) \<in> set (holds t) \<Longrightarrow> (m, l) \<in> set (holds (s ! i)) \<or> may_acquire m l s"
  shows "lk_inv g (s[i := t])"
proof -
  have "\<not> ((Excl, l) \<in> set (holds (s[i := t] ! j)) \<and> (m, l) \<in> set (holds (s[i := t] ! k)))"
    if jk: "j < length s" "k < length s" "j \<noteq> k" for j k l m
  proof -
    have ex: "\<not> ((Excl, l) \<in> set (holds (s ! j)) \<and> (m, l) \<in> set (holds (s ! k)))"
      if "j < length s" "k < length s" "j \<noteq> k" for j k l m
      using assms(1) that unfolding lk_inv_def exclusive_def by blast
    have acq: "\<not> may_acquire m l s" if "(Excl, l) \<in> set (holds (s ! j))" "j < length s" for l j m
      using that nth_mem [of j s] by (cases m) (auto simp: may_acquire_def)
    have acq': "\<not> may_acquire Excl l s" if "(m, l) \<in> set (holds (s ! j))" "j < length s" for m l j
      using that nth_mem [of j s] by (cases m) (auto simp: may_acquire_def)
    have self: "(m, l) \<in> set (holds (s ! i)) \<or> may_acquire m l s" if "(m, l) \<in> set (holds t)" for l m
      by (rule assms(4) [OF that])
    consider "j \<noteq> i" "k \<noteq> i" | "j = i" "k \<noteq> i" | "j \<noteq> i" "k = i" using jk by blast
    then show ?thesis
    proof cases
      case 1
      then show ?thesis using ex [OF jk] by simp
    next
      case 2
      then show ?thesis using ex [OF jk, of l m] self [of Excl l] acq' [of m l k] jk by auto
    next
      case 3
      then show ?thesis using ex [OF jk, of l m] self [of m l] acq [of l j m] jk by auto
    qed
  qed
  moreover have "\<forall>u \<in> set (s[i := t]). orderly g u"
    using assms(1,3) by (auto simp: lk_inv_def dest!: set_update_subset_insert [THEN subsetD])
  ultimately show ?thesis by (auto simp: lk_inv_def exclusive_def)
qed

lemma lk_inv_new:
  assumes "lk_inv g s" and "orderly g t" and "holds t = []"
  shows "lk_inv g (s @ [t])"
proof -
  have "(m, l) \<notin> set (holds ((s @ [t]) ! j))"
    if ij: "i < length (s @ [t])" "j < length (s @ [t])" "i \<noteq> j" and h: "(Excl, l) \<in> set (holds ((s @ [t]) ! i))" for i j l m
  proof -
    have "i \<noteq> length s" using h assms(3) by auto
    then have i: "i < length s" "(Excl, l) \<in> set (holds (s ! i))" using ij(1) h by (simp_all add: nth_append)
    show ?thesis
    proof (cases "j < length s")
      case True
      then show ?thesis using assms(1) i ij(3) unfolding lk_inv_def exclusive_def by (simp add: nth_append)
    next
      case False
      then have "j = length s" using ij(2) by simp
      then show ?thesis using assms(3) by simp
    qed
  qed
  then have "exclusive (s @ [t])" unfolding exclusive_def by blast
  then show ?thesis using assms(1,2) by (simp add: lk_inv_def)
qed

locale lock_program =
  fixes g :: "'f \<Rightarrow> 'l"
    and prog :: "('l, 'f) skel \<Rightarrow> bool"
  assumes checked: "prog c \<Longrightarrow> check g None c = Some None"
begin

lemma lk_inv_step:
  assumes inv: "lk_inv g s" and step: "lk_step prog s x u"
  shows "lk_inv g u"
proof -
  have upd: "lk_inv g (s[i := \<lparr>holds = h', todo = p\<rparr>])"
    if at: "i < length s" "s ! i = \<lparr>holds = h, todo = a # p\<rparr>"
      and h': "\<And>k k'. h = stack k \<Longrightarrow> obey g k a = Some k' \<Longrightarrow> h' = stack k'"
      and new: "\<And>l m. (m, l) \<in> set h' \<Longrightarrow> (m, l) \<in> set h \<or> may_acquire m l s" for i h a p h'
  proof -
    have "orderly g (s ! i)" using inv at(1) by (simp add: lk_inv_def)
    then obtain k k' where "h = stack k" "obey g k a = Some k'" "orderly g \<lparr>holds = stack k', todo = p\<rparr>"
      using orderly_next [of g h a p] at(2) by auto
    with h' have "orderly g \<lparr>holds = h', todo = p\<rparr>" by simp
    with new show ?thesis using at by (intro lk_inv_update [OF inv at(1)]) auto
  qed
  show ?thesis using step
  proof cases
    case (lk_go c p)
    then have "orderly g \<lparr>holds = [], todo = p\<rparr>" by (intro orderly_start check_runs checked)
    then show ?thesis unfolding lk_go(2) by (intro lk_inv_new [OF inv]) simp_all
  next
    case (lk_acquire i h m l p)
    then show ?thesis unfolding lk_acquire(2) by (intro upd) (auto split: if_splits)
  next
    case (lk_release i h m l p)
    then show ?thesis unfolding lk_release(2)
      by (intro upd) (auto split: if_splits dest: set_remove1_subset [THEN subsetD])
  next
    case (lk_read i h f p)
    then show ?thesis unfolding lk_read(2) by (intro upd) (auto split: if_splits)
  next
    case (lk_write i h f p)
    then show ?thesis unfolding lk_write(2) by (intro upd) (auto split: if_splits)
  next
    case (lk_wait i h p)
    then show ?thesis unfolding lk_wait(2) by (intro upd) (auto split: if_splits)
  qed
qed

end

sublocale lock_program \<subseteq> safe: state_invariant lk_init "lk_step prog" "lk_inv g"
proof unfold_locales
  show "lk_inv g s" if "lk_init s" for s using that by (simp add: lk_init_def lk_inv_def exclusive_def)
qed (rule lk_inv_step)

text \<open>A goroutine that waits holds nothing.\<close>

lemma orderly_head:
  assumes "orderly g t" and "take 1 (todo t) = [a]"
  shows "\<exists>h h'. holds t = stack h \<and> obey g h a = Some h'"
proof -
  obtain p where "t = \<lparr>holds = holds t, todo = a # p\<rparr>" using assms(2) by (cases t; cases "todo t") auto
  with orderly_next [of g "holds t" a p] assms(1) show ?thesis by metis
qed

lemma orderly_waits: "orderly g t \<Longrightarrow> waits t \<Longrightarrow> holds t = []"
  by (auto simp: waits_def split: if_splits dest!: orderly_head)

lemma orderly_access:
  assumes "orderly g t" and "accesses t f"
  shows "\<exists>m. holds t = [(m, g f)] \<and> (take 1 (todo t) = [Write f] \<longrightarrow> m = Excl)"
proof -
  consider "take 1 (todo t) = [Read f]" | "take 1 (todo t) = [Write f]" using assms(2) by (auto simp: accesses_def)
  then show ?thesis
    by cases (use orderly_head [OF assms(1)] in \<open>fastforce split: if_splits\<close>)+
qed

text \<open>A goroutine inside a critical section is never stuck.\<close>

lemma holder_steps:
  assumes "lk_inv g s" and "i < length s" and "holds (s ! i) \<noteq> []"
  shows "\<exists>u. lk_step prog s (Some i) u"
proof -
  have "orderly g (s ! i)" using assms(1,2) by (simp add: lk_inv_def)
  then obtain h where h: "holds (s ! i) = stack h" "follow g h (todo (s ! i)) = Some None" by (auto simp: orderly_def)
  then have "todo (s ! i) \<noteq> []" using assms(3) by auto
  then obtain a p where p: "todo (s ! i) = a # p" by (cases "todo (s ! i)") auto
  then have at: "s ! i = \<lparr>holds = stack h, todo = a # p\<rparr>" using h(1) by simp
  have ok: "obey g h a \<noteq> None" using h(2) p by (auto split: option.splits)
  obtain m l where h': "h = Some (m, l)" using assms(3) h(1) by (cases h) auto
  show ?thesis
  proof (cases a)
    case (Release m' l')
    then have "(m', l') \<in> set (stack h)" using ok h' by (auto split: if_splits)
    then show ?thesis using lk_release [OF assms(2) at [unfolded Release]] by blast
  next
    case (Read f)
    then show ?thesis using lk_read [OF assms(2)] at by blast
  next
    case (Write f)
    then show ?thesis using lk_write [OF assms(2)] at by blast
  qed (use ok h' in auto)
qed

text \<open>
  Goroutine \<open>i\<close> waits for the lock \<open>l\<close>: then it gets it now, or \<open>j\<close>, which holds it or asks for writing first, can step.
\<close>

definition in_the_way :: "'l \<Rightarrow> ('l, 'f) routine \<Rightarrow> bool" where
  "in_the_way l t \<longleftrightarrow> (\<exists>m. (m, l) \<in> set (holds t)) \<or> take 1 (todo t) = [Acquire Excl l]"

context lock_program begin

lemma no_race:
  assumes "reachable lk_init (lk_step prog) s"
  shows "\<not> race s"
proof
  have inv: "lk_inv g s" by (rule safe.sinv_reachable [OF assms])
  assume "race s"
  then obtain i j f where r: "i < length s" "j < length s" "i \<noteq> j" "take 1 (todo (s ! i)) = [Write f]" "accesses (s ! j) f"
    by (auto simp: race_def)
  have "orderly g (s ! i)" "orderly g (s ! j)" using inv r(1,2) by (simp_all add: lk_inv_def)
  then have "holds (s ! i) = [(Excl, g f)]" "\<exists>m. holds (s ! j) = [(m, g f)]"
    using orderly_access [of g "s ! i" f] orderly_access [of g "s ! j" f] r(4,5) by (auto simp: accesses_def)
  then show False using inv r(1-3) by (fastforce simp: lk_inv_def exclusive_def)
qed

lemma acquirer_or_blocker_steps:
  assumes inv: "lk_inv g s" and i: "i < length s" "s ! i = \<lparr>holds = h, todo = Acquire m l # p\<rparr>"
  shows "(\<exists>u. lk_step prog s (Some i) u)
     \<or> (\<exists>j < length s. j \<noteq> i \<and> in_the_way l (s ! j) \<and> (\<exists>u. lk_step prog s (Some j) u))"
proof -
  have "orderly g (s ! i)" using inv i(1) by (simp add: lk_inv_def)
  then have none: "h = []"
    using i(2) orderly_head [of g "s ! i" "Acquire m l"] by (auto simp: stack_def split: if_splits option.splits)
  consider j m' where "j < length s" "(m', l) \<in> set (holds (s ! j))"
    | t where "may_acquire Excl l s" "take 1 (todo t) = [Acquire Excl l]" "t \<in> set s"
    | "may_acquire Excl l s" "may_acquire Shared l s"
  proof (cases "\<exists>t \<in> set s. \<exists>m'. (m', l) \<in> set (holds t)")
    case True
    then show ?thesis using that(1) by (metis in_set_conv_nth)
  next
    case False
    then have "may_acquire Excl l s" by (auto simp: may_acquire_def)
    moreover have "may_acquire Shared l s" if "\<forall>t \<in> set s. take 1 (todo t) \<noteq> [Acquire Excl l]"
      using False that by (auto simp: may_acquire_def)
    ultimately show ?thesis using that(2,3) by blast
  qed
  then show ?thesis
  proof cases
    case (1 j m')
    then have "j \<noteq> i" "holds (s ! j) \<noteq> []" using none i(2) by auto
    with holder_steps [OF inv 1(1)] 1 show ?thesis unfolding in_the_way_def by blast
  next
    case (2 t)
    then obtain j where j: "j < length s" "take 1 (todo (s ! j)) = [Acquire Excl l]" by (auto simp: in_set_conv_nth)
    then obtain q where "s ! j = \<lparr>holds = holds (s ! j), todo = Acquire Excl l # q\<rparr>"
      by (cases "s ! j"; cases "todo (s ! j)") auto
    from lk_acquire [OF j(1) this 2(1)] j show ?thesis unfolding in_the_way_def by blast
  next
    case 3
    then have "may_acquire m l s" by (cases m) auto
    from lk_acquire [OF i this] show ?thesis by blast
  qed
qed

lemma progress:
  assumes "reachable lk_init (lk_step prog) s" and "i < length s" and "todo (s ! i) \<noteq> []"
  shows "(\<exists>u. lk_step prog s (Some i) u) \<and> (waits (s ! i) \<longrightarrow> holds (s ! i) = [])
     \<or> (\<exists>m l j. take 1 (todo (s ! i)) = [Acquire m l] \<and> j < length s \<and> j \<noteq> i \<and> in_the_way l (s ! j)
          \<and> (\<exists>u. lk_step prog s (Some j) u))"
proof -
  have inv: "lk_inv g s" by (rule safe.sinv_reachable [OF assms(1)])
  then have ord: "orderly g (s ! i)" using assms(2) by (simp add: lk_inv_def)
  obtain a p where p: "todo (s ! i) = a # p" using assms(3) by (cases "todo (s ! i)") auto
  then have at: "s ! i = \<lparr>holds = holds (s ! i), todo = a # p\<rparr>" by (cases "s ! i") auto
  have wait: "waits (s ! i) \<longrightarrow> holds (s ! i) = []" using orderly_waits [OF ord] by blast
  consider "a = Wait" | m l where "a = Acquire m l" | "a \<noteq> Wait" "\<nexists>m l. a = Acquire m l" by blast
  then show ?thesis
  proof cases
    case 1
    from lk_wait [OF assms(2) at [unfolded 1]] wait show ?thesis by blast
  next
    case (2 m l)
    then have "take 1 (todo (s ! i)) = [Acquire m l]" "\<not> waits (s ! i)" using p by (simp_all add: waits_def)
    with acquirer_or_blocker_steps [OF inv assms(2) at [unfolded 2]] show ?thesis by blast
  next
    case 3
    obtain h h' where "holds (s ! i) = stack h" "obey g h a = Some h'" using orderly_head [OF ord, of a] p by auto
    then have "holds (s ! i) \<noteq> []" using 3 by (cases a) (auto split: if_splits)
    from holder_steps [OF inv assms(2) this] wait show ?thesis by blast
  qed
qed

end

end
