(* ===== verification/Locks.thy ===== *)
theory Locks
  imports Lock_Discipline
begin

text \<open>
  The locks of the program: the skeleton of every function that takes a mutex or runs where one could be held, in
  \<^verbatim>\<open>internal/registry\<close>, \<^verbatim>\<open>internal/detector\<close> and \<^verbatim>\<open>internal/gateway\<close>. Conditions are left open (\<open>Alt\<close>), so are the
  numbers of rounds (\<open>Many\<close>); the acts are in the order of the code. Fields written only before their object is shared
  (\<^verbatim>\<open>ih.req\<close>, \<^verbatim>\<open>cfg\<close>), the atomic \<^verbatim>\<open>claimed\<close> and the channels need no lock and are left out; sends, receives, ticks and
  RPCs are \<open>Wait\<close>. Logging, \<^verbatim>\<open>rand\<close>, \<^verbatim>\<open>time.Now\<close> and \<^verbatim>\<open>grpc.NewClient\<close> (lazy, as \<^verbatim>\<open>connFor\<close> says) return at once.
\<close>

section \<open>Mutexes and what they guard\<close>

datatype mutex =
    Registry_mu
  | Detector_mu
  | Gateway_mu
  | Gateway_connsMu
  | Tracker_mu

datatype shared_field =
    Registry_workers
  | WorkerInfo_facts
  | Detector_entries
  | Entry_state
  | Gateway_workers
  | Gateway_conns
  | Tracker_requests
  | Inflight_assigned
  | Inflight_attempts
  | Inflight_dispatched
  | Inflight_tried

fun guarded_by :: "shared_field \<Rightarrow> mutex" where
  "guarded_by Registry_workers = Registry_mu"
| "guarded_by WorkerInfo_facts = Registry_mu"
| "guarded_by Detector_entries = Detector_mu"
| "guarded_by Entry_state = Detector_mu"
| "guarded_by Gateway_workers = Gateway_mu"
| "guarded_by Gateway_conns = Gateway_connsMu"
| "guarded_by Tracker_requests = Tracker_mu"
| "guarded_by Inflight_assigned = Tracker_mu"
| "guarded_by Inflight_attempts = Tracker_mu"
| "guarded_by Inflight_dispatched = Tracker_mu"
| "guarded_by Inflight_tried = Tracker_mu"

type_synonym code = "(mutex, shared_field) skel"

abbreviation reads :: "shared_field \<Rightarrow> code" where
  "reads f \<equiv> Do (Read f)"

abbreviation writes :: "shared_field \<Rightarrow> code" where
  "writes f \<equiv> Do (Write f)"

text \<open>\<^verbatim>\<open>x++\<close> and \<^verbatim>\<open>x--\<close>.\<close>

abbreviation bumps :: "shared_field \<Rightarrow> code" where
  "bumps f \<equiv> Seq (reads f) (writes f)"

section \<open>The registry\<close>

definition lk_Register :: code where
  "lk_Register = locked Registry_mu (writes Registry_workers)"

definition lk_Deregister :: code where
  "lk_Deregister = locked Registry_mu (Seq (reads Registry_workers) (writes Registry_workers))"

definition lk_Heartbeat :: code where
  "lk_Heartbeat = locked Registry_mu (Seq (reads Registry_workers)
     (Alt (Seq (writes WorkerInfo_facts) (writes WorkerInfo_facts)) Skip))"

definition lk_ListWorkers :: code where
  "lk_ListWorkers = locked Registry_mu (Seq (reads Registry_workers)
     (Many (Seq (reads Registry_workers) (reads WorkerInfo_facts))))"

section \<open>The detector\<close>

text \<open>
  \<^verbatim>\<open>scanOnce\<close>: the snapshot under \<^verbatim>\<open>registry.mu\<close>; for every worker its entry, found and advanced or new, and dropped on
  death; the reaping of vanished workers; and, without a lock, an eviction and an event for every death.
\<close>

definition lk_scan_worker :: code where
  "lk_scan_worker = Seq (reads Detector_entries)
     (Alt (writes Detector_entries)
       (seqs [reads Entry_state, Alt Skip (seqs [reads Entry_state, writes Entry_state, writes Entry_state]),
          reads Entry_state, reads Entry_state, Alt Skip (writes Entry_state),
          reads Entry_state, Alt Skip (writes Detector_entries)]))"

definition lk_scanOnce :: code where
  "lk_scanOnce = seqs
     [lk_ListWorkers,
      locked Detector_mu (Seq (Many lk_scan_worker)
        (Many (Seq (reads Detector_entries) (Alt Skip (writes Detector_entries))))),
      Many (Seq lk_Deregister (Do Wait))]"

definition lk_Run :: code where
  "lk_Run = Many (Seq (Do Wait) (Alt lk_scanOnce Skip))"

section \<open>The gateway\<close>

definition lk_register :: code where
  "lk_register = locked Tracker_mu (Seq (reads Tracker_requests) (Alt Skip
     (seqs [writes Inflight_assigned, writes Inflight_attempts, writes Inflight_dispatched, writes Inflight_tried,
        writes Tracker_requests])))"

definition lk_unregister :: code where
  "lk_unregister = locked Tracker_mu (writes Tracker_requests)"

text \<open>The latch is atomic; the winner sends.\<close>

definition lk_settle :: code where
  "lk_settle = Alt Skip (Do Wait)"

definition lk_pickWorker :: code where
  "lk_pickWorker = rlocked Gateway_mu (Seq (reads Gateway_workers) (Alt Skip
     (Seq (reads Gateway_workers) (reads Gateway_workers))))"

definition lk_healthyExcept :: code where
  "lk_healthyExcept = rlocked Gateway_mu (Seq (reads Gateway_workers) (Many (reads Gateway_workers)))"

definition lk_connFor :: code where
  "lk_connFor = locked Gateway_connsMu (Seq (reads Gateway_conns) (Alt Skip (Alt Skip (writes Gateway_conns))))"

definition lk_Close :: code where
  "lk_Close = locked Gateway_connsMu (Many (Seq (reads Gateway_conns) (writes Gateway_conns)))"

definition lk_dispatchRPC :: code where
  "lk_dispatchRPC = Seq lk_connFor (Alt Skip (Do Wait))"

text \<open>
  \<^verbatim>\<open>attemptFailed\<close>: the race is decided, or the error is terminal and settles, or the candidates are taken under the view
  lock and the attempt replaced under the tracker lock; then \<open>again\<close>, which is \<^verbatim>\<open>g.attempt\<close>, or \<^verbatim>\<open>settle\<close>, or nothing.
\<close>

definition lk_attemptFailed_locked :: code where
  "lk_attemptFailed_locked = seqs
     [Do (Acquire Excl Tracker_mu),
      bumps Inflight_attempts, writes Inflight_tried, reads Inflight_dispatched,
      Alt Skip (Seq (Many (reads Inflight_tried))
        (Alt Skip (seqs [writes Inflight_assigned, bumps Inflight_attempts, bumps Inflight_dispatched]))),
      reads Inflight_attempts, reads Inflight_dispatched,
      Do (Release Excl Tracker_mu)]"

definition lk_attemptFailed :: "code \<Rightarrow> code" where
  "lk_attemptFailed again = Alt Skip (Alt lk_settle
     (seqs [lk_healthyExcept, lk_attemptFailed_locked, Alt again (Alt lk_settle Skip)]))"

text \<open>\<^verbatim>\<open>attempt\<close>, with \<open>n\<close> replacements at most.\<close>

primrec lk_attempt :: "nat \<Rightarrow> code" where
  "lk_attempt 0 = Seq lk_dispatchRPC (Alt (lk_attemptFailed Skip) lk_settle)"
| "lk_attempt (Suc n) = Seq lk_dispatchRPC (Alt (lk_attemptFailed (lk_attempt n)) lk_settle)"

definition lk_Generate :: code where
  "lk_Generate = Alt Skip (Seq lk_pickWorker (Alt Skip (Seq lk_register (Alt Skip
     (Seq (Do Wait) lk_unregister)))))"

text \<open>\<^verbatim>\<open>rerouteFrom\<close>: no candidates, or the claims under the tracker lock. The attempts it starts are goroutines of their own.\<close>

definition lk_rerouteFrom :: code where
  "lk_rerouteFrom = Seq lk_healthyExcept (Alt Skip
     (seqs [Do (Acquire Excl Tracker_mu),
        Many (seqs [reads Tracker_requests, reads Inflight_assigned, Alt Skip (Seq (reads Inflight_dispatched)
          (Alt Skip (seqs [writes Inflight_assigned, bumps Inflight_attempts, bumps Inflight_dispatched])))]),
        Do (Release Excl Tracker_mu)]))"

definition lk_pollOnce :: code where
  "lk_pollOnce = Seq (Do Wait) (Alt Skip
     (seqs [Do (Acquire Excl Gateway_mu), reads Gateway_workers, writes Gateway_workers,
        Do (Release Excl Gateway_mu), Alt Skip lk_rerouteFrom]))"

definition lk_PollLoop :: code where
  "lk_PollLoop = Seq lk_pollOnce (Many (Seq (Do Wait) (Alt Skip lk_pollOnce)))"

section \<open>The goroutines of the program\<close>

text \<open>
  The control plane's RPC handlers are the registry's operations, one goroutine each, beside the detector; the gateway's are
  its handlers, the attempts they and the poll loop start, the poll loop, and main's goroutine in \<^verbatim>\<open>Close\<close>.
\<close>

inductive runs_in_program :: "code \<Rightarrow> bool" where
  "runs_in_program lk_Register"
| "runs_in_program lk_Deregister"
| "runs_in_program lk_Heartbeat"
| "runs_in_program lk_ListWorkers"
| "runs_in_program lk_Run"
| "runs_in_program lk_Generate"
| "runs_in_program (lk_attempt n)"
| "runs_in_program lk_PollLoop"
| "runs_in_program lk_Close"

section \<open>Every one of them keeps the discipline\<close>

named_theorems lk_checked

lemma check_registry [lk_checked]:
  "check guarded_by None lk_Register = Some None"
  "check guarded_by None lk_Deregister = Some None"
  "check guarded_by None lk_Heartbeat = Some None"
  "check guarded_by None lk_ListWorkers = Some None"
  by (simp_all add: lk_Register_def lk_Deregister_def lk_Heartbeat_def lk_ListWorkers_def)

lemma check_scanOnce [lk_checked]: "check guarded_by None lk_scanOnce = Some None"
  by (simp add: lk_scanOnce_def lk_scan_worker_def lk_checked)

lemma check_gateway [lk_checked]:
  "check guarded_by None lk_register = Some None"
  "check guarded_by None lk_unregister = Some None"
  "check guarded_by None lk_settle = Some None"
  "check guarded_by None lk_pickWorker = Some None"
  "check guarded_by None lk_healthyExcept = Some None"
  "check guarded_by None lk_Close = Some None"
  by (simp_all add: lk_register_def lk_unregister_def lk_settle_def lk_pickWorker_def lk_healthyExcept_def lk_Close_def)

lemma check_dispatchRPC [lk_checked]: "check guarded_by None lk_dispatchRPC = Some None"
  by (simp add: lk_dispatchRPC_def lk_connFor_def)

lemma check_attemptFailed [lk_checked]:
  "check guarded_by None again = Some None \<Longrightarrow> check guarded_by None (lk_attemptFailed again) = Some None"
  by (simp add: lk_attemptFailed_def lk_attemptFailed_locked_def lk_checked)

lemma check_attempt [lk_checked]: "check guarded_by None (lk_attempt n) = Some None"
  by (induction n) (simp_all add: lk_checked)

lemma check_pollOnce [lk_checked]: "check guarded_by None lk_pollOnce = Some None"
  by (simp add: lk_pollOnce_def lk_rerouteFrom_def lk_checked)

lemma check_program: "runs_in_program c \<Longrightarrow> check guarded_by None c = Some None"
  by (erule runs_in_program.cases) (simp_all add: lk_checked lk_Run_def lk_Generate_def lk_PollLoop_def)

interpretation locks: lock_program guarded_by runs_in_program
  by unfold_locales (rule check_program)

section \<open>Properties\<close>

text \<open>A heartbeat is inside its critical section, a listing waits for the lock, the poll loop for its first answer.\<close>

definition ex_contended :: "(mutex, shared_field) routine list" where
  "ex_contended =
     [\<lparr>holds = [(Excl, Registry_mu)],
       todo = [Read Registry_workers, Write WorkerInfo_facts, Write WorkerInfo_facts, Release Excl Registry_mu]\<rparr>,
      \<lparr>holds = [], todo = [Acquire Excl Registry_mu, Read Registry_workers, Release Excl Registry_mu]\<rparr>,
      \<lparr>holds = [], todo = [Wait]\<rparr>]"

lemma ex_contended_reachable: "reachable lk_init (lk_step runs_in_program) ex_contended"
proof -
  let ?hb = "\<lparr>holds = [], todo = Acquire Excl Registry_mu # [Read Registry_workers, Write WorkerInfo_facts, Write WorkerInfo_facts]
     @ [Release Excl Registry_mu]\<rparr>"
  let ?ls = "\<lparr>holds = [], todo = Acquire Excl Registry_mu # [Read Registry_workers] @ [Release Excl Registry_mu]\<rparr>"
  have "runs lk_Heartbeat (todo ?hb)"
    unfolding lk_Heartbeat_def routine.simps by (rule runs_locked) simp
  then have 1: "lk_step runs_in_program [] None [?hb]"
    using lk_go [of runs_in_program lk_Heartbeat "todo ?hb" "[]"] by (simp add: runs_in_program.intros)
  have "runs lk_ListWorkers (todo ?ls)"
    unfolding lk_ListWorkers_def routine.simps by (rule runs_locked) (simp add: runs_stop)
  then have 2: "lk_step runs_in_program [?hb] None [?hb, ?ls]"
    using lk_go [of runs_in_program lk_ListWorkers "todo ?ls" "[?hb]"] by (simp add: runs_in_program.intros)
  have "runs lk_PollLoop ([Wait] @ [])"
    unfolding lk_PollLoop_def lk_pollOnce_def by (rule runs_seq) (simp_all add: runs_stop)
  then have 3: "lk_step runs_in_program [?hb, ?ls] None [?hb, ?ls, \<lparr>holds = [], todo = [Wait]\<rparr>]"
    using lk_go [of runs_in_program lk_PollLoop "[Wait]" "[?hb, ?ls]"] by (simp add: runs_in_program.intros)
  have 4: "lk_step runs_in_program [?hb, ?ls, \<lparr>holds = [], todo = [Wait]\<rparr>] (Some 0) ex_contended"
    using lk_acquire [of 0 "[?hb, ?ls, \<lparr>holds = [], todo = [Wait]\<rparr>]" "[]" Excl Registry_mu]
    by (simp add: may_acquire_def ex_contended_def)
  show ?thesis
    by (rule reachable_step, rule reachable_step, rule reachable_step, rule reachable_step, rule reachable_init,
        simp add: lk_init_def, rule 1, rule 2, rule 3, rule 4)
qed

text \<open>
  C15. The program has no data race on a field that a mutex guards: in no interleaving of any number of RPC handlers,
  attempts, polls and scans do two goroutines stand at an access to the same field with one of them writing.
\<close>

theorem no_data_race:
  assumes "reachable lk_init (lk_step runs_in_program) s"
  shows "\<not> race s"
  by (rule locks.no_race [OF assms])

theorem no_data_race_witness: "\<not> race ex_contended"
  by (rule no_data_race [OF ex_contended_reachable])

text \<open>
  C16. The mutexes never deadlock and are never held across a wait. A goroutine with work left can take its next act; or it
  is at an RPC, a channel operation or a tick and holds none of the five mutexes; or it asks for a mutex that another goroutine holds (or, for
  reading, asks to write), and that one can take its next act. So a slow worker, control plane or consumer of death
  events never delays a goroutine that only needs a lock.
\<close>

theorem locks_never_deadlock:
  assumes "reachable lk_init (lk_step runs_in_program) s" and "i < length s" and "todo (s ! i) \<noteq> []"
  shows "(\<exists>u. lk_step runs_in_program s (Some i) u) \<and> (waits (s ! i) \<longrightarrow> holds (s ! i) = [])
     \<or> (\<exists>m l j. take 1 (todo (s ! i)) = [Acquire m l] \<and> j < length s \<and> j \<noteq> i \<and> in_the_way l (s ! j)
          \<and> (\<exists>u. lk_step runs_in_program s (Some j) u))"
  by (rule locks.progress [OF assms])

theorem locks_never_deadlock_witness:
  "(\<exists>u. lk_step runs_in_program ex_contended (Some 1) u) \<and> (waits (ex_contended ! 1) \<longrightarrow> holds (ex_contended ! 1) = [])
     \<or> (\<exists>m l j. take 1 (todo (ex_contended ! 1)) = [Acquire m l] \<and> j < length ex_contended \<and> j \<noteq> 1
          \<and> in_the_way l (ex_contended ! j) \<and> (\<exists>u. lk_step runs_in_program ex_contended (Some j) u))"
  by (rule locks_never_deadlock [OF ex_contended_reachable]) (simp_all add: ex_contended_def)

end
