(* ===== verification/Detection.thy ===== *)
theory Detection
  imports Control_Plane
begin

text \<open>
  The failure detector over time: completeness (a silent worker with a history is declared dead, and
  when), accuracy (a punctual one is not even suspected), and the blind spot (a worker that fell silent before its third arrival never is, in
  any execution of the control plane).
\<close>

section \<open>Silence scores\<close>

text \<open>
  Two more facts about floating point, beside \<open>float_ok\<close>: powers of two are represented exactly (up to
  \<open>2 ^ 33\<close>, more is not used), and \<^verbatim>\<open>math.Erfc\<close> underflows to 0 from 32 on (it does so from 28 on).
\<close>

definition dyadic_ok :: "float_env \<Rightarrow> bool" where
  "dyadic_ok fe \<longleftrightarrow> (\<forall>k \<le> 33. fl_round fe (2 ^ k) = 2 ^ k)"

definition erfc_tail :: "float_env \<Rightarrow> bool" where
  "erfc_tail fe \<longleftrightarrow> (\<forall>x \<ge> 32. fl_erfc fe x = 0)"

lemma exact_env_tail [simp]: "dyadic_ok exact_env" "erfc_tail exact_env"
  by (auto simp: dyadic_ok_def erfc_tail_def)

lemma fl_round_ge_pow:
  assumes "float_ok fe" and "dyadic_ok fe" and "k \<le> 33" and "2 ^ k \<le> x"
  shows "2 ^ k \<le> fl_round fe x"
  using float_okD(1) [OF assms(1,4)] assms(2,3) by (simp add: dyadic_ok_def)

text \<open>A silence of at least \<open>2 ^ j\<close> seconds is read as at least that many.\<close>

lemma seconds_ge_pow:
  assumes ok: "float_ok fe" "dyadic_ok fe" and j: "j \<le> 33" and long: "2 ^ j * 1000000000 \<le> now - heard"
  shows "2 ^ j \<le> seconds fe (time_sub now heard)"
proof -
  let ?d = "time_sub now heard"
  have "(2 :: int) ^ j \<le> 2 ^ 33" using j by (intro power_increasing) auto
  then have "2 ^ j * 1000000000 \<le> max_duration" by (simp add: max_duration_def)
  then have d: "2 ^ j * 1000000000 \<le> ?d" using long by (auto simp: time_sub_def max_def min_def)
  moreover have "(2 ^ j * 1000000000) sdiv ns_per_s = (2 :: int) ^ j"
    unfolding seconds_parts by (simp add: ns_per_s_def)
  ultimately have "2 ^ j \<le> ?d sdiv ns_per_s" using sec_mono [OF d] by simp
  then have "2 ^ j \<le> real_of_int (?d sdiv ns_per_s)"
    by (metis of_int_le_iff of_int_numeral of_int_power)
  moreover have "0 \<le> fl_round fe (real_of_int (?d smod ns_per_s) / 1000000000)"
  proof -
    have "0 \<le> ?d" using d by (rule order_trans [rotated]) simp
    then show ?thesis using ok(1) sec_nsec_nonneg(2) [of ?d] by (intro fl_round_nonneg) auto
  qed
  ultimately have "2 ^ j \<le> real_of_int (?d sdiv ns_per_s) + fl_round fe (real_of_int (?d smod ns_per_s) / 1000000000)"
    by (rule add_increasing2 [rotated])
  then show ?thesis
    unfolding seconds_def Let_def by (rule fl_round_ge_pow [OF ok j])
qed

text \<open>From 32 widths of the deviation above the mean on the score is at its cap.\<close>

lemma phi_of_capped:
  assumes ok: "float_ok fe" "dyadic_ok fe" "erfc_tail fe" and floor: "minStdDevSeconds fe \<le> s" and k: "k \<le> 33"
    and wide: "32 * fl_round fe (s * fl_round fe (sqrt 2)) \<le> 2 ^ k" and long: "m + 2 ^ k \<le> t"
  shows "phi_of fe t m s = maxPhi"
proof -
  let ?d = "fl_round fe (s * fl_round fe (sqrt 2))"
  have d: "0 < ?d" by (rule phi_divisor_pos [OF ok(1) floor])
  have "2 ^ k \<le> fl_round fe (t - m)" using long by (intro fl_round_ge_pow [OF ok(1,2) k]) simp
  then have "2 ^ 5 \<le> fl_round fe (t - m) / ?d" using wide d by (simp add: le_divide_eq)
  then have "2 ^ 5 \<le> fl_round fe (fl_round fe (t - m) / ?d)" by (intro fl_round_ge_pow [OF ok(1,2)]) simp_all
  then have "fl_erfc fe (fl_round fe (fl_round fe (t - m) / ?d)) = 0" using ok(3) by (simp add: erfc_tail_def)
  then show ?thesis using float_okD(2) [OF ok(1)] by (simp add: phi_of_def Let_def)
qed

text \<open>The mean and the floored deviation a warm entry is judged by.\<close>

definition entry_stats :: "float_env \<Rightarrow> detector_entry \<Rightarrow> (real \<times> real) option" where
  "entry_stats fe e =
     (case (win_mean fe (window e), win_variance fe (window e)) of
        (Some m, Some v) \<Rightarrow> Some (m, max (minStdDevSeconds fe) (fl_round fe (sqrt v)))
      | _ \<Rightarrow> None)"

lemma entry_phi_stats:
  "2 \<le> win_n (window e) \<Longrightarrow> entry_stats fe e = Some (m, s) \<Longrightarrow>
     entry_phi fe e now = Some (phi_of fe (seconds fe (time_sub now (lastApplied e))) m s) \<and> minStdDevSeconds fe \<le> s"
  by (auto simp: entry_stats_def entry_phi_def win_count_def Let_def max_def split: option.splits if_splits)

lemma silent_worker_dies:
  assumes ok: "float_ok fe" "dyadic_ok fe" "erfc_tail fe"
    and e: "ents (ID w) = Some e" "2 \<le> win_n (window e)" "entry_stats fe e = Some (m, s)"
    and silent: "LastSeen w \<le> lastApplied e" and dead: "PhiDead c < maxPhi"
    and k: "32 * fl_round fe (s * fl_round fe (sqrt 2)) \<le> 2 ^ k" and j: "m + 2 ^ k \<le> 2 ^ j" "k \<le> 33" "j \<le> 33"
    and long: "2 ^ j * 1000000000 \<le> now - lastApplied e"
  shows "dies fe c now ents w"
proof -
  have "m + 2 ^ k \<le> seconds fe (time_sub now (lastApplied e))"
    using seconds_ge_pow [OF ok(1,2) j(3) long] j(1) by linarith
  then have "entry_phi fe e now = Some maxPhi"
    using entry_phi_stats [OF e(2,3)] phi_of_capped [OF ok _ j(2) k] by simp
  then show ?thesis
    using e(1) silent dead by (auto simp: dies_iff fold_arrival_silent next_state_dead_iff)
qed

text \<open>
  Four more documented values: \<open>3/4\<close> and \<open>1/8\<close> are represented exactly, \<open>erfc (3/4)\<close> is about 0.289 and
  \<open>log10 (1/8)\<close> about -0.903.
\<close>

definition near_ok :: "float_env \<Rightarrow> bool" where
  "near_ok fe \<longleftrightarrow> fl_round fe (3 / 4) = 3 / 4 \<and> fl_round fe (1 / 8) = 1 / 8 \<and> 1 / 4 \<le> fl_erfc fe (3 / 4)
     \<and> - 1 \<le> fl_log10 fe (1 / 8)"

lemma exact_env_near [simp]: "near_ok exact_env"
proof -
  have "- log 10 8 \<le> (0 :: real)" "log 10 (8 :: real) \<le> 1" by simp_all
  moreover have "log 10 (1 / 8 :: real) = - log 10 8" by (simp add: log_divide)
  ultimately show ?thesis by (simp add: near_ok_def exact_env_def)
qed

text \<open>Up to three quarters of \<open>sqrt 2\<close> deviations beyond the mean (a little more than one deviation) the score is at most 1.\<close>

lemma phi_of_punctual:
  assumes ok: "float_ok fe" "near_ok fe" and floor: "minStdDevSeconds fe \<le> s"
    and near: "4 * fl_round fe (t - m) \<le> 3 * fl_round fe (s * fl_round fe (sqrt 2))"
  shows "phi_of fe t m s \<le> 1"
proof -
  let ?d = "fl_round fe (s * fl_round fe (sqrt 2))"
  define z where "z = fl_round fe (fl_round fe (t - m) / ?d)"
  define p where "p = fl_round fe (1 / 2 * fl_erfc fe z)"
  have "0 < ?d" by (rule phi_divisor_pos [OF ok(1) floor])
  then have "fl_round fe (t - m) / ?d \<le> 3 / 4" using near by (simp add: field_simps)
  then have "z \<le> 3 / 4" unfolding z_def using float_okD(1) [OF ok(1)] ok(2) by (metis near_ok_def)
  then have "1 / 4 \<le> fl_erfc fe z" using float_okD(6) [OF ok(1)] ok(2) by (meson near_ok_def order_trans)
  then have "fl_round fe (1 / 8) \<le> p" unfolding p_def by (intro float_okD(1) [OF ok(1)]) simp
  then have p: "1 / 8 \<le> p" using ok(2) by (simp add: near_ok_def)
  then have "fl_log10 fe (1 / 8) \<le> fl_log10 fe p" by (intro float_okD(9) [OF ok(1)]) simp_all
  then have "- fl_log10 fe p \<le> 1" using ok(2) by (simp add: near_ok_def)
  moreover have "phi_of fe t m s = min maxPhi (- fl_log10 fe p)"
    using p by (auto simp: phi_of_def p_def z_def Let_def min_def)
  ultimately show ?thesis by simp
qed

lemma punctual_verdict:
  assumes ok: "float_ok fe" "near_ok fe" and c: "1 \<le> PhiSuspect c" "1 \<le> PhiDead c"
    and e: "ents (ID w) = Some e" "entry_state e \<noteq> StateDead" "fold_arrival fe w e = Some e1" "entry_state e1 = entry_state e"
    and st: "2 \<le> win_n (window e1)" "entry_stats fe e1 = Some (m, s)"
    and near: "4 * fl_round fe (seconds fe (time_sub now (lastApplied e1)) - m)
       \<le> 3 * fl_round fe (s * fl_round fe (sqrt 2))"
  shows "verdict fe c now ents w = Some (e1\<lparr>entry_state := StateAlive\<rparr>)"
proof -
  from entry_phi_stats [OF st] obtain v where v: "entry_phi fe e1 now = Some v" "v \<le> 1"
    using phi_of_punctual [OF ok _ near] by blast
  have "next_state c (entry_state e1) (Some v) = StateAlive"
    using v(2) c e(2,4) by (cases "entry_state e1") auto
  then show ?thesis using e v by (simp add: verdict_def judge_def Let_def)
qed

section \<open>A worker the detector never evicts\<close>

text \<open>
  What stays true of a worker that is registered, has never been swept with an arrival after the first sighting
  and sends nothing more.
\<close>

definition ghost :: "string \<Rightarrow> worker_info \<Rightarrow> control_plane \<Rightarrow> bool" where
  "ghost wid i s \<longleftrightarrow> workers (cp_reg s) wid = Some i
     \<and> (\<forall>e. entries (cp_det s) wid = Some e \<longrightarrow> win_n (window e) < 2 \<and> LastSeen i \<le> lastApplied e)
     \<and> (case cp_scan s of
          ScanJudging now ws \<Rightarrow> \<forall>w \<in> set ws. ID w = wid \<longrightarrow> w = i
        | ScanEvicting evs \<Rightarrow> wid \<notin> WorkerID ` set evs
        | ScanSending ev evs \<Rightarrow> wid \<notin> WorkerID ` set evs
        | _ \<Rightarrow> True)"

fun concerns :: "string \<Rightarrow> cp_label \<Rightarrow> bool" where
  "concerns wid (RegisterL req) = (reg_WorkerId req = wid)"
| "concerns wid (HeartbeatL req res) = (hb_WorkerId req = wid)"
| "concerns wid (DeregisterL req) = (dereg_WorkerId req = wid)"
| "concerns wid l = False"

lemma srv_frame:
  "reg_WorkerId rq \<noteq> wid \<Longrightarrow> workers (snd (srv_Register now rq r)) wid = workers r wid"
  "hb_WorkerId hq \<noteq> wid \<Longrightarrow> workers (snd (srv_Heartbeat now hq r)) wid = workers r wid"
  "dereg_WorkerId dq \<noteq> wid \<Longrightarrow> workers (snd (srv_Deregister dq r)) wid = workers r wid"
  by (auto simp: srv_Register_def srv_Heartbeat_def srv_Deregister_def Register_def Heartbeat_def Deregister_def
      Let_def split: option.splits prod.splits)

lemma ghost_verdict:
  assumes "ghost wid i s" and "cp_inv s" and "0 \<le> PhiSuspect (cfg (cp_det s))" and "0 \<le> PhiDead (cfg (cp_det s))"
    and "ID i = wid"
  shows "\<not> dies fe (cfg (cp_det s)) now (entries (cp_det s)) i"
    and "\<forall>e. verdict fe (cfg (cp_det s)) now (entries (cp_det s)) i = Some e \<longrightarrow>
           win_n (window e) < 2 \<and> LastSeen i \<le> lastApplied e"
proof -
  have "\<not> dies fe (cfg (cp_det s)) now (entries (cp_det s)) i
     \<and> (\<forall>e. verdict fe (cfg (cp_det s)) now (entries (cp_det s)) i = Some e \<longrightarrow>
           win_n (window e) < 2 \<and> LastSeen i \<le> lastApplied e)"
  proof (cases "entries (cp_det s) wid")
    case None
    then show ?thesis
      using newSlidingWindow_ok [of "WindowSize (cfg (cp_det s))"] assms(2,5)
      by (auto simp: cp_inv_def verdict_def dies_def judge_def newSlidingWindow_def split: if_splits)
  next
    case (Some e)
    then have e: "win_n (window e) < 2" "LastSeen i \<le> lastApplied e" "entry_wf (cfg (cp_det s)) e"
      using assms(1,2) by (auto simp: ghost_def cp_inv_def entries_wf_def)
    from cold_verdict [OF assms(3,4) _ e(3,1,2)] Some assms(5) e show ?thesis by simp
  qed
  then show "\<not> dies fe (cfg (cp_det s)) now (entries (cp_det s)) i"
    "\<forall>e. verdict fe (cfg (cp_det s)) now (entries (cp_det s)) i = Some e \<longrightarrow>
       win_n (window e) < 2 \<and> LastSeen i \<le> lastApplied e" by auto
qed

lemma ghost_step:
  assumes gh: "ghost wid i s" and inv: "cp_inv s" and phi: "0 \<le> PhiSuspect (cfg (cp_det s))" "0 \<le> PhiDead (cfg (cp_det s))"
    and step: "cp_step fe s l t" and other: "\<not> concerns wid l"
  shows "ghost wid i t \<and> cfg (cp_det t) = cfg (cp_det s)"
proof -
  have w: "workers (cp_reg s) wid = Some i" "reg_wf (cp_reg s)" using gh inv by (auto simp: ghost_def cp_inv_def)
  then have id: "ID i = wid" by (simp add: reg_wf_def)
  show ?thesis using step
  proof cases
    case (cp_register req resp r')
    then show ?thesis
      using gh other srv_frame(1) [of req wid "cp_clock s" "cp_reg s"] by (auto simp: ghost_def split: scan_pc.splits)
  next
    case (cp_heartbeat req res r')
    then show ?thesis
      using gh other srv_frame(2) [of req wid "cp_clock s" "cp_reg s"] by (auto simp: ghost_def split: scan_pc.splits)
  next
    case (cp_deregister req resp r')
    then show ?thesis
      using gh other srv_frame(3) [of req wid "cp_reg s"] by (auto simp: ghost_def split: scan_pc.splits)
  next
    case (cp_snapshot now ks)
    have "w = i" if "w \<in> set (ListWorkers ks (cp_reg s))" "ID w = wid" for w
      using reg.snapshot_mem [OF w(2) cp_snapshot(5), of w] that w(1) by simp
    then show ?thesis using gh cp_snapshot(2) by (simp add: ghost_def)
  next
    case (cp_judge now ws ents deaths)
    have ws: "distinct (map ID ws)" "\<forall>w \<in> set ws. ID w = wid \<longrightarrow> w = i"
      and c: "0 < WindowSize (cfg (cp_det s))" "entries_wf (cfg (cp_det s)) (entries (cp_det s))"
      using gh inv cp_judge(3) by (auto simp: ghost_def cp_inv_def)
    note v = ghost_verdict [OF gh inv phi id]
    from scan_judge_snapshot [OF c ws(1), of fe now] cp_judge(4) have
      ents: "ents = (\<lambda>wid. Option.bind (map_of (map (\<lambda>w. (ID w, w)) ws) wid) (verdict fe (cfg (cp_det s)) now (entries (cp_det s))))"
      and deaths: "deaths = map (\<lambda>w. \<lparr>WorkerID = ID w, At = now\<rparr>) (filter (dies fe (cfg (cp_det s)) now (entries (cp_det s))) ws)"
      by auto
    have "w = i" if "map_of (map (\<lambda>w. (ID w, w)) ws) wid = Some w" for w
      using map_of_SomeD [OF that] ws(2) by (auto simp: image_iff)
    then have "\<forall>e. ents wid = Some e \<longrightarrow> win_n (window e) < 2 \<and> LastSeen i \<le> lastApplied e"
      unfolding ents using v(2) [of fe now] by (auto split: Option.bind_splits)
    moreover have "wid \<notin> WorkerID ` set deaths" unfolding deaths using ws(2) v(1) [of fe now] by auto
    ultimately show ?thesis using gh cp_judge(2) by (simp add: ghost_def)
  next
    case (cp_evict ev evs)
    then show ?thesis using gh by (auto simp: ghost_def Deregister_def Let_def)
  qed (use gh in \<open>auto simp: ghost_def split: scan_pc.splits\<close>)
qed

lemma ghost_exec:
  assumes "exec (cp_step fe) s ls t" and "ghost wid i s" and "cp_inv s"
    and "0 \<le> PhiSuspect (cfg (cp_det s))" "0 \<le> PhiDead (cfg (cp_det s))" and "\<forall>l \<in> set ls. \<not> concerns wid l"
  shows "ghost wid i t \<and> cp_inv t \<and> cfg (cp_det t) = cfg (cp_det s)"
  using assms(1,6)
proof (induction rule: exec.induct)
  case exec_nil
  then show ?case using assms by simp
next
  case (exec_snoc ls t l u)
  then have "ghost wid i t" "cp_inv t" "cfg (cp_det t) = cfg (cp_det s)" by auto
  with ghost_step [OF this(1,2) _ _ exec_snoc(2)] cp_inv_step [OF this(2) exec_snoc(2)] assms(4,5) exec_snoc.prems
  show ?case by simp
qed

lemma newcomer_ghost:
  "workers (cp_reg s) wid = Some i \<Longrightarrow> entries (cp_det s) wid = None \<Longrightarrow> cp_scan s = ScanIdle \<Longrightarrow> ghost wid i s"
  by (simp add: ghost_def)

text \<open>A fresh id: neither the registry nor the detector, nor the sweep in progress, has met it.\<close>

definition unseen :: "string \<Rightarrow> control_plane \<Rightarrow> bool" where
  "unseen wid s \<longleftrightarrow> workers (cp_reg s) wid = None \<and> entries (cp_det s) wid = None
     \<and> (case cp_scan s of
          ScanJudging now ws \<Rightarrow> \<forall>w \<in> set ws. ID w \<noteq> wid
        | ScanEvicting evs \<Rightarrow> wid \<notin> WorkerID ` set evs
        | ScanSending ev evs \<Rightarrow> wid \<notin> WorkerID ` set evs
        | _ \<Rightarrow> True)"

lemma registered_unseen_ghost:
  assumes "unseen (reg_WorkerId req) s" and "cp_step fe s (RegisterL req) t"
  shows "ghost (reg_WorkerId req) (fresh_info (reg_WorkerId req) (reg_Address req) (reg_Capacity req) (cp_clock s)) t
     \<and> cp_det t = cp_det s"
  using assms(2)
  by cases (use assms(1) in \<open>auto simp: unseen_def ghost_def srv_Register_def split: scan_pc.splits\<close>)

text \<open>Nobody but the worker's own calls puts its id into the registry.\<close>

lemma absent_step:
  assumes "cp_step fe s l t" and "workers (cp_reg s) wid = None" and "\<not> concerns wid l"
  shows "workers (cp_reg t) wid = None"
  using assms(1)
proof cases
  case (cp_register req resp r')
  then show ?thesis using assms(2,3) srv_frame(1) [of req wid "cp_clock s" "cp_reg s"] by auto
next
  case (cp_heartbeat req res r')
  then show ?thesis using assms(2,3) srv_frame(2) [of req wid "cp_clock s" "cp_reg s"] by auto
next
  case (cp_deregister req resp r')
  then show ?thesis using assms(2,3) srv_frame(3) [of req wid "cp_reg s"] by auto
qed (use assms(2) in \<open>auto simp: Deregister_def Let_def\<close>)

lemma absent_exec:
  "exec (cp_step fe) s ls t \<Longrightarrow> workers (cp_reg s) wid = None \<Longrightarrow> \<forall>l \<in> set ls. \<not> concerns wid l \<Longrightarrow>
     workers (cp_reg t) wid = None"
  by (induction rule: exec.induct) (auto intro: absent_step)

lemma deregistered_absent:
  "cp_step fe s (DeregisterL req) t \<Longrightarrow> workers (cp_reg t) (dereg_WorkerId req) = None"
  by (erule cp_step.cases) (auto simp: srv_Deregister_def Deregister_def Let_def)

section \<open>Properties\<close>

text \<open>
  The detector is complete for workers with a history: let \<open>m\<close> and \<open>s\<close> be the mean gap and the (floored)
  deviation of a worker's window. If it has been silent for \<open>2 ^ j\<close> seconds, where \<open>2 ^ j\<close> exceeds the mean by
  32 deviations (times the square root of 2), the next sweep declares it dead and evicts it. For the one-second
  heartbeats of this system, with the deviation at its floor, that is eight seconds.
\<close>

lemma silence_is_detected:
  assumes "float_ok fe" and "dyadic_ok fe" and "erfc_tail fe"
    and "0 < WindowSize (cfg d)" and "entries_wf (cfg d) (entries d)" and "reg_wf r" and "iterates (workers r) ks"
    and "length (events d) + card (dom (workers r)) \<le> events_capacity" and "PhiDead (cfg d) < maxPhi"
    and "workers r wid = Some w" and "entries d wid = Some e" and "2 \<le> win_n (window e)"
    and "entry_stats fe e = Some (m, s)" and "LastSeen w \<le> lastApplied e"
    and "32 * fl_round fe (s * fl_round fe (sqrt 2)) \<le> 2 ^ k" and "m + 2 ^ k \<le> 2 ^ j" and "k \<le> 33" and "j \<le> 33"
    and "2 ^ j * 1000000000 \<le> now - lastApplied e"
  shows "\<exists>r' d' deaths. scanOnce fe now ks r d = Some (r', d', []) \<and> events d' = events d @ deaths
     \<and> wid \<in> WorkerID ` set deaths \<and> workers r' wid = None"
proof -
  have "ID w = wid" using assms(6,10) by (simp add: reg_wf_def)
  then have "dies fe (cfg d) now (entries d) w"
    using silent_worker_dies [OF assms(1-3) _ assms(12,13,14,9,15-19), of "entries d"] assms(11) by simp
  moreover obtain r' d' deaths where o: "scanOnce fe now ks r d = Some (r', d', [])" "events d' = events d @ deaths"
      "workers r' = workers r |` (- (WorkerID ` set deaths))"
      "WorkerID ` set deaths = {wid. \<exists>w. workers r wid = Some w \<and> dies fe (cfg d) now (entries d) w}"
    using scanOnce_ok [OF assms(4-8), of fe now] by blast
  ultimately have "wid \<in> WorkerID ` set deaths" using assms(10) by auto
  with o show ?thesis by auto
qed

text \<open>The sample worker: two gaps of one second, so mean 1 and the floor for the deviation.\<close>

lemma ex_stats: "entry_stats exact_env ex_entry = Some (1, 1 / 20)"
  by (simp add: entry_stats_def ex_mean win_variance_def minStdDevSeconds_def)
     (simp add: ex_entry_def upt_rec numeral_2_eq_2 Let_def)

lemma silence_is_detected_witness:
  "\<exists>r' d'. scanOnce exact_env 8000000000 [''w1''] ex_reg \<lparr>cfg = ex_config, entries = ex_ents, events = []\<rparr>
     = Some (r', d', []) \<and> workers r' ''w1'' = None"
proof -
  let ?d = "\<lparr>cfg = ex_config, entries = ex_ents, events = []\<rparr>"
  have "sqrt 2 \<le> (2 :: real)" by (rule real_le_lsqrt) auto
  then have w: "32 * fl_round exact_env (1 / 20 * fl_round exact_env (sqrt 2)) \<le> 2 ^ 2" by simp
  have "\<exists>r' d' deaths. scanOnce exact_env 8000000000 [''w1''] ex_reg ?d = Some (r', d', []) \<and> events d' = events ?d @ deaths
     \<and> ''w1'' \<in> WorkerID ` set deaths \<and> workers r' ''w1'' = None"
    by (rule silence_is_detected [OF exact_env_ok exact_env_tail _ _ _ _ _ _ _ _ _ ex_stats _ w, where wid = "''w1''" and w = ex_worker and j = 3])
       (auto simp: events_capacity_def maxPhi_def)
  then show ?thesis by blast
qed

text \<open>
  The blind spot: a worker that is registered, that no sweep has seen yet and that sends nothing more is
  never evicted. In every execution of the control plane in which no call concerns it, whatever the
  other workers do and however long it lasts, its record stays as it is.
\<close>

lemma silent_newcomer_is_never_evicted:
  assumes "cp_inv s" and "0 \<le> PhiSuspect (cfg (cp_det s))" and "0 \<le> PhiDead (cfg (cp_det s))"
    and "workers (cp_reg s) wid = Some i" and "entries (cp_det s) wid = None" and "cp_scan s = ScanIdle"
    and "exec (cp_step fe) s ls t" and "\<forall>l \<in> set ls. \<not> concerns wid l"
  shows "workers (cp_reg t) wid = Some i"
  using ghost_exec [OF assms(7) newcomer_ghost [OF assms(4-6)] assms(1-3,8)] by (simp add: ghost_def)

definition ex_newcomer :: control_plane where
  "ex_newcomer = ex_cp\<lparr>cp_det := (cp_det ex_cp)\<lparr>entries := Map.empty\<rparr>\<rparr>"

lemma silent_newcomer_is_never_evicted_witness:
  "\<exists>ls t. exec (cp_step exact_env) ex_newcomer (SnapshotL 10000000000 # ls) t
     \<and> workers (cp_reg t) ''w1'' = Some ex_worker"
proof -
  let ?t = "ex_newcomer\<lparr>cp_scan := ScanJudging 10000000000 (ListWorkers [''w1''] (cp_reg ex_newcomer))\<rparr>"
  have "cp_step exact_env ex_newcomer (SnapshotL 10000000000) ?t"
    by (rule cp_snapshot) (simp_all add: ex_newcomer_def)
  then have e: "exec (cp_step exact_env) ex_newcomer [SnapshotL 10000000000] ?t" by (rule exec_single)
  have "cp_inv ex_newcomer"
    using ex_cp_inv by (simp add: cp_inv_def ex_newcomer_def entries_wf_def)
  then have "workers (cp_reg ?t) ''w1'' = Some ex_worker"
    by (rule silent_newcomer_is_never_evicted [OF _ _ _ _ _ _ e]) (simp_all add: ex_newcomer_def)
  with e show ?thesis by blast
qed

text \<open>
  C25. No false alarm for a punctual worker: after its arrivals have been taken in, a worker with a history whose
  silence is at most its mean gap plus three quarters of \<open>sqrt 2\<close> deviations comes out of the sweep ALIVE, also if it was
  SUSPECT before, and is still registered. The thresholds may be any from 1 on; the program uses 1 and 8.
\<close>

theorem punctual_worker_stays_alive:
  assumes "float_ok fe" and "near_ok fe" and "1 \<le> PhiSuspect (cfg d)" and "1 \<le> PhiDead (cfg d)"
    and "0 < WindowSize (cfg d)" and "entries_wf (cfg d) (entries d)" and "reg_wf r" and "iterates (workers r) ks"
    and "length (events d) + card (dom (workers r)) \<le> events_capacity"
    and "workers r wid = Some w" and "entries d wid = Some e" and "fold_arrival fe w e = Some e1"
    and "2 \<le> win_n (window e1)" and "entry_stats fe e1 = Some (m, s)"
    and "4 * fl_round fe (seconds fe (time_sub now (lastApplied e1)) - m)
       \<le> 3 * fl_round fe (s * fl_round fe (sqrt 2))"
  shows "\<exists>r' d'. scanOnce fe now ks r d = Some (r', d', []) \<and> workers r' wid = Some w
     \<and> entries d' wid = Some (e1\<lparr>entry_state := StateAlive\<rparr>)"
proof -
  have id: "ID w = wid" using assms(7,10) by (simp add: reg_wf_def)
  have wf: "entry_wf (cfg d) e" by (rule entries_wfD [OF assms(6,11)])
  have st: "entry_state e1 = entry_state e" using fold_arrival_ok [OF wf, of fe w] assms(5,12) by auto
  have v: "verdict fe (cfg d) now (entries d) w = Some (e1\<lparr>entry_state := StateAlive\<rparr>)"
    using punctual_verdict [OF assms(1-4) _ _ assms(12) st assms(13,14,15), of "entries d"] assms(11) wf id
    by (simp add: entry_wf_def)
  then have "\<not> dies fe (cfg d) now (entries d) w" by (auto simp: verdict_def dies_def)
  moreover obtain r' d' deaths where o: "scanOnce fe now ks r d = Some (r', d', [])"
      "workers r' = workers r |` (- (WorkerID ` set (deaths :: dead_event list)))"
      "entries d' = (\<lambda>wid. Option.bind (workers r wid) (verdict fe (cfg d) now (entries d)))"
      "WorkerID ` set deaths = {wid. \<exists>w. workers r wid = Some w \<and> dies fe (cfg d) now (entries d) w}"
    using scanOnce_ok [OF assms(5-9), of fe now] by blast
  ultimately have "wid \<notin> WorkerID ` set deaths" using assms(10) by auto
  with o v assms(10) show ?thesis by auto
qed

theorem punctual_worker_stays_alive_witness:
  "\<exists>r' d'. scanOnce exact_env 1000000000 [''w1''] ex_reg \<lparr>cfg = ex_config, entries = ex_ents, events = []\<rparr>
     = Some (r', d', []) \<and> workers r' ''w1'' = Some ex_worker"
proof -
  let ?d = "\<lparr>cfg = ex_config, entries = ex_ents, events = []\<rparr>"
  have fold: "fold_arrival exact_env ex_worker ex_entry = Some ex_entry" by (simp add: fold_arrival_silent)
  have near: "4 * fl_round exact_env (seconds exact_env (time_sub 1000000000 (lastApplied ex_entry)) - 1)
       \<le> 3 * fl_round exact_env (1 / 20 * fl_round exact_env (sqrt 2))"
    by (simp add: seconds_def seconds_parts time_sub_def max_duration_def min_duration_def ns_per_s_def)
  have "\<exists>r' d'. scanOnce exact_env 1000000000 [''w1''] ex_reg ?d = Some (r', d', []) \<and> workers r' ''w1'' = Some ex_worker
     \<and> entries d' ''w1'' = Some (ex_entry\<lparr>entry_state := StateAlive\<rparr>)"
    by (rule punctual_worker_stays_alive [OF exact_env_ok exact_env_near _ _ _ _ _ _ _ _ _ fold _ ex_stats near])
       (auto simp: events_capacity_def)
  then show ?thesis by blast
qed

end
