(* ===== verification/Gateway_Time.thy ===== *)
theory Gateway_Time
  imports Gateway_Safety
begin

text \<open>
  The running gateway in time. Every dispatch runs on a context with \<open>attemptTimeout\<close> (\<^verbatim>\<open>attempt\<close> in
  \<^verbatim>\<open>internal/gateway/gateway.go\<close>), and gRPC returns \<^verbatim>\<open>DeadlineExceeded\<close> when it expires. The clock moves only
  while every goroutine waits for something outside the gateway: computing takes no time. Nothing else is assumed
  about the workers; they may be frozen. The theory bounds how long a client waits, and how long anything works on its
  request.
\<close>

section \<open>The timed system\<close>

record timed_gateway =
  tg_sys :: gateway_system
  tg_clock :: time
  tg_due :: "nat \<Rightarrow> time"
  tg_arrived :: "nat \<Rightarrow> time"
  tg_born :: "ptr \<Rightarrow> time"

text \<open>The attempt goroutine \<open>i\<close> is inside its worker call.\<close>

definition in_air :: "gateway_system \<Rightarrow> nat \<Rightarrow> bool" where
  "in_air s i \<longleftrightarrow> i < length (gs_attempts s) \<and> (case ga_pc (gs_attempts s ! i) of AAir w \<Rightarrow> True | _ \<Rightarrow> False)"

text \<open>
  Nobody computes: every attempt is in its call or over, every handler is over or waits on an empty channel, and the
  poll loop is between two polls or waits for \<^verbatim>\<open>ListWorkers\<close>.
\<close>

fun attempt_calm :: "attempt_pc \<Rightarrow> bool" where
  "attempt_calm (AAir w) = True"
| "attempt_calm ADone = True"
| "attempt_calm pc = False"

definition handler_calm :: "request_tracker \<Rightarrow> handler_pc \<Rightarrow> bool" where
  "handler_calm t pc \<longleftrightarrow>
     (case pc of
        HDone out \<Rightarrow> True
      | HWaiting p \<Rightarrow> (\<forall>ih. heap t p = Some ih \<longrightarrow> ih_result ih = [])
      | _ \<Rightarrow> False)"

definition calm :: "gateway_system \<Rightarrow> bool" where
  "calm s \<longleftrightarrow> (\<forall>a \<in> set (gs_attempts s). attempt_calm (ga_pc a))
     \<and> (\<forall>h \<in> set (gs_handlers s). handler_calm (gs_tracker s) (gh_pc h)) \<and> gs_poll s = PIdle"

datatype tg_label = TAct gs_label | TDelay duration

text \<open>
  A step of the gateway takes no time; the attempts whose call it starts get their deadline. When a handler arrived and when a
  record was registered is kept for the statements. Time passes up to the next deadline at most.
\<close>

definition tg_after :: "gateway_system \<Rightarrow> timed_gateway \<Rightarrow> timed_gateway" where
  "tg_after u s = \<lparr>tg_sys = u, tg_clock = tg_clock s,
     tg_due = (\<lambda>i. if in_air u i \<and> \<not> in_air (tg_sys s) i then tg_clock s + attemptTimeout else tg_due s i),
     tg_arrived = (\<lambda>i. if i < length (gs_handlers (tg_sys s)) then tg_arrived s i else tg_clock s),
     tg_born = (\<lambda>p. if p \<in> dom (heap (gs_tracker (tg_sys s))) then tg_born s p else tg_clock s)\<rparr>"

inductive tg_step :: "timed_gateway \<Rightarrow> tg_label \<Rightarrow> timed_gateway \<Rightarrow> bool" for s :: timed_gateway where
  tg_act: "gs_step (tg_sys s) l u \<Longrightarrow> tg_step s (TAct l) (tg_after u s)"
| tg_delay: "0 < d \<Longrightarrow> calm (tg_sys s) \<Longrightarrow> \<forall>i. in_air (tg_sys s) i \<longrightarrow> tg_clock s + d \<le> tg_due s i \<Longrightarrow>
    tg_step s (TDelay d) (s\<lparr>tg_clock := tg_clock s + d\<rparr>)"

lemma tg_after_sel [simp]:
  "tg_sys (tg_after u s) = u" "tg_clock (tg_after u s) = tg_clock s"
  "tg_due (tg_after u s) i = (if in_air u i \<and> \<not> in_air (tg_sys s) i then tg_clock s + attemptTimeout else tg_due s i)"
  "tg_arrived (tg_after u s) i = (if i < length (gs_handlers (tg_sys s)) then tg_arrived s i else tg_clock s)"
  "tg_born (tg_after u s) p = (if p \<in> dom (heap (gs_tracker (tg_sys s))) then tg_born s p else tg_clock s)"
  by (simp_all add: tg_after_def)

definition tg_init :: "timed_gateway \<Rightarrow> bool" where
  "tg_init s \<longleftrightarrow> tg_sys s = gateway_new"

section \<open>What a step does for one record\<close>

text \<open>A dispatch has been counted for the record and its call has not been made yet.\<close>

definition announced :: "gateway_system \<Rightarrow> ptr \<Rightarrow> bool" where
  "announced s p \<longleftrightarrow> (\<exists>a \<in> set (gs_attempts s). ga_ih a = p \<and> uncalled (ga_pc a))
     \<or> (\<exists>j \<in> set (jobs_of (gs_poll s)). j_ih j = p) \<or> (\<exists>h \<in> set (gs_handlers s). launching p (gh_pc h))"

text \<open>An attempt of the record is not over.\<close>

definition busy :: "gateway_system \<Rightarrow> ptr \<Rightarrow> bool" where
  "busy s p \<longleftrightarrow> (\<exists>a \<in> set (gs_attempts s). ga_ih a = p \<and> ga_pc a \<noteq> ADone)"

definition listed_in :: "gateway_system \<Rightarrow> ptr \<Rightarrow> bool" where
  "listed_in s p \<longleftrightarrow> p \<in> ran (requests (gs_tracker s))"

text \<open>From the record \<open>ih\<close> in \<open>s\<close> to \<open>ih'\<close> in \<open>t\<close>: the race is not reopened, no dispatch is taken back, and a new call was announced.\<close>

definition moves_on :: "gateway_system \<Rightarrow> inflight \<Rightarrow> gateway_system \<Rightarrow> inflight \<Rightarrow> ptr \<Rightarrow> bool" where
  "moves_on s ih t ih' p \<longleftrightarrow> (claimed ih \<longrightarrow> claimed ih') \<and> dispatched ih \<le> dispatched ih'
     \<and> (announced t p \<longrightarrow> announced s p \<or> dispatched ih < dispatched ih' \<and> (busy s p \<or> listed_in s p))
     \<and> (busy t p \<longrightarrow> busy s p \<or> announced s p) \<and> (listed_in t p \<longrightarrow> listed_in s p)
     \<and> (\<forall>i. in_air t i \<longrightarrow> ga_ih (gs_attempts t ! i) = p \<longrightarrow>
          in_air s i \<and> ga_ih (gs_attempts s ! i) = p \<or> \<not> in_air s i \<and> announced s p)"

lemma in_air_frame [simp]:
  "in_air (set_handler i pc s) = in_air s" "in_air (set_record p ih s) = in_air s"
  "in_air (s\<lparr>gs_tracker := t\<rparr>) = in_air s" "in_air (s\<lparr>gs_view := v\<rparr>) = in_air s" "in_air (s\<lparr>gs_poll := pp\<rparr>) = in_air s"
  "in_air (s\<lparr>gs_handlers := hs\<rparr>) = in_air s"
  by (simp_all add: in_air_def fun_eq_iff)

lemma in_air_launch [simp]: "in_air (launch p w s) = in_air s"
  by (auto simp: in_air_def launch_def fun_eq_iff nth_append split: attempt_pc.splits if_splits)

lemma moves_on_refl:
  "announced t p \<longrightarrow> announced s p \<Longrightarrow> listed_in t p \<longrightarrow> listed_in s p \<Longrightarrow> gs_attempts t = gs_attempts s \<Longrightarrow> claimed ih' = claimed ih \<Longrightarrow> dispatched ih' = dispatched ih \<Longrightarrow>
     moves_on s ih t ih' p"
  by (auto simp: moves_on_def in_air_def busy_def)

lemma listed_in_frame [simp]:
  "listed_in (set_handler i pc s) = listed_in s" "listed_in (set_record q ih s) = listed_in s"
  "listed_in (s\<lparr>gs_view := v\<rparr>) = listed_in s" "listed_in (s\<lparr>gs_poll := pp\<rparr>) = listed_in s"
  "listed_in (set_attempt i apc s) = listed_in s" "listed_in (launch q w s) = listed_in s"
  "listed_in (s\<lparr>gs_handlers := hs\<rparr>) = listed_in s"
  by (simp_all add: listed_in_def fun_eq_iff set_record_def launch_def)

lemma listed_in_unregister: "listed_in (s\<lparr>gs_tracker := unregister k (gs_tracker s)\<rparr>) p \<Longrightarrow> listed_in s p"
  by (auto simp: listed_in_def ran_def split: if_splits)

lemma busy_frame [simp]:
  "busy (set_handler i pc s) = busy s" "busy (set_record q ih s) = busy s" "busy (s\<lparr>gs_tracker := t\<rparr>) = busy s"
  "busy (s\<lparr>gs_view := v\<rparr>) = busy s" "busy (s\<lparr>gs_poll := pp\<rparr>) = busy s"
  by (simp_all add: busy_def fun_eq_iff)

lemma busy_launch [simp]: "busy (launch q w s) p \<longleftrightarrow> busy s p \<or> q = p"
  by (auto simp: busy_def launch_def)

lemma announced_set_handler:
  "announced (set_handler i pc s) p \<Longrightarrow> \<not> launching p pc \<Longrightarrow> announced s p"
  by (auto simp: announced_def set_handler_def dest!: set_update_subset_insert [THEN subsetD])

lemma announced_frame [simp]:
  "announced (set_record q ih s) p = announced s p" "announced (s\<lparr>gs_tracker := t\<rparr>) p = announced s p"
  "announced (s\<lparr>gs_view := v\<rparr>) p = announced s p"
  by (simp_all add: announced_def set_record_def)

lemma attempt_moves:
  assumes "attempt_step view p ih pc l ih' pc'"
  shows "(claimed ih \<longrightarrow> claimed ih') \<and> dispatched ih \<le> dispatched ih' \<and> (uncalled pc' \<longrightarrow> dispatched ih < dispatched ih')
     \<and> ((\<exists>w. pc' = AAir w) \<longrightarrow> uncalled pc)"
  using assms
proof cases
  case (as_replace w candidates draw replacement ex d err)
  then show ?thesis using locked_frame [OF as_replace(4)] locked_replaced [OF as_replace(4)] by simp
next
  case (as_exhaust w candidates draw d err)
  then show ?thesis using locked_frame [OF as_exhaust(4)] locked_not_replaced [OF as_exhaust(4)] by simp
next
  case (as_over w candidates draw d err)
  then show ?thesis using locked_frame [OF as_over(4)] locked_not_replaced [OF as_over(4)] by simp
qed (auto simp: cas_claim_def split: if_splits)

lemma gs_attempt_moves:
  assumes i: "i < length (gs_attempts s)" "gs_attempts s ! i = \<lparr>ga_ih = q, ga_pc = pc\<rparr>"
    and q: "heap (gs_tracker s) q = Some ih0" and step: "attempt_step (gs_view s) q ih0 pc l ih1 pc'"
    and p: "heap (gs_tracker s) p = Some ih" and t: "t = set_record q ih1 (set_attempt i pc' s)"
  shows "\<exists>ih'. heap (gs_tracker t) p = Some ih' \<and> moves_on s ih t ih' p"
proof -
  note m = attempt_moves [OF step]
  have a: "gs_attempts s ! i \<in> set (gs_attempts s)" using i(1) by simp
  have ga: "gs_attempts t = (gs_attempts s)[i := \<lparr>ga_ih = q, ga_pc = pc'\<rparr>]"
    using i(2) by (simp add: t set_attempt_def set_record_def)
  have live: "busy s q" using step a i(2) by (cases "pc = ADone") (force simp: busy_def)+
  have fr: "announced t p \<Longrightarrow> announced s p \<or> p = q \<and> uncalled pc'"
    unfolding announced_def ga by (auto simp: t set_attempt_def set_record_def dest!: set_update_subset_insert [THEN subsetD])
  have bz: "busy t p \<Longrightarrow> busy s p"
    using live unfolding busy_def [of t] ga by (cases "q = p") (auto simp: busy_def dest!: set_update_subset_insert [THEN subsetD])
  have start: "uncalled pc \<Longrightarrow> announced s q \<and> \<not> in_air s i"
    unfolding announced_def in_air_def using a i(2) by (cases pc) force+
  have air: "in_air s j \<and> ga_ih (gs_attempts s ! j) = p \<or> \<not> in_air s j \<and> announced s p"
    if j: "in_air t j" "ga_ih (gs_attempts t ! j) = p" for j
  proof (cases "j = i")
    case True
    then have "p = q" "\<exists>w. pc' = AAir w" using j i(1) unfolding in_air_def ga by (auto split: attempt_pc.splits)
    then show ?thesis using m start True by simp
  next
    case False
    then show ?thesis using j unfolding in_air_def ga by simp
  qed
  have li: "listed_in t p \<Longrightarrow> listed_in s p" by (simp add: t)
  show ?thesis
  proof (cases "q = p")
    case True
    then have "ih0 = ih" using q p by simp
    then have "moves_on s ih t ih1 p" unfolding moves_on_def using m fr bz air li live True by blast
    then show ?thesis using t True by auto
  next
    case False
    then have "moves_on s ih t ih p" unfolding moves_on_def using fr bz air li by blast
    then show ?thesis using t False p by auto
  qed
qed

lemma gs_claim_moves:
  assumes rf: "refs_ok s" and claim: "iterates (requests (gs_tracker s)) ks"
      "reroute_claim departed healthy draws ks (gs_tracker s) = (t', jobs, over)"
    and ih: "heap (gs_tracker s) p = Some ih"
  shows "\<exists>ih'. heap (gs_tracker (s\<lparr>gs_tracker := t', gs_poll := PFiring jobs\<rparr>)) p = Some ih'
     \<and> moves_on s ih (s\<lparr>gs_tracker := t', gs_poll := PFiring jobs\<rparr>) ih' p" (is "\<exists>ih'. heap (gs_tracker ?t) p = Some ih' \<and> _")
proof -
  have wf: "tracker_wf (gs_tracker s)" using rf by (simp add: refs_ok_def)
  note sp = reroute_claim_spec [OF wf claim]
  note cnt = reroute_claim_jobs [OF wf claim ih]
  let ?c = "p \<in> ran (requests (gs_tracker s)) \<and> stranded departed ih"
  obtain ih' where ih': "heap t' p = Some ih'" "claimed ih' = claimed ih" "dispatched ih \<le> dispatched ih'"
      "?c \<longrightarrow> dispatched ih < dispatched ih'"
    unfolding sp(5) using ih by (auto simp: reroute_inflight_def)
  have li: "listed_in ?t p = listed_in s p" using sp(1) by (simp add: listed_in_def)
  have "\<exists>j \<in> set jobs. j_ih j = p \<Longrightarrow> ?c"
    using cnt count_if_pos [of "\<lambda>j. j_ih j = p" jobs] by (auto split: if_splits)
  then have "announced ?t p \<Longrightarrow> announced s p \<or> ?c" by (auto simp: announced_def)
  moreover have "busy ?t p = busy s p" by (simp add: busy_def)
  moreover have "?c \<longrightarrow> listed_in s p" by (simp add: listed_in_def)
  ultimately show ?thesis using ih' li by (auto simp: moves_on_def in_air_def)
qed

lemma gs_step_moves:
  assumes inv: "gs_inv s" and step: "gs_step s l t" and ih: "heap (gs_tracker s) p = Some ih"
  shows "\<exists>ih'. heap (gs_tracker t) p = Some ih' \<and> moves_on s ih t ih' p"
proof -
  have rf: "refs_ok s" using inv by (simp add: gs_inv_def)
  show ?thesis using step
  proof cases
    case (gs_duplicate i w err t')
    then have "t' = gs_tracker s" by (simp add: register_Inl)
    then show ?thesis
      using gs_duplicate(2) ih by (auto intro!: moves_on_refl dest: announced_set_handler)
  next
    case (gs_register i w q t')
    then have "heap t' p = Some ih" "q \<noteq> p"
      using ih rf by (auto simp: register_Inr refs_ok_def tracker_wf_def)
    moreover have "listed_in (s\<lparr>gs_tracker := t'\<rparr>) p \<longrightarrow> listed_in s p"
      using gs_register(4) \<open>q \<noteq> p\<close> by (auto simp: listed_in_def register_Inr ran_def split: if_splits)
    ultimately show ?thesis
      using gs_register(2) by (auto intro!: moves_on_refl dest: announced_set_handler)
  next
    case (gs_launch i q w)
    have h: "\<lparr>gh_req = handler_req i s, gh_pc = HRegistered q w\<rparr> \<in> set (gs_handlers s)"
      using gs_launch(3) by (auto simp: handler_at_def in_set_conv_nth)
    then have q: "announced s q" unfolding announced_def by force
    have "announced t p \<Longrightarrow> announced s p"
    proof -
      assume f: "announced t p"
      show "announced s p"
      proof (cases "q = p")
        case True
        with q show ?thesis by simp
      next
        case False
        then have "announced (set_handler i (HWaiting q) s) p" using f gs_launch(2) by (auto simp: announced_def launch_def)
        then show ?thesis by (rule announced_set_handler) simp
      qed
    qed
    then show ?thesis
      using gs_launch(2) ih q by (auto simp: moves_on_def in_air_def nth_append split: attempt_pc.splits if_splits)
  next
    case (gs_receive i q ih0 r ih1)
    then show ?thesis
      using ih announced_set_handler [of i "HReturning q (outcome_of r)" s p]
      by (cases "q = p") (auto simp: take_result_def intro!: moves_on_refl)
  next
    case (gs_return i q out)
    then show ?thesis
      using ih by (auto intro!: moves_on_refl dest: announced_set_handler listed_in_unregister)
  next
    case (gs_attempt i q pc ih0 ih1 pc')
    show ?thesis unfolding gs_attempt(1) by (rule gs_attempt_moves [OF gs_attempt(2-5) ih refl])
  next
    case (gs_poll_claim departed healthy ks draws t' jobs over)
    show ?thesis unfolding gs_poll_claim(2) by (rule gs_claim_moves [OF rf gs_poll_claim(4,5) ih])
  next
    case (gs_poll_fire j js)
    then have "announced t p \<Longrightarrow> announced s p" by (auto simp: announced_def launch_def)
    moreover have "announced s (j_ih j)" using gs_poll_fire(3) by (auto simp: announced_def)
    ultimately show ?thesis
      using gs_poll_fire(2) ih by (auto simp: moves_on_def in_air_def nth_append split: attempt_pc.splits if_splits)
  qed (use ih in \<open>auto intro!: moves_on_refl dest!: announced_set_handler\<close>, auto simp: announced_def)
qed

text \<open>What a step does for a handler.\<close>

fun handler_next :: "gateway_system \<Rightarrow> gateway_system \<Rightarrow> handler_pc \<Rightarrow> handler_pc \<Rightarrow> bool" where
  "handler_next s t pc (HDone out) = True"
| "handler_next s t HStart (HPicked w) = True"
| "handler_next s t (HPicked w) (HRegistered p w') =
     (heap (gs_tracker s) p = None \<and> (\<exists>req. heap (gs_tracker t) p = Some (new_inflight req (wi_WorkerId w)))
      \<and> gs_attempts t = gs_attempts s)"
| "handler_next s t (HRegistered p w) (HWaiting q) = (q = p)"
| "handler_next s t (HWaiting p) (HReturning q out) = (q = p)"
| "handler_next s t pc pc' = (pc' = pc)"

lemma handler_next_refl [simp]: "handler_next s t pc pc"
  by (cases pc) auto

lemma handler_step:
  assumes "gs_inv s" and "gs_step s l t" and "i < length (gs_handlers t)"
  shows "i < length (gs_handlers s) \<and> handler_next s t (gh_pc (gs_handlers s ! i)) (gh_pc (gs_handlers t ! i))
     \<or> i = length (gs_handlers s) \<and> gh_pc (gs_handlers t ! i) = HStart"
proof -
  have wf: "tracker_wf (gs_tracker s)" using assms(1) by (simp add: gs_inv_def refs_ok_def)
  have upd: "i < length (gs_handlers s) \<and> handler_next s t (gh_pc (gs_handlers s ! i)) (gh_pc (gs_handlers t ! i))"
    if "handler_at j pc s" "gs_handlers t = gs_handlers (set_handler j pc' s)" "handler_next s t pc pc'" for j pc pc'
    using that assms(3) by (cases "i = j") (auto simp: handler_at_def set_handler_def)
  show ?thesis using assms(2)
  proof cases
    case (gs_arrive req)
    then show ?thesis using assms(3) by (auto simp: nth_append less_Suc_eq split: if_splits)
  next
    case (gs_register j w p t')
    from gs_register(4) wf have "heap (gs_tracker s) p = None" "heap t' p = Some (new_inflight (handler_req j s) (wi_WorkerId w))"
      by (auto simp: register_Inr tracker_wf_def)
    with gs_register(2) have "handler_next s t (HPicked w) (HRegistered p w)" by simp blast
    with upd [OF gs_register(3)] gs_register(2) show ?thesis by (auto simp: set_handler_def)
  next
    case (gs_duplicate j w err t')
    with upd [OF gs_duplicate(3), of "HDone (Inl err)"] show ?thesis by (auto simp: set_handler_def)
  next
    case (gs_return j p out)
    with upd [OF gs_return(3), of "HDone out"] show ?thesis by (auto simp: set_handler_def)
  next
    case (gs_receive j p ih r ih')
    with upd [OF gs_receive(3), of "HReturning p (outcome_of r)"] show ?thesis by auto
  next
    case (gs_launch j p w)
    with upd [OF gs_launch(3), of "HWaiting p"] show ?thesis by auto
  qed (use assms(3) upd in \<open>auto\<close>)
qed

section \<open>The invariant\<close>

text \<open>
  What keeps a record in time, counted from its registration: each dispatch buys one more \<open>attemptTimeout\<close>, a dispatch
  that has been counted but not yet called has its whole timeout before it, and the clock stays inside while the race is open, the
  handler has not returned, or an attempt is not over.
\<close>

definition timely :: "timed_gateway \<Rightarrow> ptr \<Rightarrow> inflight \<Rightarrow> bool" where
  "timely s p ih \<longleftrightarrow>
     (\<not> claimed ih \<or> listed_in (tg_sys s) p \<or> busy (tg_sys s) p \<longrightarrow> tg_clock s \<le> tg_born s p + dispatched ih * attemptTimeout)
     \<and> (announced (tg_sys s) p \<longrightarrow> tg_clock s \<le> tg_born s p + (dispatched ih - 1) * attemptTimeout)
     \<and> (\<forall>j. in_air (tg_sys s) j \<longrightarrow> ga_ih (gs_attempts (tg_sys s) ! j) = p \<longrightarrow>
          tg_due s j \<le> tg_born s p + dispatched ih * attemptTimeout)"

definition client_patience :: duration where
  "client_patience = maxAttempts * attemptTimeout"

text \<open>A handler that arrived at \<open>b\<close>: it registers at once.\<close>

fun on_time :: "timed_gateway \<Rightarrow> time \<Rightarrow> handler_pc \<Rightarrow> bool" where
  "on_time s b (HDone out) = True"
| "on_time s b (HReturning p out) = (tg_born s p = b)"
| "on_time s b (HWaiting p) = (tg_born s p = b)"
| "on_time s b (HRegistered p w) = (tg_born s p = b)"
| "on_time s b pc = (tg_clock s = b)"

definition tg_inv :: "timed_gateway \<Rightarrow> bool" where
  "tg_inv s \<longleftrightarrow> gs_inv (tg_sys s)
     \<and> (\<forall>p ih. heap (gs_tracker (tg_sys s)) p = Some ih \<longrightarrow> timely s p ih)
     \<and> (\<forall>i < length (gs_handlers (tg_sys s)). on_time s (tg_arrived s i) (gh_pc (gs_handlers (tg_sys s) ! i)))"

lemma attemptTimeout_pos: "0 < attemptTimeout"
  by (simp add: attemptTimeout_def)

lemma client_patience_pos: "0 < client_patience"
  by (simp add: client_patience_def attemptTimeout_def maxAttempts_def)

text \<open>A step of the gateway, at one instant.\<close>

lemma timely_act:
  assumes old: "timely s p ih" and mv: "moves_on (tg_sys s) ih u ih' p" and p: "p \<in> dom (heap (gs_tracker (tg_sys s)))"
  shows "timely (tg_after u s) p ih'"
proof -
  let ?T = attemptTimeout and ?b = "tg_born s p"
  have b: "tg_born (tg_after u s) p = ?b" using p by simp
  have D: "dispatched ih \<le> dispatched ih'" using mv by (simp add: moves_on_def)
  then have le: "?b + dispatched ih * ?T \<le> ?b + dispatched ih' * ?T" "?b + (dispatched ih - 1) * ?T \<le> ?b + (dispatched ih' - 1) * ?T"
    using attemptTimeout_pos by (simp_all add: mult_right_mono)
  have step: "?b + (dispatched ih - 1) * ?T \<le> ?b + dispatched ih * ?T"
    using attemptTimeout_pos by (simp add: algebra_simps)
  have now: "tg_clock s \<le> ?b + dispatched ih * ?T"
    if "\<not> claimed ih \<or> listed_in (tg_sys s) p \<or> busy (tg_sys s) p \<or> announced (tg_sys s) p"
    using that old step unfolding timely_def by fastforce
  have lt: "?b + dispatched ih * ?T \<le> ?b + (dispatched ih' - 1) * ?T" if "dispatched ih < dispatched ih'"
    using that attemptTimeout_pos by (intro add_left_mono mult_right_mono) auto
  have "tg_clock s \<le> ?b + dispatched ih' * ?T" if "\<not> claimed ih' \<or> listed_in u p \<or> busy u p"
    using now that mv le(1) unfolding moves_on_def by fastforce
  moreover have "tg_clock s \<le> ?b + (dispatched ih' - 1) * ?T" if f: "announced u p"
  proof (cases "announced (tg_sys s) p")
    case True
    then show ?thesis using old le(2) by (simp add: timely_def)
  next
    case False
    then have "dispatched ih < dispatched ih' \<and> (busy (tg_sys s) p \<or> listed_in (tg_sys s) p)" using mv f by (simp add: moves_on_def)
    then show ?thesis using now lt by fastforce
  qed
  moreover have "tg_due (tg_after u s) j \<le> ?b + dispatched ih' * ?T" if j: "in_air u j" "ga_ih (gs_attempts u ! j) = p" for j
  proof (cases "in_air (tg_sys s) j")
    case True
    then have "ga_ih (gs_attempts (tg_sys s) ! j) = p" using mv j by (auto simp: moves_on_def)
    then have "tg_due s j \<le> ?b + dispatched ih * ?T" using old True by (simp add: timely_def)
    then show ?thesis using True le(1) by simp
  next
    case False
    then have "announced (tg_sys s) p" using mv j by (auto simp: moves_on_def)
    then have "tg_clock s + ?T \<le> ?b + dispatched ih * ?T" using old by (auto simp: timely_def algebra_simps)
    then show ?thesis using j(1) False le(1) by simp
  qed
  ultimately show ?thesis unfolding timely_def b by (simp only: tg_after_sel(1,2)) blast
qed

text \<open>A record that was not there has just been registered.\<close>

lemma gs_step_born:
  assumes inv: "gs_inv s" and step: "gs_step s l t" and new: "heap (gs_tracker s) p = None" "heap (gs_tracker t) p = Some ih"
  shows "dispatched ih = 1 \<and> gs_attempts t = gs_attempts s"
  using step
proof cases
  case (gs_register i w q t')
  then show ?thesis using new by (auto simp: register_Inr split: if_splits)
next
  case (gs_duplicate i w err t')
  then show ?thesis using new by (simp add: register_Inl)
next
  case (gs_poll_claim departed healthy ks draws t' jobs over)
  have "tracker_wf (gs_tracker s)" using inv by (simp add: gs_inv_def refs_ok_def)
  from reroute_claim_spec(5) [OF this gs_poll_claim(4,5)] show ?thesis using new gs_poll_claim(2) by simp
next
  case (gs_launch i q w)
  then show ?thesis using new by (simp add: launch_def)
next
  case (gs_poll_fire j js)
  then show ?thesis using new by (simp add: launch_def)
qed (use new in \<open>auto simp: unregister_def set_record_def split: if_splits\<close>)

lemma timely_new:
  assumes inv: "gs_inv (tg_sys s)" and step: "gs_step (tg_sys s) l u"
    and new: "heap (gs_tracker (tg_sys s)) p = None" "heap (gs_tracker u) p = Some ih"
  shows "timely (tg_after u s) p ih"
proof -
  have b: "tg_born (tg_after u s) p = tg_clock s" using new(1) by (simp add: domIff)
  have D: "dispatched ih = 1" "gs_attempts u = gs_attempts (tg_sys s)" using gs_step_born [OF inv step new] by auto
  have "\<forall>a \<in> set (gs_attempts u). ga_ih a \<noteq> p"
    using inv new(1) D(2) by (auto simp: gs_inv_def refs_ok_def)
  then have "\<not> in_air u j \<or> ga_ih (gs_attempts u ! j) \<noteq> p" for j by (auto simp: in_air_def)
  then show ?thesis
    unfolding timely_def b D(1) using attemptTimeout_pos by (simp only: tg_after_sel(1,2)) auto
qed

lemma calm_none: "calm s \<Longrightarrow> (\<And>pc. attempt_calm pc \<Longrightarrow> \<not> P pc) \<Longrightarrow> attempts_at P p s = 0"
  by (auto simp: attempts_at_def count_if_zero calm_def)

text \<open>While time passes: an open race has a call in the air, and a registered record has an open race.\<close>

lemma calm_open:
  assumes inv: "gs_inv s" and calm: "calm s" and ih: "heap (gs_tracker s) p = Some ih" and "\<not> claimed ih"
  shows "\<exists>j. in_air s j \<and> ga_ih (gs_attempts s ! j) = p"
proof -
  have ok: "record_ok ih (live p s) (attempts_at exhausting p s) (attempts_at sending p s) (0 < handlers_at (expecting p) s)"
    using inv records_okD [OF _ ih] by (simp add: gs_inv_def)
  have "attempts_at exhausting p s = 0" by (rule calm_none [OF calm], erule attempt_calm.elims, simp_all)
  then have "0 < live p s" using ok assms(4) by (auto simp: record_ok_def)
  moreover have "\<not> launching p (gh_pc h)" if "h \<in> set (gs_handlers s)" for h
    using calm that by (cases "gh_pc h") (auto simp: calm_def handler_calm_def)
  moreover have "jobs_of (gs_poll s) = []" using calm by (simp add: calm_def)
  ultimately have "0 < attempts_at counted p s" by (auto simp: live_def owed_def handlers_at_def count_if_pos)
  then obtain j where j: "j < length (gs_attempts s)" "ga_ih (gs_attempts s ! j) = p" "counted (ga_pc (gs_attempts s ! j))"
    by (auto simp: attempts_at_def count_if_pos in_set_conv_nth)
  moreover have "attempt_calm (ga_pc (gs_attempts s ! j))" using calm j(1) by (simp add: calm_def)
  ultimately have "in_air s j" by (cases "ga_pc (gs_attempts s ! j)") (auto simp: in_air_def)
  with j(2) show ?thesis by blast
qed

lemma calm_listed:
  assumes inv: "gs_inv s" and calm: "calm s" and ih: "heap (gs_tracker s) p = Some ih" and "listed_in s p"
  shows "\<not> claimed ih"
proof -
  have ow: "owners_ok s" using inv by (simp add: gs_inv_def)
  then have "0 < handlers_at (holding p) s" using assms(4) by (simp add: owners_ok_def listed_in_def)
  then obtain i where i: "i < length (gs_handlers s)" "holding p (gh_pc (gs_handlers s ! i))"
    by (auto simp: handlers_at_def count_if_pos in_set_conv_nth)
  moreover have hc: "handler_calm (gs_tracker s) (gh_pc (gs_handlers s ! i))" using calm i(1) by (simp add: calm_def)
  ultimately have h: "handler_at i (HWaiting p) s" "ih_result ih = []"
    using ih by (cases "gh_pc (gs_handlers s ! i)"; simp add: handler_at_def handler_calm_def)+
  then have "0 < handlers_at (expecting p) s" using handlers_at_split [OF h(1), of "expecting p"] by simp
  then have ok: "record_ok ih (live p s) (attempts_at exhausting p s) (attempts_at sending p s) True"
    using inv records_okD [OF _ ih] by (simp add: gs_inv_def)
  have "attempts_at sending p s = 0" by (rule calm_none [OF calm], erule attempt_calm.elims, simp_all)
  then show ?thesis using ok h(2) by (auto simp: record_ok_def)
qed

lemma calm_busy: "calm s \<Longrightarrow> busy s p \<Longrightarrow> \<exists>j. in_air s j \<and> ga_ih (gs_attempts s ! j) = p"
proof -
  assume c: "calm s" and "busy s p"
  then obtain j where j: "j < length (gs_attempts s)" "ga_ih (gs_attempts s ! j) = p" "ga_pc (gs_attempts s ! j) \<noteq> ADone"
    by (auto simp: busy_def in_set_conv_nth)
  moreover have "attempt_calm (ga_pc (gs_attempts s ! j))" using c j(1) by (simp add: calm_def)
  ultimately have "in_air s j" by (cases "ga_pc (gs_attempts s ! j)") (auto simp: in_air_def)
  with j(2) show ?thesis by blast
qed

lemma calm_announced: "calm s \<Longrightarrow> \<not> announced s p"
proof -
  assume c: "calm s"
  have "\<not> uncalled (ga_pc a)" if "a \<in> set (gs_attempts s)" for a
    using c that by (cases "ga_pc a") (auto simp: calm_def)
  moreover have "\<not> launching p (gh_pc h)" if "h \<in> set (gs_handlers s)" for h
    using c that by (cases "gh_pc h") (auto simp: calm_def handler_calm_def)
  moreover have "jobs_of (gs_poll s) = []" using c by (simp add: calm_def)
  ultimately show ?thesis by (auto simp: announced_def)
qed

lemma timely_delay:
  assumes inv: "gs_inv (tg_sys s)" and calm: "calm (tg_sys s)"
    and due: "\<forall>i. in_air (tg_sys s) i \<longrightarrow> tg_clock s + d \<le> tg_due s i"
    and ih: "heap (gs_tracker (tg_sys s)) p = Some ih" and old: "timely s p ih"
  shows "timely (s\<lparr>tg_clock := tg_clock s + d\<rparr>) p ih"
proof -
  have "tg_clock s + d \<le> tg_born s p + dispatched ih * attemptTimeout"
    if "\<not> claimed ih \<or> listed_in (tg_sys s) p \<or> busy (tg_sys s) p"
  proof -
    have "\<exists>j. in_air (tg_sys s) j \<and> ga_ih (gs_attempts (tg_sys s) ! j) = p"
      using that calm_open [OF inv calm ih] calm_listed [OF inv calm ih] calm_busy [OF calm] by blast
    then show ?thesis using due old by (force simp: timely_def)
  qed
  then show ?thesis using old calm_announced [OF calm] by (simp add: timely_def)
qed

text \<open>A handler keeps its bound while the gateway steps.\<close>

lemma on_time_next:
  assumes inv: "gs_inv (tg_sys s)" and h: "h \<in> set (gs_handlers (tg_sys s))" and old: "on_time s b (gh_pc h)"
    and nx: "handler_next (tg_sys s) u (gh_pc h) pc'"
  shows "on_time (tg_after u s) b pc'"
proof -
  have hold: "tg_born (tg_after u s) p = tg_born s p" if "holding p (gh_pc h)" for p
  proof -
    have "owner_ok (gs_tracker (tg_sys s)) h" using inv h by (simp add: gs_inv_def owners_ok_def)
    then show ?thesis using that by (auto simp: owner_ok_def)
  qed
  show ?thesis
  proof (cases "gh_pc h")
    case HStart
    then show ?thesis using nx old by (cases pc') auto
  next
    case (HPicked w)
    then show ?thesis using nx old by (cases pc') auto
  next
    case (HRegistered p w)
    then show ?thesis using nx old hold [of p] by (cases pc') auto
  next
    case (HWaiting p)
    then show ?thesis using nx old hold [of p] by (cases pc') auto
  next
    case (HReturning p out)
    then show ?thesis using nx old hold [of p] by (cases pc') auto
  next
    case (HDone out)
    then show ?thesis using nx by (cases pc') auto
  qed
qed

lemma tg_inv_act:
  assumes inv: "tg_inv s" and step: "gs_step (tg_sys s) l u"
  shows "tg_inv (tg_after u s)"
proof -
  have gi: "gs_inv (tg_sys s)" using inv by (simp add: tg_inv_def)
  have "on_time (tg_after u s) (tg_arrived (tg_after u s) i) (gh_pc (gs_handlers u ! i))" if i: "i < length (gs_handlers u)" for i
    using handler_step [OF gi step i]
  proof
    assume a: "i < length (gs_handlers (tg_sys s))
      \<and> handler_next (tg_sys s) u (gh_pc (gs_handlers (tg_sys s) ! i)) (gh_pc (gs_handlers u ! i))"
    then have "on_time s (tg_arrived s i) (gh_pc (gs_handlers (tg_sys s) ! i))" using inv by (simp add: tg_inv_def)
    with on_time_next [OF gi _ this] a show ?thesis by simp
  next
    assume a: "i = length (gs_handlers (tg_sys s)) \<and> gh_pc (gs_handlers u ! i) = HStart"
    then have "gh_pc (gs_handlers u ! i) = HStart" ..
    then show ?thesis using a unfolding \<open>gh_pc (gs_handlers u ! i) = HStart\<close> by simp
  qed
  moreover have "timely (tg_after u s) p ih'" if t: "heap (gs_tracker u) p = Some ih'" for p ih'
  proof (cases "heap (gs_tracker (tg_sys s)) p")
    case None
    from timely_new [OF gi step None t] show ?thesis .
  next
    case (Some ih)
    obtain ih2 where "heap (gs_tracker u) p = Some ih2" "moves_on (tg_sys s) ih u ih2 p"
      using gs_step_moves [OF gi step Some] by blast
    moreover have "timely s p ih" using inv Some by (simp add: tg_inv_def)
    ultimately show ?thesis using timely_act [of s p ih u ih2] Some t by auto
  qed
  ultimately show ?thesis using gs_inv_step [OF gi step] by (simp add: tg_inv_def)
qed

lemma on_time_delay: "on_time s b pc \<Longrightarrow> handler_calm t pc \<Longrightarrow> on_time (s\<lparr>tg_clock := x\<rparr>) b pc"
  by (cases pc) (auto simp: handler_calm_def)

interpretation tg: state_invariant tg_init tg_step tg_inv
proof unfold_locales
  show "tg_inv s" if "tg_init s" for s
    using that gs_inv_init by (simp add: tg_init_def tg_inv_def gs_init_def gateway_new_def NewRequestTracker_def)
next
  show "tg_inv t" if i: "tg_inv s" and st: "tg_step s l t" for s l t
    using st
  proof cases
    case (tg_act la u)
    show ?thesis unfolding tg_act(2) by (rule tg_inv_act [OF i tg_act(3)])
  next
    case (tg_delay d)
    have "handler_calm (gs_tracker (tg_sys s)) (gh_pc (gs_handlers (tg_sys s) ! j))" if "j < length (gs_handlers (tg_sys s))" for j
      using tg_delay(4) that by (simp add: calm_def)
    then show ?thesis
      using i timely_delay [OF _ tg_delay(4,5)] tg_delay(2) on_time_delay [where t = "gs_tracker (tg_sys s)"] by (auto simp: tg_inv_def)
  qed
qed

section \<open>Time goes on\<close>

text \<open>A handler that is not calm has a step that drains.\<close>

lemma handler_can_step:
  assumes h: "i < length (gs_handlers s)" and busy: "\<not> handler_calm (gs_tracker s) (gh_pc (gs_handlers s ! i))"
  shows "\<exists>l t. gs_step s l t \<and> t \<noteq> s \<and> gs_poll t = gs_poll s \<and> length (gs_handlers t) = length (gs_handlers s)"
proof -
  let ?pc = "gh_pc (gs_handlers s ! i)"
  have at: "handler_at i ?pc s" using h by (simp add: handler_at_def)
  have run: "handler_running ?pc" using busy by (cases ?pc) (simp_all add: handler_calm_def)
  have free: "\<forall>p. ?pc = HWaiting p \<longrightarrow> (\<exists>ih. heap (gs_tracker s) p = Some ih \<and> ih_result ih \<noteq> [])"
    using busy by (auto simp: handler_calm_def)
  show ?thesis by (rule handler_moves [OF at run free]) blast
qed

lemma busy_drains:
  assumes inv: "gs_inv s" and busy: "\<not> calm s \<or> (\<exists>i. in_air s i)"
  shows "\<exists>l t. gs_step s l t \<and> drain_weight t < drain_weight s"
proof -
  have att: "\<exists>l t. gs_step s l t \<and> drain_weight t < drain_weight s" if "a \<in> set (gs_attempts s)" "ga_pc a \<noteq> ADone" for a
  proof -
    have "\<exists>l t. gs_step s l t \<and> is_work (ga_ih a) l" by (rule gs_attempt_enabled [OF inv that(1) refl that(2)])
    then obtain l t where st: "gs_step s l t" "is_work (ga_ih a) l" by blast
    then have "drain_weight t < drain_weight s" using gs_step_drains [OF inv st(1)] work_step_moves [OF st] by simp
    then show ?thesis using st by blast
  qed
  consider i where "in_air s i" | a where "a \<in> set (gs_attempts s)" "\<not> attempt_calm (ga_pc a)"
    | i where "i < length (gs_handlers s)" "\<not> handler_calm (gs_tracker s) (gh_pc (gs_handlers s ! i))"
    | "gs_poll s \<noteq> PIdle"
    using busy unfolding calm_def by (metis in_set_conv_nth)
  then show ?thesis
  proof cases
    case (1 i)
    then show ?thesis using att [of "gs_attempts s ! i"] by (auto simp: in_air_def split: attempt_pc.splits)
  next
    case (2 a)
    then show ?thesis using att [of a] by (cases "ga_pc a") auto
  next
    case (3 i)
    obtain l t where "gs_step s l t \<and> t \<noteq> s \<and> gs_poll t = gs_poll s \<and> length (gs_handlers t) = length (gs_handlers s)"
      using handler_can_step [OF 3] by blast
    then show ?thesis using gs_step_drains [OF inv, of l t] by auto
  next
    case 4
    obtain t where st: "gs_step s LTau t" "gs_poll t \<noteq> gs_poll s" using poll_can_step [OF inv 4] by blast
    moreover have "length (gs_handlers t) = length (gs_handlers s)"
      using st by (cases rule: gs_step.cases) (auto simp: set_handler_def set_record_def set_attempt_def launch_def)
    ultimately show ?thesis using gs_step_drains [OF inv st(1)] 4 by auto
  qed
qed

lemma time_or_drain:
  assumes inv: "gs_inv (tg_sys s)"
  shows "(\<exists>d t. tg_step s (TDelay d) t) \<or> (\<exists>l t. tg_step s (TAct l) t \<and> drain_weight (tg_sys t) < drain_weight (tg_sys s))"
proof (cases "calm (tg_sys s) \<and> (\<forall>i. in_air (tg_sys s) i \<longrightarrow> tg_clock s + 1 \<le> tg_due s i)")
  case True
  then show ?thesis using tg_delay [of 1 s] by auto
next
  case False
  then obtain l u where st: "gs_step (tg_sys s) l u" "drain_weight u < drain_weight (tg_sys s)"
    using busy_drains [OF inv] by blast
  from tg_act [OF st(1)] show ?thesis by (intro disjI2 exI conjI) (assumption, simp add: st(2))
qed

section \<open>Properties\<close>

text \<open>A run of the gateway at one instant is a timed run without delays.\<close>

lemma tg_instant:
  assumes "exec gs_step s ls u" and "tg_sys x = s" and "\<forall>i < length (gs_handlers s). tg_arrived x i = tg_clock x"
  shows "\<exists>y ks. exec tg_step x ks y \<and> tg_sys y = u \<and> tg_clock y = tg_clock x
     \<and> (\<forall>i < length (gs_handlers u). tg_arrived y i = tg_clock x)"
  using assms
proof (induction rule: exec.induct)
  case (exec_snoc ls t l u)
  then obtain y ks where y: "exec tg_step x ks y" "tg_sys y = t" "tg_clock y = tg_clock x"
    "\<forall>i < length (gs_handlers t). tg_arrived y i = tg_clock x" by blast
  then have "tg_step y (TAct l) (tg_after u y)" using exec_snoc(2) by (intro tg_act) simp
  from exec.exec_snoc [OF y(1) this] y(2-4) show ?case
    by (intro exI [of _ "tg_after u y"] exI [of _ "ks @ [TAct l]"]) simp
qed auto

definition ex_timed :: timed_gateway where
  "ex_timed = \<lparr>tg_sys = gateway_new, tg_clock = 0, tg_due = (\<lambda>i. 0), tg_arrived = (\<lambda>i. 0), tg_born = (\<lambda>p. 0)\<rparr>"

lemma ex_timed_init: "tg_init ex_timed"
  by (simp add: tg_init_def ex_timed_def)

definition ex_frozen :: gateway_system where
  "ex_frozen = ex_in (HWaiting 0) [AAir (ex_wire ''w1'')]"

text \<open>The only worker freezes: half a minute later the client still waits for the same call.\<close>

lemma ex_frozen_step: "gs_step ex_waiting (LCall 0 (ex_wire ''w1'') ex_request) ex_frozen"
proof -
  let ?ih = "\<lparr>ih_req = ex_request, assigned = ''w1'', attempts = 1, dispatched = 1, tried = {},
       claimed = False, ih_result = []\<rparr>"
  show ?thesis
    using ex_attempt [OF as_call [of "[ex_wire ''w1'']" 0 ?ih "ex_wire ''w1''", simplified], of 0 "[AStart (ex_wire ''w1'')]"]
    by (simp add: ex_waiting_def ex_frozen_def)
qed

lemma ex_frozen_run:
  "\<exists>s. reachable tg_init tg_step s \<and> tg_sys s = ex_frozen \<and> tg_clock s = attemptTimeout \<and> tg_arrived s 0 = 0"
proof -
  obtain y ks where y: "exec tg_step ex_timed ks y" "tg_sys y = ex_waiting" "tg_clock y = 0" "tg_arrived y 0 = 0"
    using tg_instant [OF ex_waiting_run, of ex_timed] by (auto simp: ex_timed_def gateway_new_def ex_waiting_def ex_gs_def)
  have air: "in_air ex_frozen i \<longleftrightarrow> i = 0" "\<not> in_air ex_waiting i" for i
    by (auto simp: in_air_def ex_frozen_def ex_waiting_def ex_gs_def)
  let ?z = "tg_after ex_frozen y" and ?l = "TAct (LCall 0 (ex_wire ''w1'') ex_request)"
  have st: "tg_step y ?l ?z" using ex_frozen_step y(2) by (intro tg_act) simp
  have z: "tg_sys ?z = ex_frozen" "tg_clock ?z = 0" "tg_due ?z 0 = attemptTimeout" "tg_arrived ?z 0 = 0"
    using y air by simp_all
  have "calm ex_frozen" by (simp add: calm_def ex_frozen_def ex_gs_def handler_calm_def ex_table_def)
  then have dl: "tg_step ?z (TDelay attemptTimeout) (?z\<lparr>tg_clock := tg_clock ?z + attemptTimeout\<rparr>)"
    using z by (intro tg_delay) (simp_all add: air attemptTimeout_pos del: tg_after_sel)
  have "exec tg_step ex_timed ((ks @ [?l]) @ [TDelay attemptTimeout]) (?z\<lparr>tg_clock := tg_clock ?z + attemptTimeout\<rparr>)"
    by (rule exec.exec_snoc, rule exec.exec_snoc, rule y(1), rule st, rule dl)
  then have "reachable tg_init tg_step (?z\<lparr>tg_clock := tg_clock ?z + attemptTimeout\<rparr>)"
    unfolding reachable_def using ex_timed_init by (intro exI conjI)
  with z show ?thesis by (intro exI [of _ "?z\<lparr>tg_clock := tg_clock ?z + attemptTimeout\<rparr>"]) simp
qed

lemma record_over_in_time:
  assumes "tg_inv s" and "heap (gs_tracker (tg_sys s)) p = Some ih" and "listed_in (tg_sys s) p \<or> busy (tg_sys s) p"
  shows "tg_clock s \<le> tg_born s p + maxAttempts * attemptTimeout"
proof -
  have "dispatched ih \<le> maxAttempts" using assms(1,2) by (auto simp: tg_inv_def gs_inv_def records_ok_def record_ok_def)
  then have "dispatched ih * attemptTimeout \<le> maxAttempts * attemptTimeout"
    using attemptTimeout_pos by (simp add: mult_right_mono)
  moreover have "tg_clock s \<le> tg_born s p + dispatched ih * attemptTimeout"
    using assms by (auto simp: tg_inv_def timely_def)
  ultimately show ?thesis by linarith
qed

lemma handler_over_in_time:
  assumes inv: "tg_inv s" and i: "i < length (gs_handlers (tg_sys s))" and run: "handler_running (gh_pc (gs_handlers (tg_sys s) ! i))"
  shows "tg_clock s \<le> tg_arrived s i + maxAttempts * attemptTimeout"
proof -
  let ?pc = "gh_pc (gs_handlers (tg_sys s) ! i)"
  have ot: "on_time s (tg_arrived s i) ?pc" using inv i by (simp add: tg_inv_def)
  have "tg_clock s \<le> tg_born s p + maxAttempts * attemptTimeout" if p: "holding p ?pc" for p
  proof -
    have ow: "owners_ok (tg_sys s)" using inv by (simp add: tg_inv_def gs_inv_def)
    have at: "handler_at i ?pc (tg_sys s)" using i by (simp add: handler_at_def)
    obtain ih where "heap (gs_tracker (tg_sys s)) p = Some ih" using owners_okD(2) [OF ow at p] by blast
    moreover have "listed_in (tg_sys s) p" using owners_okD(1) [OF ow at p] by (auto simp: listed_in_def ran_def)
    ultimately show ?thesis using record_over_in_time [OF inv] by blast
  qed
  then show ?thesis using ot run client_patience_pos by (cases ?pc) (auto simp: client_patience_def)
qed

text \<open>
  C6. A request is over within \<open>maxAttempts * attemptTimeout\<close>, 90 seconds, however many workers freeze, die or rejoin and however
  often the view changes: no handler runs longer than that after its arrival, so every client has been answered; and
  no attempt is still running longer than that after the request was registered, so a request leaves no goroutine behind.
  Only the time of computation inside the gateway is not counted.
\<close>

theorem requests_end_in_time:
  assumes "reachable tg_init tg_step s"
  shows "(\<forall>i < length (gs_handlers (tg_sys s)). handler_running (gh_pc (gs_handlers (tg_sys s) ! i)) \<longrightarrow>
        tg_clock s \<le> tg_arrived s i + maxAttempts * attemptTimeout)
     \<and> (\<forall>a \<in> set (gs_attempts (tg_sys s)). ga_pc a \<noteq> ADone \<longrightarrow>
        tg_clock s \<le> tg_born s (ga_ih a) + maxAttempts * attemptTimeout)"
proof (intro conjI allI ballI impI)
  have inv: "tg_inv s" by (rule tg.sinv_reachable [OF assms])
  show "tg_clock s \<le> tg_arrived s i + maxAttempts * attemptTimeout"
    if "i < length (gs_handlers (tg_sys s))" "handler_running (gh_pc (gs_handlers (tg_sys s) ! i))" for i
    by (rule handler_over_in_time [OF inv that])
  show "tg_clock s \<le> tg_born s (ga_ih a) + maxAttempts * attemptTimeout"
    if a: "a \<in> set (gs_attempts (tg_sys s))" "ga_pc a \<noteq> ADone" for a
  proof -
    have "ga_ih a \<in> dom (heap (gs_tracker (tg_sys s)))" using inv a(1) by (auto simp: tg_inv_def gs_inv_def refs_ok_def)
    then show ?thesis using record_over_in_time [OF inv] a by (auto simp: busy_def)
  qed
qed

text \<open>A handler and its attempt, half a minute after the request's arrival.\<close>

theorem requests_end_in_time_witness:
  "\<exists>s. reachable tg_init tg_step s \<and> handler_at 0 (HWaiting 0) (tg_sys s) \<and> tg_arrived s 0 = 0
     \<and> tg_clock s = 30 * 1000000000 \<and> tg_clock s \<le> tg_arrived s 0 + maxAttempts * attemptTimeout"
proof -
  obtain s where s: "reachable tg_init tg_step s" "tg_sys s = ex_frozen" "tg_clock s = attemptTimeout" "tg_arrived s 0 = 0"
    using ex_frozen_run by blast
  then have h: "handler_at 0 (HWaiting 0) (tg_sys s)" by (simp add: ex_frozen_def ex_gs_def handler_at_def)
  then have "0 < length (gs_handlers (tg_sys s))" "handler_running (gh_pc (gs_handlers (tg_sys s) ! 0))"
    by (simp_all add: handler_at_def)
  then have "tg_clock s \<le> tg_arrived s 0 + maxAttempts * attemptTimeout"
    using requests_end_in_time [OF s(1)] by blast
  with s h show ?thesis by (auto simp: attemptTimeout_def)
qed

text \<open>
  C7. Time never stops the gateway and the gateway never stops time: from every reachable state either time passes, or a
  goroutine takes a step that lowers the potential of \<open>Gateway_Drain\<close>; so between two delays only finitely many steps of
  the running requests fit, and the bound on a client's wait is about runs that go on.
\<close>

theorem gateway_time_diverges:
  assumes "reachable tg_init tg_step s"
  shows "(\<exists>d t. tg_step s (TDelay d) t)
     \<or> (\<exists>l t. tg_step s (TAct l) t \<and> drain_weight (tg_sys t) < drain_weight (tg_sys s))"
  by (rule time_or_drain) (use tg.sinv_reachable [OF assms] in \<open>simp add: tg_inv_def\<close>)

theorem gateway_time_diverges_witness:
  "(\<exists>d t. tg_step ex_timed (TDelay d) t)
     \<or> (\<exists>l t. tg_step ex_timed (TAct l) t \<and> drain_weight (tg_sys t) < drain_weight (tg_sys ex_timed))"
proof (rule gateway_time_diverges)
  show "reachable tg_init tg_step ex_timed" unfolding reachable_def using ex_timed_init exec_nil by blast
qed

end
