(* ===== verification/Deployment.thy ===== *)
theory Deployment
  imports Detection Gateway_Time
begin

text \<open>
  The control plane and the gateway deployed together: both step relations interleaved, and the one message between them,
  the answer to \<^verbatim>\<open>ListWorkers\<close> (\<^verbatim>\<open>pollOnce\<close> in \<^verbatim>\<open>internal/gateway/gateway.go\<close> calls \<^verbatim>\<open>Server.ListWorkers\<close> in
  \<^verbatim>\<open>internal/controlplane/server.go\<close>), in flight for any time, delivered or lost. Workers appear as the callers of the
  control plane and the targets of the gateway's RPCs.
\<close>

section \<open>The deployed system\<close>

record deployment =
  dp_cp :: control_plane
  dp_gw :: gateway_system
  dp_reply :: "list_workers_response option"

datatype dp_label =
    DpControl cp_label
  | DpGateway gs_label
  | DpListed list_workers_response
  | DpDelivered
  | DpLost

text \<open>The poll loop has got an answer: the step of the gateway that the control plane feeds.\<close>

definition fetches :: "gateway_system \<Rightarrow> gateway_system \<Rightarrow> bool" where
  "fetches s t \<longleftrightarrow> gs_poll s = PIdle \<and> (case gs_poll t of PFetched fresh \<Rightarrow> True | _ \<Rightarrow> False)"

inductive dp_step :: "float_env \<Rightarrow> deployment \<Rightarrow> dp_label \<Rightarrow> deployment \<Rightarrow> bool"
  for fe :: float_env and s :: deployment where
  dp_control: "cp_step fe (dp_cp s) l c \<Longrightarrow> dp_step fe s (DpControl l) (s\<lparr>dp_cp := c\<rparr>)"
| dp_listed: "gs_poll (dp_gw s) = PIdle \<Longrightarrow> cp_step fe (dp_cp s) (ListWorkersL resp) c \<Longrightarrow>
    dp_step fe s (DpListed resp) (s\<lparr>dp_cp := c, dp_reply := Some resp\<rparr>)"
| dp_gateway: "gs_step (dp_gw s) l g \<Longrightarrow> \<not> fetches (dp_gw s) g \<Longrightarrow> dp_step fe s (DpGateway l) (s\<lparr>dp_gw := g\<rparr>)"
| dp_delivered: "dp_reply s = Some resp \<Longrightarrow> gs_step (dp_gw s) LTau g \<Longrightarrow> g = (dp_gw s)\<lparr>gs_poll := PFetched (lw_Workers resp)\<rparr> \<Longrightarrow>
    gs_poll (dp_gw s) = PIdle \<Longrightarrow> dp_step fe s DpDelivered (s\<lparr>dp_gw := g, dp_reply := None\<rparr>)"
| dp_lost: "dp_step fe s DpLost (s\<lparr>dp_reply := None\<rparr>)"

definition dp_init :: "deployment \<Rightarrow> bool" where
  "dp_init s \<longleftrightarrow> cp_init (dp_cp s) \<and> gs_init (dp_gw s) \<and> dp_reply s = None"

section \<open>The workers a gateway may call\<close>

fun attempt_targets :: "attempt_pc \<Rightarrow> wire_worker set" where
  "attempt_targets (AStart w) = {w}"
| "attempt_targets (AAir w) = {w}"
| "attempt_targets (AFailed w e) = {w}"
| "attempt_targets (ARetry w e) = {w}"
| "attempt_targets (ACands w e cs) = insert w (set cs)"
| "attempt_targets pc = {}"

fun handler_targets :: "handler_pc \<Rightarrow> wire_worker set" where
  "handler_targets (HPicked w) = {w}"
| "handler_targets (HRegistered p w) = {w}"
| "handler_targets pc = {}"

fun poll_targets :: "poll_pc \<Rightarrow> wire_worker set" where
  "poll_targets (PFetched ws) = set ws"
| "poll_targets (PCandidates d ws) = set ws"
| "poll_targets (PFiring js) = j_target ` set js"
| "poll_targets pp = {}"

definition targets :: "gateway_system \<Rightarrow> wire_worker set" where
  "targets s = set (gs_view s) \<union> (\<Union>a \<in> set (gs_attempts s). attempt_targets (ga_pc a))
     \<union> (\<Union>h \<in> set (gs_handlers s). handler_targets (gh_pc h)) \<union> poll_targets (gs_poll s)"

definition poll_chooses :: "poll_pc \<Rightarrow> bool" where
  "poll_chooses pp \<longleftrightarrow> (\<forall>d ws. pp = PCandidates d ws \<longrightarrow> ws \<noteq> [])"

lemma targets_frame [simp]:
  "targets (set_record p ih s) = targets s" "targets (s\<lparr>gs_tracker := t\<rparr>) = targets s"
  by (simp_all add: targets_def set_record_def)

lemma targets_launch: "targets (launch p w s) = insert w (targets s)"
  by (auto simp: targets_def launch_def)

lemma targets_set_handler: "targets (set_handler i pc s) \<subseteq> targets s \<union> handler_targets pc"
  by (auto simp: targets_def set_handler_def dest!: set_update_subset_insert [THEN subsetD])

lemma targets_set_attempt: "targets (set_attempt i pc s) \<subseteq> targets s \<union> attempt_targets pc"
  by (auto simp: targets_def set_attempt_def dest!: set_update_subset_insert [THEN subsetD])

lemma handler_targets_in: "handler_at i pc s \<Longrightarrow> handler_targets pc \<subseteq> targets s"
  by (force simp: targets_def handler_at_def dest: nth_mem)

lemma attempt_targets_in:
  "i < length (gs_attempts s) \<Longrightarrow> gs_attempts s ! i = \<lparr>ga_ih = p, ga_pc = pc\<rparr> \<Longrightarrow> attempt_targets pc \<subseteq> targets s"
  by (force simp: targets_def dest: nth_mem)

lemma attempt_step_targets:
  assumes "attempt_step view p ih pc l ih' pc'"
  shows "attempt_targets pc' \<subseteq> attempt_targets pc \<union> set view"
    and "l = LCall q w req \<Longrightarrow> w \<in> attempt_targets pc"
proof -
  show "attempt_targets pc' \<subseteq> attempt_targets pc \<union> set view" using assms
  proof cases
    case (as_replace w candidates draw replacement ex d err)
    then show ?thesis using locked_replaced(5) [OF as_replace(4)] by simp
  qed (use set_healthyExcept in auto)
  show "l = LCall q w req \<Longrightarrow> w \<in> attempt_targets pc" using assms by cases auto
qed

lemma targets_step:
  assumes wf: "tracker_wf (gs_tracker s)" and step: "gs_step s l t" and pc: "poll_chooses (gs_poll s)" and nf: "\<not> fetches s t"
  shows "targets t \<subseteq> targets s \<and> poll_chooses (gs_poll t)"
proof -
  have mv: "targets (set_handler i pc' u) \<subseteq> targets s" if "targets u = targets s" "handler_targets pc' \<subseteq> targets s" for i pc' u
    using targets_set_handler [of i pc' u] that by blast
  have view: "set (gs_view s) \<subseteq> targets s" and polled: "poll_targets (gs_poll s) \<subseteq> targets s" by (auto simp: targets_def)
  show ?thesis using step
  proof cases
    case (gs_attempt i p q ih ih' q')
    have "targets t \<subseteq> targets s"
      using targets_set_attempt [of i q' s] attempt_step_targets(1) [OF gs_attempt(5)] attempt_targets_in [OF gs_attempt(2,3)]
        view gs_attempt(1) by auto
    moreover have "gs_poll t = gs_poll s" using gs_attempt(1) by (simp add: set_record_def set_attempt_def)
    ultimately show ?thesis using pc by simp
  next
    case (gs_poll_claim departed healthy ks draws t' jobs over)
    have ne: "healthy \<noteq> []" using pc gs_poll_claim(3) by (auto simp: poll_chooses_def)
    have "j_target ` set jobs \<subseteq> set healthy"
      using reroute_claim_spec(4) [OF wf gs_poll_claim(4,5)] ne by auto
    then show ?thesis using gs_poll_claim(2,3) by (auto simp: targets_def poll_chooses_def)
  next
    case (gs_pick i draw w)
    have "w \<in> targets s" using pickWorker_Inr [OF gs_pick(5)] view by auto
    then show ?thesis using mv [of s "HPicked w" i] gs_pick(2) pc by simp
  next
    case (gs_register i w p t')
    then show ?thesis
      using mv [of "s\<lparr>gs_tracker := t'\<rparr>" "HRegistered p w" i] handler_targets_in [OF gs_register(3)] pc by simp
  next
    case (gs_launch i p w)
    have "targets t = insert w (targets (set_handler i (HWaiting p) s))" unfolding gs_launch(2) by (rule targets_launch)
    then show ?thesis
      using mv [of s "HWaiting p" i] handler_targets_in [OF gs_launch(3)] gs_launch(2) pc by (simp add: launch_def)
  next
    case (gs_poll_fire j js)
    then show ?thesis using polled by (auto simp: targets_def launch_def poll_chooses_def)
  next
    case (gs_poll_snapshot departed)
    then show ?thesis using view set_healthyExcept [of departed "gs_view s"] by (auto simp: targets_def poll_chooses_def)
  next
    case (gs_poll_fetch resp)
    then show ?thesis using nf by (simp add: fetches_def)
  next
    case (gs_receive i p ih r ih')
    then show ?thesis using mv [of s "HReturning p (outcome_of r)" i] pc by (simp add: set_record_def)
  next
    case (gs_arrive req)
    then show ?thesis using pc by (auto simp: targets_def)
  qed (use mv pc in \<open>auto simp: targets_def poll_chooses_def\<close>)
qed

lemma call_target:
  assumes "gs_step s (LCall p w req) t"
  shows "w \<in> targets s"
  using assms
proof cases
  case (gs_attempt i q ih pc ih' pc')
  then show ?thesis using attempt_step_targets(2) attempt_targets_in by (metis subsetD)
qed

section \<open>Where they come from\<close>

text \<open>Something happens at the control plane that ends a registration of \<open>wid\<close>.\<close>

fun ends_registration :: "string \<Rightarrow> dp_label \<Rightarrow> bool" where
  "ends_registration wid (DpControl (RegisterL q)) = (reg_WorkerId q = wid)"
| "ends_registration wid (DpControl (DeregisterL q)) = (dereg_WorkerId q = wid)"
| "ends_registration wid (DpControl (EvictL ev)) = (WorkerID ev = wid)"
| "ends_registration wid l = False"

definition standing :: "dp_label list \<Rightarrow> string \<Rightarrow> string \<Rightarrow> bool" where
  "standing ls wid addr \<longleftrightarrow> (\<exists>a q b. ls = a @ DpControl (RegisterL q) # b \<and> reg_WorkerId q = wid \<and> reg_Address q = addr
     \<and> (\<forall>l \<in> set b. \<not> ends_registration wid l))"

definition listed :: "dp_label list \<Rightarrow> wire_worker \<Rightarrow> bool" where
  "listed ls w \<longleftrightarrow> (\<exists>a resp b. ls = a @ DpListed resp # b \<and> w \<in> set (lw_Workers resp)
     \<and> standing a (wi_WorkerId w) (wi_Address w))"

lemma standing_snoc: "standing ls wid addr \<Longrightarrow> \<not> ends_registration wid l \<Longrightarrow> standing (ls @ [l]) wid addr"
  unfolding standing_def by (elim exE conjE) (intro exI conjI, simp, auto)

lemma standing_new: "standing (ls @ [DpControl (RegisterL q)]) (reg_WorkerId q) (reg_Address q)"
  unfolding standing_def by (intro exI conjI) (rule refl, auto)

lemma listed_snoc: "listed ls w \<Longrightarrow> listed (ls @ [l]) w"
  unfolding listed_def by (elim exE conjE) (intro exI conjI, simp, auto)

lemma listed_new:
  "w \<in> set (lw_Workers resp) \<Longrightarrow> standing ls (wi_WorkerId w) (wi_Address w) \<Longrightarrow> listed (ls @ [DpListed resp]) w"
  unfolding listed_def by (intro exI conjI) (rule refl, auto)

definition reg_standing :: "dp_label list \<Rightarrow> worker_registry \<Rightarrow> bool" where
  "reg_standing ls r \<longleftrightarrow> (\<forall>wid i. workers r wid = Some i \<longrightarrow> standing ls wid (Addr i))"

lemma reg_standing_mono:
  assumes "reg_standing ls r"
    and "\<And>wid i. workers r' wid = Some i \<Longrightarrow> \<not> ends_registration wid l \<and> (\<exists>j. workers r wid = Some j \<and> Addr j = Addr i)"
  shows "reg_standing (ls @ [l]) r'"
  unfolding reg_standing_def using assms standing_snoc by (metis reg_standing_def)

lemma reg_standing_step:
  assumes old: "reg_standing ls (cp_reg s)" and step: "cp_step fe s l t"
  shows "reg_standing (ls @ [DpControl l]) (cp_reg t)"
  using step
proof cases
  case (cp_register req resp r')
  have r': "workers r' = (workers (cp_reg s))(reg_WorkerId req \<mapsto>
      fresh_info (reg_WorkerId req) (reg_Address req) (reg_Capacity req) (cp_clock s))"
    using cp_register(3) by (auto simp: srv_Register_def)
  have "standing (ls @ [DpControl l]) wid (Addr i)" if "workers r' wid = Some i" for wid i
  proof (cases "wid = reg_WorkerId req")
    case True
    then show ?thesis using that r' cp_register(1) standing_new [of ls req] by (auto simp: fresh_info_def)
  next
    case False
    then show ?thesis using that r' cp_register(1) old by (auto simp: reg_standing_def intro!: standing_snoc)
  qed
  then show ?thesis using cp_register(2) by (simp add: reg_standing_def)
next
  case (cp_heartbeat req res r')
  then show ?thesis
    by (intro reg_standing_mono [OF old])
      (auto simp: srv_Heartbeat_def Heartbeat_def Let_def split: option.splits prod.splits if_splits)
next
  case (cp_deregister req resp r')
  then show ?thesis
    by (intro reg_standing_mono [OF old]) (auto simp: srv_Deregister_def Deregister_def Let_def split: if_splits)
next
  case (cp_evict ev evs)
  then show ?thesis by (intro reg_standing_mono [OF old]) (auto split: if_splits)
qed (auto intro!: reg_standing_mono [OF old])

text \<open>The invariant of the deployment, over the trace.\<close>

definition dp_inv :: "dp_label list \<Rightarrow> deployment \<Rightarrow> bool" where
  "dp_inv ls s \<longleftrightarrow> cp_inv (dp_cp s) \<and> gs_inv (dp_gw s) \<and> poll_chooses (gs_poll (dp_gw s))
     \<and> reg_standing ls (cp_reg (dp_cp s))
     \<and> (\<forall>w \<in> targets (dp_gw s). listed ls w)
     \<and> (\<forall>resp. dp_reply s = Some resp \<longrightarrow> (\<forall>w \<in> set (lw_Workers resp). listed ls w))"

lemma dp_inv_init: "dp_init s \<Longrightarrow> dp_inv [] s"
  using cp_inv_init gs_inv_init
  by (auto simp: dp_init_def dp_inv_def gs_init_def gateway_new_def targets_def poll_chooses_def reg_standing_def
      cp_init_def cp_start_def NewWorkerRegistry_def)

lemma listing_standing:
  assumes "reg_wf r" and "iterates (workers r) ks" and "srv_ListWorkers ks r = Inr resp" and "reg_standing ls r"
    and "w \<in> set (lw_Workers resp)"
  shows "standing ls (wi_WorkerId w) (wi_Address w)"
proof -
  obtain i where i: "i \<in> set (ListWorkers ks r)" "w = to_wire i"
    using assms(3,5) by (auto simp: srv_ListWorkers_def)
  then have "workers r (ID i) = Some i" using reg.snapshot_mem [OF assms(1,2)] by simp
  with assms(4) i(2) show ?thesis by (simp add: reg_standing_def to_wire_def)
qed

lemma dp_inv_step:
  assumes inv: "dp_inv ls s" and step: "dp_step fe s l t"
  shows "dp_inv (ls @ [l]) t"
proof -
  have cp: "cp_inv (dp_cp s)" and gs: "gs_inv (dp_gw s)" and pc: "poll_chooses (gs_poll (dp_gw s))"
    and rg: "reg_standing ls (cp_reg (dp_cp s))" and tg: "\<And>w. w \<in> targets (dp_gw s) \<Longrightarrow> listed ls w"
    and rp: "\<And>resp w. dp_reply s = Some resp \<Longrightarrow> w \<in> set (lw_Workers resp) \<Longrightarrow> listed ls w"
    using inv by (auto simp: dp_inv_def)
  have keep: "reg_standing (ls @ [l]) (cp_reg (dp_cp s))" if "\<And>wid. \<not> ends_registration wid l"
    by (rule reg_standing_mono [OF rg]) (use that in auto)
  show ?thesis using step
  proof cases
    case (dp_control l' c)
    then show ?thesis
      using cp_inv_step [OF cp] reg_standing_step [OF rg] gs pc tg rp by (auto simp: dp_inv_def intro: listed_snoc)
  next
    case (dp_listed resp c)
    from dp_listed(4) obtain ks where c: "c = dp_cp s" "iterates (workers (cp_reg (dp_cp s))) ks"
      "srv_ListWorkers ks (cp_reg (dp_cp s)) = Inr resp" by (cases rule: cp_step.cases) auto
    have "reg_wf (cp_reg (dp_cp s))" using cp by (simp add: cp_inv_def)
    from listing_standing [OF this c(2,3) rg] have "listed (ls @ [l]) w" if "w \<in> set (lw_Workers resp)" for w
      unfolding dp_listed(1) using that by (intro listed_new)
    then show ?thesis using dp_listed(1,2) c(1) cp gs pc tg keep by (auto simp: dp_inv_def intro: listed_snoc)
  next
    case (dp_gateway l' g)
    have wf: "tracker_wf (gs_tracker (dp_gw s))" using gs by (simp add: gs_inv_def refs_ok_def)
    have g: "targets g \<subseteq> targets (dp_gw s)" "poll_chooses (gs_poll g)"
      using targets_step [OF wf dp_gateway(3) pc dp_gateway(4)] by blast+
    then have "listed (ls @ [l]) w" if "w \<in> targets g" for w using that tg by (blast intro: listed_snoc)
    then show ?thesis
      using dp_gateway(1,2) g(2) gs_inv_step [OF gs dp_gateway(3)] cp rp keep by (auto simp: dp_inv_def intro: listed_snoc)
  next
    case (dp_delivered resp g)
    have "targets g \<subseteq> targets (dp_gw s) \<union> set (lw_Workers resp)" by (auto simp: dp_delivered(5) targets_def)
    moreover have "poll_chooses (gs_poll g)" by (simp add: dp_delivered(5) poll_chooses_def)
    ultimately show ?thesis
      using dp_delivered(1,2) gs_inv_step [OF gs dp_delivered(4)] cp tg rp [OF dp_delivered(3)] keep
      by (auto simp: dp_inv_def intro: listed_snoc)
  next
    case dp_lost
    then show ?thesis using cp gs pc tg keep by (auto simp: dp_inv_def intro: listed_snoc)
  qed
qed

interpretation dp: trace_invariant dp_init "dp_step fe" dp_inv
  by unfold_locales (auto intro: dp_inv_init dp_inv_step)

section \<open>Properties\<close>

text \<open>A worker registers, the gateway polls, a request arrives and is sent to it.\<close>

definition ex_join :: register_request where
  "ex_join = \<lparr>reg_WorkerId = ''w1'', reg_Address = ''w1'', reg_Capacity = 10\<rparr>"

definition ex_plane :: control_plane where
  "ex_plane = (cp_start controlplane_config 0)\<lparr>cp_reg := snd (srv_Register 0 ex_join NewWorkerRegistry)\<rparr>"

definition ex_deployed :: "control_plane \<Rightarrow> gateway_system \<Rightarrow> list_workers_response option \<Rightarrow> deployment" where
  "ex_deployed c g reply = \<lparr>dp_cp = c, dp_gw = g, dp_reply = reply\<rparr>"

abbreviation ex_dp_run :: "dp_label list" where
  "ex_dp_run \<equiv> [DpControl (RegisterL ex_join), DpListed \<lparr>lw_Workers = [ex_wire ''w1'']\<rparr>, DpDelivered,
     DpGateway LTau, DpGateway LTau, DpGateway LTau, DpGateway LTau, DpGateway LTau]"

lemma ex_dp_gateway:
  assumes "gs_step g l g'" and "\<And>fresh. gs_poll g' \<noteq> PFetched fresh"
  shows "dp_step fe (ex_deployed c g r) (DpGateway l) (ex_deployed c g' r)"
  using dp_gateway [of "ex_deployed c g r" l g' fe] assms by (auto simp: ex_deployed_def fetches_def split: poll_pc.splits)

lemma ex_dp_start:
  "dp_init (ex_deployed (cp_start controlplane_config 0) gateway_new None)"
  unfolding dp_init_def cp_init_def gs_init_def
  by (auto simp: ex_deployed_def intro!: exI [of _ controlplane_config] exI [of _ 0]) (simp add: controlplane_config_def)

lemma ex_dp_listing:
  "dp_step fe (ex_deployed (cp_start controlplane_config 0) gateway_new None) (DpControl (RegisterL ex_join))
     (ex_deployed ex_plane gateway_new None)"
  "dp_step fe (ex_deployed ex_plane gateway_new None) (DpListed \<lparr>lw_Workers = [ex_wire ''w1'']\<rparr>)
     (ex_deployed ex_plane gateway_new (Some \<lparr>lw_Workers = [ex_wire ''w1'']\<rparr>))"
  "dp_step fe (ex_deployed ex_plane gateway_new (Some \<lparr>lw_Workers = [ex_wire ''w1'']\<rparr>)) DpDelivered
     (ex_deployed ex_plane ex_fetched None)"
proof -
  have "cp_step fe (cp_start controlplane_config 0) (RegisterL ex_join) ex_plane"
    using cp_register [of "cp_start controlplane_config 0" ex_join] by (simp add: ex_plane_def cp_start_def srv_Register_def)
  then show "dp_step fe (ex_deployed (cp_start controlplane_config 0) gateway_new None) (DpControl (RegisterL ex_join))
      (ex_deployed ex_plane gateway_new None)"
    using dp_control [of fe "ex_deployed (cp_start controlplane_config 0) gateway_new None"] by (simp add: ex_deployed_def)
  have ws: "workers (cp_reg ex_plane) = [''w1'' \<mapsto> fresh_info ''w1'' ''w1'' 10 0]"
    by (simp add: ex_plane_def srv_Register_def ex_join_def NewWorkerRegistry_def)
  have "srv_ListWorkers [''w1''] (cp_reg ex_plane) = Inr \<lparr>lw_Workers = [ex_wire ''w1'']\<rparr>"
    by (simp add: srv_ListWorkers_def ListWorkers_def ws range_values_def to_wire_def fresh_info_def ex_wire_def)
  then have "cp_step fe ex_plane (ListWorkersL \<lparr>lw_Workers = [ex_wire ''w1'']\<rparr>) ex_plane"
    by (intro cp_list [of _ "[''w1'']"]) (simp_all add: iterates_def ws)
  then show "dp_step fe (ex_deployed ex_plane gateway_new None) (DpListed \<lparr>lw_Workers = [ex_wire ''w1'']\<rparr>)
      (ex_deployed ex_plane gateway_new (Some \<lparr>lw_Workers = [ex_wire ''w1'']\<rparr>))"
    using dp_listed [of "ex_deployed ex_plane gateway_new None"] by (simp add: ex_deployed_def gateway_new_def)
  show "dp_step fe (ex_deployed ex_plane gateway_new (Some \<lparr>lw_Workers = [ex_wire ''w1'']\<rparr>)) DpDelivered
      (ex_deployed ex_plane ex_fetched None)"
    using dp_delivered [of "ex_deployed ex_plane gateway_new (Some \<lparr>lw_Workers = [ex_wire ''w1'']\<rparr>)"
        "\<lparr>lw_Workers = [ex_wire ''w1'']\<rparr>" ex_fetched fe] ex_first_poll(1)
    by (simp add: ex_deployed_def gateway_new_def ex_fetched_def)
qed

text \<open>While the poll loop is between two polls, a run of the gateway is one of the deployment.\<close>

lemma ex_dp_idle:
  "exec idle_step g ls g' \<Longrightarrow> exec (dp_step fe) (ex_deployed c g r) (map DpGateway ls) (ex_deployed c g' r)"
proof (induction rule: exec.induct)
  case (exec_snoc ls t l u)
  then have "dp_step fe (ex_deployed c t r) (DpGateway l) (ex_deployed c u r)"
    by (intro ex_dp_gateway) (simp_all add: idle_step_def)
  with exec_snoc.IH show ?case by auto
qed auto

lemma ex_dp_waiting:
  "exec (dp_step fe) (ex_deployed (cp_start controlplane_config 0) gateway_new None) ex_dp_run (ex_deployed ex_plane ex_waiting None)"
proof -
  let ?d = "\<lambda>g. ex_deployed ex_plane g None"
  have "idle_step ex_fetched LTau ex_viewed" "idle_step ex_viewed LTau (ex_at HStart)"
    using ex_first_poll(2,3) by (simp_all add: idle_step_def ex_viewed_def ex_gs_def gateway_new_def)
  moreover have "idle_step (ex_at HStart) LTau (ex_at (HPicked (ex_wire ''w1'')))"
    "idle_step (ex_at (HPicked (ex_wire ''w1''))) LTau (ex_in (HRegistered 0 (ex_wire ''w1'')) [])"
    "idle_step (ex_in (HRegistered 0 (ex_wire ''w1'')) []) LTau ex_waiting"
    using ex_first_dispatch by (simp_all add: idle_step_def ex_gs_def ex_waiting_def)
  ultimately have "exec idle_step ex_fetched [LTau, LTau, LTau, LTau, LTau] ex_waiting"
    by (blast intro: idle_cons)
  from ex_dp_idle [OF this, of fe ex_plane None]
  have "exec (dp_step fe) (?d ex_fetched) (map DpGateway [LTau, LTau, LTau, LTau, LTau]) (?d ex_waiting)" .
  from exec_cons [OF ex_dp_listing(1) exec_cons [OF ex_dp_listing(2) exec_cons [OF ex_dp_listing(3) this]]]
  show ?thesis by simp
qed

lemma ex_dp_served:
  "\<exists>t. exec (dp_step fe) (ex_deployed (cp_start controlplane_config 0) gateway_new None) (ex_dp_run @ map DpGateway ex_served) t"
proof -
  obtain g where "exec idle_step ex_waiting ex_served g" using ex_served_idle ..
  from exec_append [OF ex_dp_idle [OF this] ex_dp_waiting] show ?thesis ..
qed

lemma calls_authorised:
  assumes "dp_init s" and "exec (dp_step fe) s (a @ DpGateway (LCall p w req) # b) t"
  shows "listed a w"
proof -
  obtain u v where u: "exec (dp_step fe) s a u" "dp_step fe u (DpGateway (LCall p w req)) v"
    using exec_split [of "dp_step fe" s "a @ [DpGateway (LCall p w req)]" b t] assms(2) by (auto elim!: exec_snocE)
  have "w \<in> targets (dp_gw u)" using u(2) by cases (auto intro: call_target)
  moreover have "dp_inv a u" by (rule dp.tinv_exec [OF u(1) assms(1)])
  ultimately show ?thesis by (simp add: dp_inv_def)
qed

text \<open>The gateway's part of a run of the deployment is a run of the gateway.\<close>

fun gateway_part :: "dp_label \<Rightarrow> gs_label list" where
  "gateway_part (DpGateway l) = [l]"
| "gateway_part DpDelivered = [LTau]"
| "gateway_part l = []"

lemma gateway_run:
  "exec (dp_step fe) s ls t \<Longrightarrow> exec gs_step (dp_gw s) (concat (map gateway_part ls)) (dp_gw t)"
proof (induction rule: exec.induct)
  case (exec_snoc ls t l u)
  from exec_snoc(2) show ?case
    by cases (use exec_snoc.IH in \<open>auto intro: exec.exec_snoc\<close>)
qed auto

lemma gateway_part_mem:
  "l \<noteq> LTau \<Longrightarrow> l \<in> set (concat (map gateway_part ls)) \<longleftrightarrow> DpGateway l \<in> set ls"
proof (induction ls)
  case (Cons x ls)
  then show ?case by (cases x) auto
qed simp

text \<open>
  C18. Every call goes where its worker said. Whenever the gateway calls a worker, on the first dispatch, a fast retry or a reroute, the
  worker had registered that id with that address at the control plane, the gateway had since been listed it, and between the
  two the registration stood: no other registration of the id, no deregistration and no eviction. However
  late the listing is delivered, no address is ever invented, mixed up between workers, or taken from a
  registration that was over when it was listed.
\<close>

theorem calls_go_to_registered_workers:
  assumes "dp_init s" and "exec (dp_step fe) s (a @ DpGateway (LCall p w req) # b) t"
  shows "\<exists>before q between resp after. a = before @ DpControl (RegisterL q) # between @ DpListed resp # after
     \<and> reg_WorkerId q = wi_WorkerId w \<and> reg_Address q = wi_Address w \<and> w \<in> set (lw_Workers resp)
     \<and> (\<forall>l \<in> set between. \<not> ends_registration (wi_WorkerId w) l)"
proof -
  obtain c resp d where l: "a = c @ DpListed resp # d" "w \<in> set (lw_Workers resp)" "standing c (wi_WorkerId w) (wi_Address w)"
    using calls_authorised [OF assms] by (auto simp: listed_def)
  obtain e q f where "c = e @ DpControl (RegisterL q) # f" "reg_WorkerId q = wi_WorkerId w" "reg_Address q = wi_Address w"
    "\<forall>l \<in> set f. \<not> ends_registration (wi_WorkerId w) l" using l(3) by (auto simp: standing_def)
  with l show ?thesis by (intro exI [of _ e] exI [of _ q] exI [of _ f] exI [of _ resp] exI [of _ d]) simp
qed

theorem calls_go_to_registered_workers_witness:
  "\<exists>before q between resp after. ex_dp_run = before @ DpControl (RegisterL q) # between @ DpListed resp # after
     \<and> reg_WorkerId q = wi_WorkerId (ex_wire ''w1'') \<and> reg_Address q = wi_Address (ex_wire ''w1'')
     \<and> ex_wire ''w1'' \<in> set (lw_Workers resp) \<and> (\<forall>l \<in> set between. \<not> ends_registration (wi_WorkerId (ex_wire ''w1'')) l)"
proof -
  obtain t where "exec (dp_step exact_env) (ex_deployed (cp_start controlplane_config 0) gateway_new None)
      (ex_dp_run @ DpGateway (LCall 0 (ex_wire ''w1'') ex_request) # map DpGateway (tl ex_served)) t"
    using ex_dp_served by (auto simp: ex_served_def)
  from calls_go_to_registered_workers [OF ex_dp_start this] show ?thesis .
qed

text \<open>
  C19. Every answer comes from the fleet. In the deployed system a response that a client gets was given by a worker, to a call with
  exactly this client's request, and that worker had registered the id and the address the call went to, at
  the control plane, before the call was made.
\<close>

theorem answers_come_from_the_fleet:
  assumes "dp_init s" and "exec (dp_step fe) s ls t" and "DpGateway (LReturn req (Inr x)) \<in> set ls"
  shows "\<exists>p w resp a b q. x = Some resp \<and> DpGateway (LReply p w (Inr resp)) \<in> set ls
     \<and> ls = a @ DpGateway (LCall p w req) # b \<and> DpControl (RegisterL q) \<in> set a
     \<and> reg_WorkerId q = wi_WorkerId w \<and> reg_Address q = wi_Address w"
proof -
  have run: "exec gs_step gateway_new (concat (map gateway_part ls)) (dp_gw t)"
    using gateway_run [OF assms(2)] assms(1) by (simp add: dp_init_def gs_init_def)
  have "LReturn req (Inr x) \<in> set (concat (map gateway_part ls))" using assms(3) by (simp only: gateway_part_mem gs_label.simps not_False_eq_True)
  from genuine_response [OF run this] obtain p w resp where g: "x = Some resp" "DpGateway (LCall p w req) \<in> set ls"
    "DpGateway (LReply p w (Inr resp)) \<in> set ls" by (auto simp only: gateway_part_mem gs_label.simps not_False_eq_True)
  then obtain a b where ab: "ls = a @ DpGateway (LCall p w req) # b" by (meson split_list)
  from calls_authorised [OF assms(1) assms(2) [unfolded ab]] obtain c resp' d where
    "a = c @ DpListed resp' # d" "standing c (wi_WorkerId w) (wi_Address w)" by (auto simp: listed_def)
  then obtain q where "DpControl (RegisterL q) \<in> set a" "reg_WorkerId q = wi_WorkerId w" "reg_Address q = wi_Address w"
    unfolding standing_def by auto blast
  with g ab show ?thesis by blast
qed

theorem answers_come_from_the_fleet_witness:
  "\<exists>p w a b q. DpGateway (LReply p w (Inr ex_resp)) \<in> set (ex_dp_run @ map DpGateway ex_served)
     \<and> ex_dp_run @ map DpGateway ex_served = a @ DpGateway (LCall p w ex_request) # b
     \<and> DpControl (RegisterL q) \<in> set a \<and> reg_WorkerId q = wi_WorkerId w \<and> reg_Address q = wi_Address w"
proof -
  obtain t where t: "exec (dp_step exact_env) (ex_deployed (cp_start controlplane_config 0) gateway_new None)
      (ex_dp_run @ map DpGateway ex_served) t" using ex_dp_served by blast
  have "DpGateway (LReturn ex_request (Inr (Some ex_resp))) \<in> set (ex_dp_run @ map DpGateway ex_served)"
    by (simp add: ex_served_def)
  from answers_come_from_the_fleet [OF ex_dp_start t this] show ?thesis by blast
qed

end
