(* ===== verification/Control_Plane_Time.thy ===== *)
theory Control_Plane_Time
  imports Detection
begin

text \<open>
  The control plane in time. \<^verbatim>\<open>Run\<close> (\<^verbatim>\<open>internal/detector/detector.go\<close>) sweeps at every tick of a ticker of \<^verbatim>\<open>PollInterval\<close>. The
  clock moves only while the scanner waits for the next tick: a sweep takes no time. The theory bounds how long a worker
  that fell silent stays in the registry.
\<close>

section \<open>The timed system\<close>

record timed_plane =
  tp_cp :: control_plane
  tp_due :: time

text \<open>Neither the clock nor the ticker is involved.\<close>

fun untimed :: "cp_label \<Rightarrow> bool" where
  "untimed TickL = False"
| "untimed (SnapshotL now) = False"
| "untimed l = True"

inductive tp_step :: "float_env \<Rightarrow> timed_plane \<Rightarrow> cp_label \<Rightarrow> timed_plane \<Rightarrow> bool"
  for fe :: float_env and s :: timed_plane where
  tp_act: "cp_step fe (tp_cp s) l c \<Longrightarrow> untimed l \<Longrightarrow> tp_step fe s l (s\<lparr>tp_cp := c\<rparr>)"
| tp_scan: "cp_step fe (tp_cp s) (SnapshotL (tp_due s)) c \<Longrightarrow> tp_due s = cp_clock (tp_cp s) \<Longrightarrow>
    tp_step fe s (SnapshotL (tp_due s)) \<lparr>tp_cp = c, tp_due = tp_due s + PollInterval (cfg (cp_det (tp_cp s)))\<rparr>"
| tp_delay: "cp_step fe (tp_cp s) TickL c \<Longrightarrow> cp_scan (tp_cp s) = ScanIdle \<Longrightarrow> cp_clock c \<le> tp_due s \<Longrightarrow>
    tp_step fe s TickL (s\<lparr>tp_cp := c\<rparr>)"

text \<open>The first tick comes one interval after the start.\<close>

definition tp_init :: "timed_plane \<Rightarrow> bool" where
  "tp_init s \<longleftrightarrow> cp_init (tp_cp s) \<and> 0 < PollInterval (cfg (cp_det (tp_cp s)))
     \<and> tp_due s = cp_clock (tp_cp s) + PollInterval (cfg (cp_det (tp_cp s)))"

definition tp_inv :: "timed_plane \<Rightarrow> bool" where
  "tp_inv s \<longleftrightarrow> cp_inv (tp_cp s) \<and> 0 < PollInterval (cfg (cp_det (tp_cp s)))
     \<and> cp_clock (tp_cp s) \<le> tp_due s \<and> tp_due s \<le> cp_clock (tp_cp s) + PollInterval (cfg (cp_det (tp_cp s)))
     \<and> (\<forall>now ws. cp_scan (tp_cp s) = ScanJudging now ws \<longrightarrow> now = cp_clock (tp_cp s))"

lemma cp_step_frame:
  assumes "cp_step fe s l t"
  shows "cfg (cp_det t) = cfg (cp_det s)" and "untimed l \<Longrightarrow> cp_clock t = cp_clock s"
    and "untimed l \<Longrightarrow> cp_scan t = ScanJudging now ws \<Longrightarrow> cp_scan s = ScanJudging now ws"
  using assms by (cases rule: cp_step.cases; auto)+

lemma cp_tickD: "cp_step fe s TickL t \<Longrightarrow> \<exists>d > 0. t = s\<lparr>cp_clock := cp_clock s + d\<rparr>"
  by (erule cp_step.cases) auto

lemma cp_snapshotD:
  assumes "cp_step fe s (SnapshotL now) t"
  shows "\<exists>ks. cp_scan s = ScanIdle \<and> iterates (workers (cp_reg s)) ks \<and> t = s\<lparr>cp_scan := ScanJudging now (ListWorkers ks (cp_reg s))\<rparr>"
  using assms by (cases rule: cp_step.cases) auto

lemma tp_inv_step:
  assumes inv: "tp_inv s" and step: "tp_step fe s l t"
  shows "tp_inv t"
  using step
proof cases
  case (tp_act c)
  then show ?thesis
    using inv cp_step_frame [OF tp_act(2)] cp_inv_step [OF _ tp_act(2)] by (auto simp: tp_inv_def)
next
  case (tp_scan c)
  then show ?thesis
    using inv cp_snapshotD [OF tp_scan(3)] cp_inv_step [OF _ tp_scan(3)] by (auto simp: tp_inv_def)
next
  case (tp_delay c)
  then show ?thesis
    using inv cp_tickD [OF tp_delay(3)] cp_inv_step [OF _ tp_delay(3)] by (auto simp: tp_inv_def)
qed

interpretation tp: state_invariant tp_init "tp_step fe" tp_inv
proof unfold_locales
  show "tp_inv s" if "tp_init s" for s
    using that cp_inv_init [of "tp_cp s"] by (auto simp: tp_init_def tp_inv_def) (auto simp: cp_init_def cp_start_def)
qed (rule tp_inv_step)

text \<open>Time does not stop: it passes, or the scanner or the drain has a step.\<close>

lemma plane_goes_on:
  assumes "tp_inv s"
  shows "\<exists>l t. tp_step fe s l t \<and> (l = TickL \<or> l = SnapshotL (tp_due s) \<or> scanner_label l \<or> (\<exists>ev. l = DrainL ev))"
proof (cases "cp_scan (tp_cp s) = ScanIdle")
  case idle: True
  show ?thesis
  proof (cases "cp_clock (tp_cp s) = tp_due s")
    case True
    have "finite (dom (workers (cp_reg (tp_cp s))))" using assms by (simp add: tp_inv_def cp_inv_def reg_wf_def)
    then obtain ks where "iterates (workers (cp_reg (tp_cp s))) ks" using iterates_exists by blast
    from cp_snapshot [OF idle _ this, of "tp_due s"] True have
      "tp_step fe s (SnapshotL (tp_due s)) \<lparr>tp_cp = (tp_cp s)\<lparr>cp_scan := ScanJudging (tp_due s) (ListWorkers ks (cp_reg (tp_cp s)))\<rparr>,
         tp_due = tp_due s + PollInterval (cfg (cp_det (tp_cp s)))\<rparr>" by (intro tp_scan) simp_all
    then show ?thesis by blast
  next
    case False
    then have "cp_clock (tp_cp s) < tp_due s" using assms by (simp add: tp_inv_def)
    with tp_delay [OF cp_tick [of "tp_due s - cp_clock (tp_cp s)" fe "tp_cp s"] idle] show ?thesis by auto
  qed
next
  case False
  have ut: "scanner_label l \<Longrightarrow> untimed l" for l by (cases l) auto
  have "cp_inv (tp_cp s)" using assms by (simp add: tp_inv_def)
  from scan_progress [OF this False, of fe] obtain l c
    where "cp_step fe (tp_cp s) l c" "scanner_label l \<or> (\<exists>ev. l = DrainL ev)" by blast
  then show ?thesis using ut tp_act [of fe s l c] by force
qed

section \<open>A worker that fell silent\<close>

text \<open>
  The worker's last call, at \<open>lastApplied e\<close>, has been swept, and \<open>2 ^ j\<close> seconds exceed the mean gap \<open>m\<close> of its window by 32 deviations
  (times the square root of 2).
\<close>

definition given_up_after :: "float_env \<Rightarrow> config \<Rightarrow> worker_info \<Rightarrow> detector_entry \<Rightarrow> nat \<Rightarrow> bool" where
  "given_up_after fe c w e j \<longleftrightarrow> LastSeen w \<le> lastApplied e \<and> 2 \<le> win_n (window e) \<and> PhiDead c < maxPhi \<and> j \<le> 33
     \<and> (\<exists>m s k. entry_stats fe e = Some (m, s) \<and> k \<le> 33 \<and> 32 * fl_round fe (s * fl_round fe (sqrt 2)) \<le> 2 ^ k
          \<and> m + 2 ^ k \<le> 2 ^ j)"

definition verdict_due :: "detector_entry \<Rightarrow> nat \<Rightarrow> time" where
  "verdict_due e j = lastApplied e + 2 ^ j * 1000000000"

lemma given_up_dies:
  assumes ok: "float_ok fe" "dyadic_ok fe" "erfc_tail fe" and gu: "given_up_after fe c w e j"
    and e: "ents (ID w) = Some (e\<lparr>entry_state := st\<rparr>)" and late: "verdict_due e j \<le> now"
  shows "dies fe c now ents w"
proof -
  obtain m s k where g: "entry_stats fe e = Some (m, s)" "k \<le> 33" "32 * fl_round fe (s * fl_round fe (sqrt 2)) \<le> 2 ^ k"
    "m + 2 ^ k \<le> 2 ^ j" and g': "LastSeen w \<le> lastApplied e" "2 \<le> win_n (window e)" "PhiDead c < maxPhi" "j \<le> 33"
    using gu by (auto simp: given_up_after_def)
  have st: "entry_stats fe (e\<lparr>entry_state := st\<rparr>) = Some (m, s)" using g(1) by (simp add: entry_stats_def)
  show ?thesis
    by (rule silent_worker_dies [where j = j and k = k and m = m and s = s and e = "e\<lparr>entry_state := st\<rparr>"])
      (use ok e st g g' late in \<open>simp_all add: verdict_due_def\<close>)
qed

lemma kept_entry:
  assumes "ents (ID w) = Some (e\<lparr>entry_state := st\<rparr>)" and "LastSeen w \<le> lastApplied e" and "\<not> dies fe c now ents w"
  shows "\<exists>st. verdict fe c now ents w = Some (e\<lparr>entry_state := st\<rparr>)"
  using assms by (auto simp: verdict_def dies_def judge_def fold_arrival_silent Let_def split: if_splits)

text \<open>
  What stays true of it: once a tick from \<open>T\<close> on has come, the sweep has it
  among the dead, or has evicted it.
\<close>

definition entry_kept :: "string \<Rightarrow> detector_entry \<Rightarrow> control_plane \<Rightarrow> bool" where
  "entry_kept wid e s \<longleftrightarrow> (\<exists>st. entries (cp_det s) wid = Some (e\<lparr>entry_state := st\<rparr>))"

definition fading :: "string \<Rightarrow> worker_info \<Rightarrow> detector_entry \<Rightarrow> time \<Rightarrow> timed_plane \<Rightarrow> bool" where
  "fading wid w e T s \<longleftrightarrow> workers (cp_reg (tp_cp s)) wid = None
     \<or> workers (cp_reg (tp_cp s)) wid = Some w \<and> cp_clock (tp_cp s) < T + PollInterval (cfg (cp_det (tp_cp s)))
       \<and> (case cp_scan (tp_cp s) of
            ScanIdle \<Rightarrow> entry_kept wid e (tp_cp s) \<and> tp_due s < T + PollInterval (cfg (cp_det (tp_cp s)))
          | ScanJudging now ws \<Rightarrow> entry_kept wid e (tp_cp s) \<and> w \<in> set ws
              \<and> tp_due s = cp_clock (tp_cp s) + PollInterval (cfg (cp_det (tp_cp s)))
          | ScanEvicting evs \<Rightarrow> wid \<in> WorkerID ` set evs
              \<or> entry_kept wid e (tp_cp s) \<and> tp_due s < T + PollInterval (cfg (cp_det (tp_cp s)))
          | ScanSending ev evs \<Rightarrow> wid \<in> WorkerID ` set evs
              \<or> entry_kept wid e (tp_cp s) \<and> tp_due s < T + PollInterval (cfg (cp_det (tp_cp s)))
          | ScanPanicked \<Rightarrow> False)"

lemma fading_judge:
  assumes inv: "tp_inv s" and scan: "cp_scan (tp_cp s) = ScanJudging now ws" and w: "w \<in> set ws" "ID w = wid"
    and judge: "scan_judge fe (cfg (cp_det (tp_cp s))) now ws (entries (cp_det (tp_cp s))) = Some (ents, deaths)"
    and kept: "entry_kept wid e (tp_cp s)" and heard: "LastSeen w \<le> lastApplied e"
    and doom: "\<And>st ents. ents wid = Some (e\<lparr>entry_state := st\<rparr>) \<Longrightarrow> T \<le> now \<Longrightarrow> dies fe (cfg (cp_det (tp_cp s))) now ents w"
  shows "wid \<in> WorkerID ` set deaths \<or> now < T \<and> (\<exists>st. ents wid = Some (e\<lparr>entry_state := st\<rparr>))"
proof -
  let ?c = "cfg (cp_det (tp_cp s))" and ?ents = "entries (cp_det (tp_cp s))"
  have c: "0 < WindowSize ?c" "entries_wf ?c ?ents" "distinct (map ID ws)"
    using inv scan by (auto simp: tp_inv_def cp_inv_def)
  from scan_judge_snapshot [OF this, of fe now] judge have
    ents: "ents = (\<lambda>wid. Option.bind (map_of (map (\<lambda>w. (ID w, w)) ws) wid) (verdict fe ?c now ?ents))"
    and deaths: "deaths = map (\<lambda>w. \<lparr>WorkerID = ID w, At = now\<rparr>) (filter (dies fe ?c now ?ents) ws)"
    by auto
  obtain st where st: "?ents wid = Some (e\<lparr>entry_state := st\<rparr>)" using kept by (auto simp: entry_kept_def)
  show ?thesis
  proof (cases "dies fe ?c now ?ents w")
    case True
    then show ?thesis using w by (force simp: deaths)
  next
    case False
    have "map_of (map (\<lambda>w. (ID w, w)) ws) wid = Some w" using c(3) w by (auto intro!: map_of_is_SomeI simp: comp_def)
    then have "\<exists>st. ents wid = Some (e\<lparr>entry_state := st\<rparr>)"
      using kept_entry [OF _ heard False] st w(2) by (simp add: ents)
    moreover have "now < T" using doom [where st = st and ents = ?ents] st False by fastforce
    ultimately show ?thesis by simp
  qed
qed

lemma fading_step:
  assumes inv: "tp_inv s" and fade: "fading wid w e T s" and step: "tp_step fe s l t" and other: "\<not> concerns wid l"
    and heard: "LastSeen w \<le> lastApplied e"
    and doom: "\<And>st now ents. ents wid = Some (e\<lparr>entry_state := st\<rparr>) \<Longrightarrow> T \<le> now \<Longrightarrow> dies fe (cfg (cp_det (tp_cp s))) now ents w"
  shows "fading wid w e T t"
proof (cases "workers (cp_reg (tp_cp s)) wid")
  case None
  obtain c where "cp_step fe (tp_cp s) l c" "tp_cp t = c" using step by cases auto
  then show ?thesis using absent_step [OF _ None other] by (simp add: fading_def)
next
  case (Some i)
  then have w: "workers (cp_reg (tp_cp s)) wid = Some w" and fd: "fading wid w e T s" using fade by (simp_all add: fading_def)
  have wf: "reg_wf (cp_reg (tp_cp s))" and due: "cp_clock (tp_cp s) \<le> tp_due s"
    "tp_due s \<le> cp_clock (tp_cp s) + PollInterval (cfg (cp_det (tp_cp s)))"
    using inv by (auto simp: tp_inv_def cp_inv_def)
  then have id: "ID w = wid" using w by (simp add: reg_wf_def)
  show ?thesis using step
  proof cases
    case (tp_scan c)
    then obtain ks where ks: "cp_scan (tp_cp s) = ScanIdle" "iterates (workers (cp_reg (tp_cp s))) ks"
      "c = (tp_cp s)\<lparr>cp_scan := ScanJudging (tp_due s) (ListWorkers ks (cp_reg (tp_cp s)))\<rparr>"
      using cp_snapshotD [OF tp_scan(3)] by blast
    have "w \<in> set (ListWorkers ks (cp_reg (tp_cp s)))" using reg.snapshot_mem [OF wf ks(2)] w id by simp
    then show ?thesis using fd w ks tp_scan(2,4) by (simp add: fading_def entry_kept_def)
  next
    case (tp_delay c)
    then obtain d where "c = (tp_cp s)\<lparr>cp_clock := cp_clock (tp_cp s) + d\<rparr>" using cp_tickD by blast
    then show ?thesis using fd w tp_delay by (simp add: fading_def entry_kept_def)
  next
    case (tp_act c)
    from tp_act(2) show ?thesis
    proof cases
      case (cp_register req resp r')
      then show ?thesis
        using fd other srv_frame(1) [of req wid "cp_clock (tp_cp s)" "cp_reg (tp_cp s)"] tp_act(1)
        by (auto simp: fading_def entry_kept_def split: scan_pc.splits)
    next
      case (cp_heartbeat req res r')
      then show ?thesis
        using fd other srv_frame(2) [of req wid "cp_clock (tp_cp s)" "cp_reg (tp_cp s)"] tp_act(1)
        by (auto simp: fading_def entry_kept_def split: scan_pc.splits)
    next
      case (cp_deregister req resp r')
      then show ?thesis
        using fd other srv_frame(3) [of req wid "cp_reg (tp_cp s)"] tp_act(1)
        by (auto simp: fading_def entry_kept_def split: scan_pc.splits)
    next
      case (cp_judge now ws ents deaths)
      have now: "now = cp_clock (tp_cp s)" using inv cp_judge(3) by (simp add: tp_inv_def)
      have ws: "w \<in> set ws" "entry_kept wid e (tp_cp s)" "tp_due s = now + PollInterval (cfg (cp_det (tp_cp s)))"
        "cp_clock (tp_cp s) < T + PollInterval (cfg (cp_det (tp_cp s)))"
        using fd w cp_judge(3) now by (simp_all add: fading_def)
      from fading_judge [OF inv cp_judge(3) ws(1) id cp_judge(4) ws(2) heard doom, of T] show ?thesis
        using w ws(3,4) tp_act(1) cp_judge(2) now by (auto simp: fading_def entry_kept_def)
    next
      case (cp_evict ev evs)
      then show ?thesis using fd w tp_act(1) by (auto simp: fading_def entry_kept_def Deregister_def Let_def)
    next
      case (cp_panic now ws)
      have "cp_inv c" using inv cp_inv_step [OF _ tp_act(2)] by (simp add: tp_inv_def)
      then show ?thesis using cp_panic(2) by (simp add: cp_inv_def)
    qed (use fd w tp_act in \<open>auto simp: fading_def entry_kept_def split: scan_pc.splits\<close>)
  qed
qed

lemma tp_cfg: "tp_step fe s l t \<Longrightarrow> cfg (cp_det (tp_cp t)) = cfg (cp_det (tp_cp s))"
  by (erule tp_step.cases) (auto dest: cp_step_frame(1))

lemma fading_exec:
  assumes ok: "float_ok fe" "dyadic_ok fe" "erfc_tail fe" and run: "exec (tp_step fe) s ls t" and inv: "tp_inv s"
    and fade: "fading wid w e (verdict_due e j) s" and gu: "given_up_after fe (cfg (cp_det (tp_cp s))) w e j" and id: "ID w = wid"
    and quiet: "\<forall>l \<in> set ls. \<not> concerns wid l"
  shows "fading wid w e (verdict_due e j) t \<and> tp_inv t \<and> cfg (cp_det (tp_cp t)) = cfg (cp_det (tp_cp s))"
  using run quiet
proof (induction rule: exec.induct)
  case exec_nil
  then show ?case using inv fade by simp
next
  case (exec_snoc ls t l u)
  then have t: "fading wid w e (verdict_due e j) t" "tp_inv t" "cfg (cp_det (tp_cp t)) = cfg (cp_det (tp_cp s))" by auto
  have heard: "LastSeen w \<le> lastApplied e" using gu by (simp add: given_up_after_def)
  have doom: "dies fe (cfg (cp_det (tp_cp t))) now ents w"
    if "ents wid = Some (e\<lparr>entry_state := st\<rparr>)" "verdict_due e j \<le> now" for st now ents
    using given_up_dies [OF ok gu _ that(2)] that(1) id t(3) by simp
  have "\<not> concerns wid l" using exec_snoc.prems by simp
  from fading_step [OF t(2,1) exec_snoc(2) this heard doom] tp_inv_step [OF t(2) exec_snoc(2)]
    tp_cfg [OF exec_snoc(2)] t(3) show ?case by simp
qed

text \<open>Between two sweeps, before the deadline.\<close>

lemma fading_start:
  assumes "tp_inv s" and "workers (cp_reg (tp_cp s)) wid = Some w" and "entries (cp_det (tp_cp s)) wid = Some e"
    and "cp_scan (tp_cp s) = ScanIdle" and "cp_clock (tp_cp s) < T"
  shows "fading wid w e T s"
proof -
  have "entry_kept wid e (tp_cp s)" using assms(3) by (auto simp: entry_kept_def intro: exI [of _ "entry_state e"])
  then show ?thesis using assms by (auto simp: fading_def tp_inv_def)
qed

lemma evicted_by_deadline:
  assumes "float_ok fe" and "dyadic_ok fe" and "erfc_tail fe"
    and "tp_inv s" and "cp_scan (tp_cp s) = ScanIdle" and "cp_clock (tp_cp s) < verdict_due e j"
    and "workers (cp_reg (tp_cp s)) wid = Some w" and "entries (cp_det (tp_cp s)) wid = Some e"
    and "given_up_after fe (cfg (cp_det (tp_cp s))) w e j"
    and "exec (tp_step fe) s ls t" and "\<forall>l \<in> set ls. \<not> concerns wid l"
    and "verdict_due e j + PollInterval (cfg (cp_det (tp_cp s))) \<le> cp_clock (tp_cp t)"
  shows "workers (cp_reg (tp_cp t)) wid = None"
proof -
  have "ID w = wid" using assms(4,7) by (simp add: tp_inv_def cp_inv_def reg_wf_def)
  from fading_exec [OF assms(1-3,10,4) fading_start [OF assms(4,7,8,5,6)] assms(9) this assms(11)]
  have "fading wid w e (verdict_due e j) t" "cfg (cp_det (tp_cp t)) = cfg (cp_det (tp_cp s))" by blast+
  then show ?thesis using assms(12) by (auto simp: fading_def)
qed

section \<open>Properties\<close>

text \<open>
  C24. Detection in time. A worker with a history that makes no further call is out of the registry \<open>2 ^ j\<close> seconds
  and one \<^verbatim>\<open>PollInterval\<close> after its last heartbeat, where \<open>2 ^ j\<close> seconds exceed the mean gap of its window by 32 (floored)
  deviations times the square root of 2; whatever the other workers do. For
  the one-second heartbeats and the interval of this system that is eight and a half seconds.
\<close>

theorem silent_worker_is_evicted_in_time:
  assumes "float_ok fe" and "dyadic_ok fe" and "erfc_tail fe"
    and "tp_inv s" and "cp_scan (tp_cp s) = ScanIdle" and "cp_clock (tp_cp s) < verdict_due e j"
    and "workers (cp_reg (tp_cp s)) wid = Some w" and "entries (cp_det (tp_cp s)) wid = Some e"
    and "given_up_after fe (cfg (cp_det (tp_cp s))) w e j"
    and "exec (tp_step fe) s ls t" and "\<forall>l \<in> set ls. \<not> concerns wid l"
    and "verdict_due e j + PollInterval (cfg (cp_det (tp_cp s))) \<le> cp_clock (tp_cp t)"
  shows "workers (cp_reg (tp_cp t)) wid = None"
  by (rule evicted_by_deadline [OF assms])

text \<open>The sample worker, a tenth of a second before the tick that finds it dead.\<close>

lemma ex_given_up: "given_up_after exact_env ex_config ex_worker ex_entry 3"
proof -
  have "sqrt 2 \<le> (2 :: real)" by (rule real_le_lsqrt) auto
  then have "entry_stats exact_env ex_entry = Some (1, 1 / 20) \<and> 2 \<le> (33 :: nat)
      \<and> 32 * fl_round exact_env (1 / 20 * fl_round exact_env (sqrt 2)) \<le> 2 ^ 2 \<and> 1 + 2 ^ 2 \<le> (2 :: real) ^ 3"
    using ex_stats by simp
  then show ?thesis
    unfolding given_up_after_def by (intro conjI exI [of _ 1] exI [of _ "1 / 20"] exI [of _ "2 :: nat"]) (simp_all add: maxPhi_def)
qed

definition ex_almost :: "control_plane" where
  "ex_almost = ex_cp\<lparr>cp_clock := 7900000000\<rparr>"

lemma tp_acts:
  "exec (cp_step fe) c ls c' \<Longrightarrow> \<forall>l \<in> set ls. untimed l \<Longrightarrow>
     exec (tp_step fe) \<lparr>tp_cp = c, tp_due = d\<rparr> ls \<lparr>tp_cp = c', tp_due = d\<rparr>"
proof (induction rule: exec.induct)
  case (exec_snoc ls t l u)
  then have "tp_step fe \<lparr>tp_cp = t, tp_due = d\<rparr> l \<lparr>tp_cp = u, tp_due = d\<rparr>"
    using tp_act [of fe "\<lparr>tp_cp = t, tp_due = d\<rparr>" l u] by simp
  with exec_snoc show ?case by auto
qed auto

lemma ex_tp_inv: "tp_inv \<lparr>tp_cp = ex_almost, tp_due = 8000000000\<rparr>"
  using ex_cp_inv by (simp add: tp_inv_def ex_almost_def cp_inv_def ex_config_def)

lemma scanner_untimed: "scanner_label l \<Longrightarrow> untimed l \<and> \<not> concerns wid l"
  by (cases l) auto

text \<open>The plane after the eviction, at any time.\<close>

definition ex_swept :: "time \<Rightarrow> control_plane" where
  "ex_swept now = ex_almost\<lparr>cp_clock := now, cp_reg := ex_reg\<lparr>workers := Map.empty\<rparr>,
     cp_det := (cp_det ex_almost)\<lparr>entries := Map.empty, events := [\<lparr>WorkerID = ''w1'', At = 8000000000\<rparr>]\<rparr>\<rparr>"

lemma ex_swept_sel [simp]: "cp_clock (ex_swept now) = now" "workers (cp_reg (ex_swept now)) = Map.empty" "cp_scan (ex_swept now) = ScanIdle"
  "cfg (cp_det (ex_swept now)) = ex_config"
  by (simp_all add: ex_swept_def ex_almost_def)

lemma ex_swept_delay:
  assumes "now < later" and "later \<le> d"
  shows "tp_step fe \<lparr>tp_cp = ex_swept now, tp_due = d\<rparr> TickL \<lparr>tp_cp = ex_swept later, tp_due = d\<rparr>"
proof -
  have "(ex_swept now)\<lparr>cp_clock := cp_clock (ex_swept now) + (later - now)\<rparr> = ex_swept later"
    by (simp add: ex_swept_def ex_almost_def ex_cp_def)
  with cp_tick [of "later - now" fe "ex_swept now"] assms(1) have "cp_step fe (ex_swept now) TickL (ex_swept later)" by simp
  then show ?thesis using tp_delay [of fe "\<lparr>tp_cp = ex_swept now, tp_due = d\<rparr>" "ex_swept later"] assms(2) by simp
qed

lemma ex_evicted_run:
  "\<exists>ls. exec (tp_step exact_env) \<lparr>tp_cp = ex_almost, tp_due = 8000000000\<rparr> ls \<lparr>tp_cp = ex_swept 8500000000, tp_due = 8500000000\<rparr>
     \<and> (\<forall>l \<in> set ls. \<not> concerns ''w1'' l)"
proof -
  let ?n = "8000000000" and ?dead = "[\<lparr>WorkerID = ''w1'', At = 8000000000\<rparr>]"
  let ?c1 = "ex_almost\<lparr>cp_clock := ?n\<rparr>"
  let ?c2 = "?c1\<lparr>cp_scan := ScanJudging ?n [ex_worker]\<rparr>"
  have "dies exact_env ex_config ?n ex_ents ex_worker"
    using given_up_dies [OF exact_env_ok exact_env_tail ex_given_up, of ex_ents StateAlive ?n]
    by (simp add: verdict_due_def ex_entry_def)
  then have "judge exact_env ex_config ?n ex_worker (ex_ents ''w1'') = Some None" by (simp add: dies_def)
  then have judge: "scan_judge exact_env ex_config ?n [ex_worker] ex_ents = Some (Map.empty, ?dead)"
    by (simp add: scan_judge_def scan_worker_judge restrict_map_def ex_ents_def fun_eq_iff)
  have emit: "scan_emit ?dead (cp_reg ?c2) (events (cp_det ?c2)) = (ex_reg\<lparr>workers := Map.empty\<rparr>, ?dead, [])"
    by (simp add: ex_almost_def events_capacity_def Deregister_def chan_send_def)
  obtain ls where ls: "\<forall>l \<in> set ls. scanner_label l" "exec (cp_step exact_env) ?c2 ls (ex_swept ?n)"
    using judge_emit_exec [of ?c2 ?n "[ex_worker]" exact_env Map.empty ?dead "ex_reg\<lparr>workers := Map.empty\<rparr>" ?dead "[]"]
      judge emit by (auto simp: ex_almost_def ex_swept_def ex_cp_def)
  have d1: "tp_step exact_env \<lparr>tp_cp = ex_almost, tp_due = ?n\<rparr> TickL \<lparr>tp_cp = ?c1, tp_due = ?n\<rparr>"
    using tp_delay [of exact_env "\<lparr>tp_cp = ex_almost, tp_due = ?n\<rparr>" ?c1] cp_tick [of 100000000 exact_env ex_almost]
    by (simp add: ex_almost_def)
  have d2: "tp_step exact_env \<lparr>tp_cp = ?c1, tp_due = ?n\<rparr> (SnapshotL ?n) \<lparr>tp_cp = ?c2, tp_due = 8500000000\<rparr>"
    using tp_scan [of exact_env "\<lparr>tp_cp = ?c1, tp_due = ?n\<rparr>" ?c2] cp_snapshot [of ?c1 ?n "[''w1'']" exact_env]
    by (simp add: ex_almost_def ex_config_def)
  have d3: "exec (tp_step exact_env) \<lparr>tp_cp = ?c2, tp_due = 8500000000\<rparr> ls \<lparr>tp_cp = ex_swept ?n, tp_due = 8500000000\<rparr>"
    using tp_acts [OF ls(2)] ls(1) scanner_untimed by blast
  have d4: "tp_step exact_env \<lparr>tp_cp = ex_swept ?n, tp_due = 8500000000\<rparr> TickL \<lparr>tp_cp = ex_swept 8500000000, tp_due = 8500000000\<rparr>"
    by (rule ex_swept_delay) simp_all
  have "exec (tp_step exact_env) \<lparr>tp_cp = ex_almost, tp_due = ?n\<rparr> (TickL # SnapshotL ?n # ls @ [TickL])
      \<lparr>tp_cp = ex_swept 8500000000, tp_due = 8500000000\<rparr>"
    by (rule exec_cons, rule d1, rule exec_cons, rule d2, rule exec.exec_snoc, rule d3, rule d4)
  moreover have "\<forall>l \<in> set (TickL # SnapshotL ?n # ls @ [TickL]). \<not> concerns ''w1'' l" using ls(1) scanner_untimed by auto
  ultimately show ?thesis by (intro exI conjI)
qed

text \<open>A sweep over the empty registry.\<close>

lemma ex_swept_sweep:
  "exec (tp_step fe) \<lparr>tp_cp = ex_swept now, tp_due = now\<rparr> [SnapshotL now, JudgeL [], ScanDoneL]
     \<lparr>tp_cp = ex_swept now, tp_due = now + 500000000\<rparr>"
proof -
  let ?c1 = "(ex_swept now)\<lparr>cp_scan := ScanJudging now []\<rparr>" and ?c2 = "(ex_swept now)\<lparr>cp_scan := ScanEvicting []\<rparr>"
  have 1: "tp_step fe \<lparr>tp_cp = ex_swept now, tp_due = now\<rparr> (SnapshotL now) \<lparr>tp_cp = ?c1, tp_due = now + 500000000\<rparr>"
    using tp_scan [of fe "\<lparr>tp_cp = ex_swept now, tp_due = now\<rparr>" ?c1] cp_snapshot [of "ex_swept now" now "[]" fe]
    by (simp add: ListWorkers_def range_values_def iterates_def ex_config_def List.map_filter_def)
  have "scan_judge fe ex_config now [] Map.empty = Some (Map.empty, [])" by (simp add: scan_judge_def)
  then have "cp_step fe ?c1 (JudgeL []) ?c2"
    using cp_judge [of ?c1 now "[]" fe Map.empty "[]"] by (simp add: ex_swept_def ex_almost_def ex_cp_def)
  moreover have "cp_step fe ?c2 ScanDoneL (ex_swept now)"
    using cp_scan_done [of ?c2 fe] by (simp add: ex_swept_def ex_almost_def ex_cp_def)
  ultimately have "exec (cp_step fe) ?c1 [JudgeL [], ScanDoneL] (ex_swept now)"
    by (intro exec_cons [where step = "cp_step fe"]) auto
  from tp_acts [OF this] have 2: "exec (tp_step fe) \<lparr>tp_cp = ?c1, tp_due = now + 500000000\<rparr> [JudgeL [], ScanDoneL]
      \<lparr>tp_cp = ex_swept now, tp_due = now + 500000000\<rparr>" by simp
  show ?thesis by (rule exec_cons, rule 1, rule 2)
qed

theorem silent_worker_is_evicted_in_time_witness:
  "\<exists>ls t. exec (tp_step exact_env) \<lparr>tp_cp = ex_almost, tp_due = 8000000000\<rparr> ls t
     \<and> cp_clock (tp_cp t) = 8500000000 \<and> workers (cp_reg (tp_cp t)) ''w1'' = None"
proof -
  let ?s = "\<lparr>tp_cp = ex_almost, tp_due = 8000000000\<rparr>"
  let ?t = "\<lparr>tp_cp = ex_swept 8500000000, tp_due = 8500000000\<rparr>"
  obtain ls where r: "exec (tp_step exact_env) ?s ls ?t" "\<forall>l \<in> set ls. \<not> concerns ''w1'' l" using ex_evicted_run by blast
  have "workers (cp_reg (tp_cp ?t)) ''w1'' = None"
    by (rule silent_worker_is_evicted_in_time [where e = ex_entry and w = ex_worker and j = 3,
          OF exact_env_ok exact_env_tail ex_tp_inv _ _ _ _ _ r])
      (use ex_given_up in \<open>simp_all add: ex_almost_def verdict_due_def ex_config_def\<close>)
  with r show ?thesis by (intro exI [of _ ls] exI [of _ ?t]) simp
qed

end
