(* ===== verification/Gateway_Rescue.thy ===== *)
theory Gateway_Rescue
  imports Gateway_Time
begin

text \<open>
  The slow path for one request: what becomes of a request whose attempts are all on one worker when the poll loop drops that
  worker from the view (\<^verbatim>\<open>pollOnce\<close> and \<^verbatim>\<open>rerouteFrom\<close> in \<^verbatim>\<open>internal/gateway/gateway.go\<close>), and which request the slow path misses.
\<close>

section \<open>A request held by one worker\<close>

fun at_worker :: "string \<Rightarrow> attempt_pc \<Rightarrow> bool" where
  "at_worker wid (AStart w) = (wi_WorkerId w = wid)"
| "at_worker wid (AAir w) = (wi_WorkerId w = wid)"
| "at_worker wid (AFailed w e) = (wi_WorkerId w = wid)"
| "at_worker wid (ARetry w e) = (wi_WorkerId w = wid)"
| "at_worker wid (ACands w e cs) = (wi_WorkerId w = wid \<and> wid \<notin> wi_WorkerId ` set cs)"
| "at_worker wid pc = True"

text \<open>It is assigned to the worker, has budget left, and nothing is in flight or prepared for it elsewhere.\<close>

definition held :: "ptr \<Rightarrow> string \<Rightarrow> gateway_system \<Rightarrow> bool" where
  "held p wid s \<longleftrightarrow>
     (\<exists>ih. heap (gs_tracker s) p = Some ih \<and> assigned ih = wid \<and> dispatched ih < maxAttempts)
     \<and> (\<forall>a \<in> set (gs_attempts s). ga_ih a = p \<longrightarrow> at_worker wid (ga_pc a))
     \<and> (\<forall>h \<in> set (gs_handlers s). \<forall>w. gh_pc h = HRegistered p w \<longrightarrow> wi_WorkerId w = wid)
     \<and> (\<forall>j \<in> set (jobs_of (gs_poll s)). j_ih j \<noteq> p)"

text \<open>A call of another worker is prepared for it.\<close>

definition elsewhere :: "ptr \<Rightarrow> string \<Rightarrow> gateway_system \<Rightarrow> bool" where
  "elsewhere p wid s \<longleftrightarrow>
     (\<exists>a \<in> set (gs_attempts s). \<exists>w. ga_ih a = p \<and> ga_pc a = AStart w \<and> wi_WorkerId w \<noteq> wid)
     \<or> (\<exists>j \<in> set (jobs_of (gs_poll s)). j_ih j = p \<and> wi_WorkerId (j_target j) \<noteq> wid)"

fun calls_elsewhere :: "ptr \<Rightarrow> string \<Rightarrow> gs_label \<Rightarrow> bool" where
  "calls_elsewhere p wid (LCall q w req) = (q = p \<and> wi_WorkerId w \<noteq> wid)"
| "calls_elsewhere p wid l = False"

lemma elsewhere_frame [simp]:
  "elsewhere p wid (set_handler i pc s) = elsewhere p wid s" "elsewhere p wid (set_record q ih s) = elsewhere p wid s"
  "elsewhere p wid (s\<lparr>gs_tracker := t\<rparr>) = elsewhere p wid s" "elsewhere p wid (s\<lparr>gs_view := v\<rparr>) = elsewhere p wid s"
  "elsewhere p wid (s\<lparr>gs_handlers := hs\<rparr>) = elsewhere p wid s"
  by (simp_all add: elsewhere_def set_record_def)

lemma elsewhere_launch: "elsewhere p wid s \<Longrightarrow> elsewhere p wid (launch q w s)"
  by (auto simp: elsewhere_def launch_def)

lemma elsewhere_step:
  assumes "elsewhere p wid s" and "gs_step s l t"
  shows "elsewhere p wid t \<or> calls_elsewhere p wid l"
  using assms(2)
proof cases
  case (gs_attempt i q pc ih ih' pc')
  consider a w where "a \<in> set (gs_attempts s)" "ga_ih a = p" "ga_pc a = AStart w" "wi_WorkerId w \<noteq> wid"
    | j where "j \<in> set (jobs_of (gs_poll s))" "j_ih j = p" "wi_WorkerId (j_target j) \<noteq> wid"
    using assms(1) by (auto simp: elsewhere_def)
  then show ?thesis
  proof cases
    case (1 a w)
    show ?thesis
    proof (cases "a = gs_attempts s ! i")
      case True
      then have "q = p" "pc = AStart w" using 1 gs_attempt(3) by auto
      with gs_attempt(5) 1(4) show ?thesis by (auto elim: as_startE)
    next
      case False
      then have "a \<in> set ((gs_attempts s)[i := \<lparr>ga_ih = q, ga_pc = pc'\<rparr>])"
        using 1(1) gs_attempt(2) by (metis in_set_conv_nth length_list_update nth_list_update_neq)
      then show ?thesis
        using 1 gs_attempt(1,3) by (auto simp: elsewhere_def set_attempt_def set_record_def)
    qed
  next
    case (2 j)
    then show ?thesis using gs_attempt(1) by (auto simp: elsewhere_def set_attempt_def set_record_def)
  qed
next
  case (gs_poll_fire j js)
  then show ?thesis using assms(1) by (auto simp: elsewhere_def launch_def)
qed (use assms(1) in \<open>auto simp: elsewhere_launch\<close>, auto simp: elsewhere_def)

section \<open>The departure of its worker\<close>

text \<open>The poll loop's targets are workers of the view and none of them is departing.\<close>

definition poll_apart :: "gateway_system \<Rightarrow> bool" where
  "poll_apart s \<longleftrightarrow> (case gs_poll s of
      PDeparted d \<Rightarrow> d \<inter> wi_WorkerId ` set (gs_view s) = {}
    | PCandidates d ws \<Rightarrow> d \<inter> wi_WorkerId ` set ws = {} \<and> ws \<noteq> []
    | _ \<Rightarrow> True)"

lemma poll_apart_step: "poll_apart s \<Longrightarrow> gs_step s l t \<Longrightarrow> poll_apart t"
  by (erule gs_step.cases)
    (auto simp: poll_apart_def departedIDs_eq healthyExcept_def set_handler_def set_record_def set_attempt_def launch_def
      split: poll_pc.splits)

lemma at_worker_step:
  assumes "attempt_step view p ih pc l ih' pc'" and "at_worker wid pc" and "assigned ih = wid"
  shows "assigned ih' = wid \<and> dispatched ih' = dispatched ih \<and> at_worker wid pc' \<or> (\<exists>w. pc' = AStart w \<and> wi_WorkerId w \<noteq> wid)"
  using assms(1)
proof cases
  case (as_snapshot w err)
  then show ?thesis using assms(2,3) by (auto simp: healthyExcept_def)
next
  case (as_replace w candidates draw replacement ex d err)
  then show ?thesis using locked_replaced(6) [OF as_replace(4)] assms(2) by simp
next
  case (as_exhaust w candidates draw d err)
  then show ?thesis using locked_not_replaced [OF as_exhaust(4)] assms(2,3) by simp
next
  case (as_over w candidates draw d err)
  then show ?thesis using locked_not_replaced [OF as_over(4)] assms(2,3) by simp
qed (use assms(2,3) in \<open>auto simp: cas_claim_def split: if_splits\<close>)

lemma heldD: "held p wid s \<Longrightarrow> \<exists>ih. heap (gs_tracker s) p = Some ih \<and> assigned ih = wid \<and> dispatched ih < maxAttempts"
  by (simp add: held_def)

text \<open>What a step leaves as it is.\<close>

lemma held_frame:
  assumes "held p wid s" and "map_option (\<lambda>ih. (assigned ih, dispatched ih)) (heap (gs_tracker t) p)
      = map_option (\<lambda>ih. (assigned ih, dispatched ih)) (heap (gs_tracker s) p)"
    and "gs_attempts t = gs_attempts s" and "\<forall>j \<in> set (jobs_of (gs_poll t)). j \<in> set (jobs_of (gs_poll s))"
    and "\<forall>h \<in> set (gs_handlers t). \<forall>w. gh_pc h = HRegistered p w \<longrightarrow> h \<in> set (gs_handlers s)"
  shows "held p wid t"
proof -
  obtain ih where ih: "heap (gs_tracker s) p = Some ih" "assigned ih = wid" "dispatched ih < maxAttempts"
    using heldD [OF assms(1)] by blast
  then obtain ih' where "heap (gs_tracker t) p = Some ih'" "assigned ih' = wid" "dispatched ih' < maxAttempts"
    using assms(2) by (cases "heap (gs_tracker t) p") auto
  moreover have "wi_WorkerId w = wid" if "h \<in> set (gs_handlers t)" "gh_pc h = HRegistered p w" for h w
    using assms(1,5) that unfolding held_def by blast
  moreover have "j_ih j \<noteq> p" if "j \<in> set (jobs_of (gs_poll t))" for j
    using assms(1,4) that by (simp add: held_def)
  ultimately show ?thesis using assms(1,3) by (simp add: held_def)
qed

lemma held_set_handler:
  "held p wid s \<Longrightarrow> \<forall>w. pc \<noteq> HRegistered p w \<Longrightarrow> held p wid (set_handler i pc s)"
  by (erule held_frame) (auto simp: set_handler_def dest!: set_update_subset_insert [THEN subsetD])

lemma held_attempt:
  assumes held: "held p wid s" and i: "i < length (gs_attempts s)" "gs_attempts s ! i = \<lparr>ga_ih = q, ga_pc = pc\<rparr>"
    and q: "heap (gs_tracker s) q = Some ih0" and step: "attempt_step (gs_view s) q ih0 pc l ih1 pc'"
    and t: "t = set_record q ih1 (set_attempt i pc' s)"
  shows "held p wid t \<or> elsewhere p wid t"
proof -
  have ga: "gs_attempts t = (gs_attempts s)[i := \<lparr>ga_ih = q, ga_pc = pc'\<rparr>]"
    using i(2) by (simp add: t set_attempt_def set_record_def)
  have rest: "gs_handlers t = gs_handlers s" "gs_poll t = gs_poll s" "heap (gs_tracker t) = (heap (gs_tracker s))(q \<mapsto> ih1)"
    by (simp_all add: t set_attempt_def set_record_def)
  obtain ih where ih: "heap (gs_tracker s) p = Some ih" "assigned ih = wid" "dispatched ih < maxAttempts"
    using heldD [OF held] by blast
  have others: "at_worker wid (ga_pc a)" if "a \<in> set (gs_attempts s)" "ga_ih a = p" for a
    using held that by (simp add: held_def)
  show ?thesis
  proof (cases "q = p")
    case True
    have "gs_attempts s ! i \<in> set (gs_attempts s)" using i(1) by simp
    then have "at_worker wid pc" using others i(2) True by force
    moreover have "ih0 = ih" using q ih(1) True by simp
    ultimately consider "assigned ih1 = wid" "dispatched ih1 = dispatched ih" "at_worker wid pc'"
      | w where "pc' = AStart w" "wi_WorkerId w \<noteq> wid"
      using at_worker_step [OF step] ih(2) by blast
    then show ?thesis
    proof cases
      case 1
      then have "\<forall>a \<in> set (gs_attempts t). ga_ih a = p \<longrightarrow> at_worker wid (ga_pc a)"
        using others unfolding ga by (auto dest!: set_update_subset_insert [THEN subsetD])
      then show ?thesis using held 1 ih(3) rest True by (simp add: held_def)
    next
      case (2 w)
      then have "\<lparr>ga_ih = p, ga_pc = AStart w\<rparr> \<in> set (gs_attempts t)"
        using i(1) True unfolding ga by (simp add: set_update_memI)
      then show ?thesis using 2(2) by (force simp: elsewhere_def)
    qed
  next
    case False
    then have "\<forall>a \<in> set (gs_attempts t). ga_ih a = p \<longrightarrow> at_worker wid (ga_pc a)"
      using others unfolding ga by (auto dest!: set_update_subset_insert [THEN subsetD])
    then show ?thesis using held False rest by (simp add: held_def)
  qed
qed

text \<open>The claim of a poll for this request, whose worker is departing or not.\<close>

lemma held_claim:
  assumes held: "held p wid s" and wf: "tracker_wf (gs_tracker s)" and poll: "gs_poll s = PCandidates d ws"
    and apart: "poll_apart s" and it: "iterates (requests (gs_tracker s)) ks"
    and c: "reroute_claim d ws draws ks (gs_tracker s) = (t', jobs, over)"
  shows "if listed_in s p \<and> wid \<in> d then elsewhere p wid (s\<lparr>gs_tracker := t', gs_poll := PFiring jobs\<rparr>)
    else held p wid (s\<lparr>gs_tracker := t', gs_poll := PFiring jobs\<rparr>)"
proof -
  obtain ih where ih: "heap (gs_tracker s) p = Some ih" "assigned ih = wid" "dispatched ih < maxAttempts"
    using heldD [OF held] by blast
  note sp = reroute_claim_spec [OF wf it c]
  have st: "stranded d ih \<longleftrightarrow> wid \<in> d" using ih by (simp add: stranded_def)
  have n: "count_if (\<lambda>j. j_ih j = p) jobs = of_bool (listed_in s p \<and> wid \<in> d)"
    using reroute_claim_jobs [OF wf it c ih(1)] st by (simp add: listed_in_def)
  show ?thesis
  proof (cases "listed_in s p \<and> wid \<in> d")
    case True
    then obtain j where j: "j \<in> set jobs" "j_ih j = p" using n count_if_pos [of "\<lambda>j. j_ih j = p" jobs] by auto
    then have "j_target j \<in> set ws" using sp(4) apart poll by (auto simp: poll_apart_def)
    then have "wi_WorkerId (j_target j) \<noteq> wid" using True apart poll by (auto simp: poll_apart_def)
    then show ?thesis using True j by (auto simp: elsewhere_def)
  next
    case False
    then have none: "\<forall>j \<in> set jobs. j_ih j \<noteq> p" using n count_if_pos [of "\<lambda>j. j_ih j = p" jobs] by force
    have "heap t' p = Some ih" unfolding sp(5) using ih(1) False st by (auto simp: listed_in_def)
    then have "held p wid (s\<lparr>gs_tracker := t', gs_poll := PFiring jobs\<rparr>)" using held ih none by (simp add: held_def)
    then show ?thesis by (simp add: False del: if_split)
  qed
qed

lemma held_launch:
  "held p wid s \<Longrightarrow> q = p \<longrightarrow> wi_WorkerId w = wid \<Longrightarrow> held p wid (launch q w s)"
  by (simp add: held_def launch_def)

text \<open>The step at which the poll loop claims, and every other one.\<close>

fun departing :: "string \<Rightarrow> poll_pc \<Rightarrow> bool" where
  "departing wid (PDeparted d) = (wid \<in> d)"
| "departing wid (PCandidates d ws) = (wid \<in> d)"
| "departing wid pp = False"

lemma held_step:
  assumes inv: "gs_inv s" and apart: "poll_apart s" and held: "held p wid s" and step: "gs_step s l t"
  shows "held p wid t \<and> (departing wid (gs_poll s) \<and> listed_in s p \<longrightarrow> (\<forall>jobs. gs_poll t \<noteq> PFiring jobs)) \<or> elsewhere p wid t"
proof -
  have wf: "tracker_wf (gs_tracker s)" using inv by (simp add: gs_inv_def refs_ok_def)
  obtain ih where ih: "heap (gs_tracker s) p = Some ih" using heldD [OF held] by blast
  have nf: "departing wid (gs_poll s) \<longrightarrow> (\<forall>jobs. gs_poll t \<noteq> PFiring jobs)" if "gs_poll t = gs_poll s"
    using that by (cases "gs_poll s") auto
  show ?thesis using step
  proof cases
    case (gs_register i w q t')
    have h: "\<lparr>gh_req = handler_req i s, gh_pc = HPicked w\<rparr> \<in> set (gs_handlers s)"
      using gs_register(3) by (auto simp: handler_at_def in_set_conv_nth)
    have "q \<noteq> p" using gs_register(4) ih wf by (auto simp: register_Inr tracker_wf_def)
    then have "held p wid t"
      unfolding gs_register(2) using gs_register(4) by (intro held_set_handler held_frame [OF held]) (auto simp: register_Inr)
    then show ?thesis using nf gs_register(2) by simp
  next
    case (gs_duplicate i w err t')
    then have "held p wid t"
      unfolding gs_duplicate(2) by (intro held_set_handler held_frame [OF held]) (auto simp: register_Inl)
    then show ?thesis using nf gs_duplicate(2) by simp
  next
    case (gs_launch i q w)
    have "\<lparr>gh_req = handler_req i s, gh_pc = HRegistered q w\<rparr> \<in> set (gs_handlers s)"
      using gs_launch(3) by (auto simp: handler_at_def in_set_conv_nth)
    then have "q = p \<longrightarrow> wi_WorkerId w = wid" using held by (force simp: held_def)
    then have "held p wid t" unfolding gs_launch(2) by (intro held_launch held_set_handler [OF held]) simp_all
    then show ?thesis using nf gs_launch(2) by (simp add: launch_def)
  next
    case (gs_receive i q ih0 r ih1)
    have "held p wid t"
      unfolding gs_receive(2)
      by (rule held_frame [OF held_set_handler [OF held, of "HReturning q (outcome_of r)" i]])
        (use gs_receive(4,5) ih in \<open>auto simp: take_result_def set_record_def\<close>)
    then show ?thesis using nf gs_receive(2) by simp
  next
    case (gs_return i q out)
    have "held p wid t"
      unfolding gs_return(2) by (intro held_set_handler held_frame [OF held]) auto
    then show ?thesis using nf gs_return(2) by simp
  next
    case (gs_attempt i q pc ih0 ih1 pc')
    from held_attempt [OF held gs_attempt(2-5) gs_attempt(1)] nf gs_attempt(1) show ?thesis
      by (auto simp: set_record_def set_attempt_def)
  next
    case (gs_poll_claim d ws ks draws t' jobs over)
    from held_claim [OF held wf gs_poll_claim(3) apart gs_poll_claim(4,5)] gs_poll_claim(2,3) show ?thesis
      by (auto split: if_splits)
  next
    case (gs_poll_fire j js)
    then have "j_ih j \<noteq> p" using held by (auto simp: held_def)
    then have "held p wid t"
      unfolding gs_poll_fire(2) using gs_poll_fire(3) by (intro held_launch held_frame [OF held]) auto
    then show ?thesis using gs_poll_fire by simp
  next
    case (gs_arrive req)
    have "held p wid t" unfolding gs_arrive(2) by (rule held_frame [OF held]) auto
    then show ?thesis using nf gs_arrive by simp
  qed (use held_set_handler [OF held] nf in \<open>auto intro: held_frame [OF held]\<close>)
qed

text \<open>What the gateway's steps do to the poll loop and the view.\<close>

lemma poll_moves:
  "gs_step s l t \<Longrightarrow> gs_poll t = gs_poll s \<and> gs_view t = gs_view s
     \<or> (case gs_poll s of
          PIdle \<Rightarrow> (\<exists>f. gs_poll t = PFetched f) \<and> gs_view t = gs_view s
        | PFetched f \<Rightarrow> gs_view t = f
            \<and> gs_poll t = (if departedIDs (gs_view s) f = {} then PIdle else PDeparted (departedIDs (gs_view s) f))
        | PDeparted d \<Rightarrow> gs_view t = gs_view s
            \<and> (healthyExcept d (gs_view s) = [] \<and> gs_poll t = PIdle \<or> (\<exists>ws. gs_poll t = PCandidates d ws))
        | PCandidates d ws \<Rightarrow> gs_view t = gs_view s \<and> (\<exists>js. gs_poll t = PFiring js)
        | PFiring js \<Rightarrow> gs_view t = gs_view s \<and> ((\<exists>js'. gs_poll t = PFiring js') \<or> gs_poll t = PIdle))"
  by (erule gs_step.cases) (auto simp: set_handler_def set_record_def set_attempt_def launch_def)

section \<open>The request the slow path misses\<close>

text \<open>
  A request that is assigned to a worker the view does not have any more, with its calls in flight, and no poll in progress that
  drops the worker.
\<close>

definition parked :: "ptr \<Rightarrow> string \<Rightarrow> gateway_system \<Rightarrow> bool" where
  "parked p wid s \<longleftrightarrow> (\<exists>ih. heap (gs_tracker s) p = Some ih \<and> assigned ih = wid)
     \<and> (\<forall>a \<in> set (gs_attempts s). ga_ih a = p \<longrightarrow> attempt_calm (ga_pc a))
     \<and> (\<forall>h \<in> set (gs_handlers s). \<forall>w. gh_pc h \<noteq> HRegistered p w)
     \<and> (\<forall>j \<in> set (jobs_of (gs_poll s)). j_ih j \<noteq> p)"

definition forsaken :: "ptr \<Rightarrow> string \<Rightarrow> gateway_system \<Rightarrow> bool" where
  "forsaken p wid s \<longleftrightarrow> parked p wid s \<and> wid \<notin> wi_WorkerId ` set (gs_view s) \<and> \<not> departing wid (gs_poll s)
     \<and> (\<forall>f. gs_poll s = PFetched f \<longrightarrow> wid \<notin> wi_WorkerId ` set f)"

text \<open>Steps during which the worker stays out of the listings and the calls for the request do not return.\<close>

definition stays_out :: "string \<Rightarrow> ptr \<Rightarrow> gateway_system \<Rightarrow> gs_label \<Rightarrow> gateway_system \<Rightarrow> bool" where
  "stays_out wid p s l t \<longleftrightarrow> gs_step s l t \<and> (\<forall>w r. l \<noteq> LReply p w r)
     \<and> (\<forall>f. gs_poll t = PFetched f \<longrightarrow> wid \<notin> wi_WorkerId ` set f)"

definition spent_on :: "ptr \<Rightarrow> gateway_system \<Rightarrow> (string \<times> int) option" where
  "spent_on p s = map_option (\<lambda>ih. (assigned ih, dispatched ih)) (heap (gs_tracker s) p)"

lemma forsaken_view:
  assumes "forsaken p wid s" and "stays_out wid p s l t"
  shows "wid \<notin> wi_WorkerId ` set (gs_view t)" and "\<not> departing wid (gs_poll t)"
    and "gs_poll t = PFetched f \<Longrightarrow> wid \<notin> wi_WorkerId ` set f"
proof -
  have "gs_step s l t" using assms(2) by (simp add: stays_out_def)
  then show "wid \<notin> wi_WorkerId ` set (gs_view t)" "\<not> departing wid (gs_poll t)"
    using poll_moves [of s l t] assms(1)
    by (cases "gs_poll s"; auto simp: forsaken_def departedIDs_eq split: if_splits)+
qed (use assms(2) in \<open>auto simp: stays_out_def\<close>)

lemma parked_frame:
  assumes "parked p wid s" and "spent_on p t = spent_on p s"
    and "\<forall>a \<in> set (gs_attempts t). ga_ih a = p \<longrightarrow> a \<in> set (gs_attempts s) \<or> attempt_calm (ga_pc a)"
    and "\<forall>j \<in> set (jobs_of (gs_poll t)). j_ih j = p \<longrightarrow> j \<in> set (jobs_of (gs_poll s))"
    and "\<forall>h \<in> set (gs_handlers t). \<forall>w. gh_pc h = HRegistered p w \<longrightarrow> h \<in> set (gs_handlers s)"
  shows "parked p wid t"
proof -
  have "\<exists>ih. heap (gs_tracker t) p = Some ih \<and> assigned ih = wid"
    using assms(1,2) by (auto simp: parked_def spent_on_def)
  moreover have "attempt_calm (ga_pc a)" if "a \<in> set (gs_attempts t)" "ga_ih a = p" for a
    using assms(1,3) that unfolding parked_def by blast
  moreover have "gh_pc h \<noteq> HRegistered p w" if "h \<in> set (gs_handlers t)" for h w
    using assms(1,5) that unfolding parked_def by blast
  moreover have "j_ih j \<noteq> p" if "j \<in> set (jobs_of (gs_poll t))" for j
    using assms(1,4) that unfolding parked_def by blast
  ultimately show ?thesis by (simp add: parked_def)
qed

lemma parked_set_handler:
  assumes "parked p wid s" and "\<forall>w. pc \<noteq> HRegistered p w"
  shows "parked p wid (set_handler i pc s)" and "spent_on p (set_handler i pc s) = spent_on p s"
proof -
  show sp: "spent_on p (set_handler i pc s) = spent_on p s" by (simp add: spent_on_def)
  show "parked p wid (set_handler i pc s)"
    by (rule parked_frame [OF assms(1) sp])
      (use assms(2) in \<open>auto simp: set_handler_def dest!: set_update_subset_insert [THEN subsetD]\<close>)
qed

lemma parked_tracker:
  "parked p wid s \<Longrightarrow> spent_on p (s\<lparr>gs_tracker := t\<rparr>) = spent_on p s \<Longrightarrow> parked p wid (s\<lparr>gs_tracker := t\<rparr>)"
  by (erule parked_frame) simp_all

lemma parked_attempt:
  assumes parked: "parked p wid s" and i: "i < length (gs_attempts s)" "gs_attempts s ! i = \<lparr>ga_ih = q, ga_pc = pc\<rparr>"
    and q: "heap (gs_tracker s) q = Some ih0" and step: "attempt_step (gs_view s) q ih0 pc l ih1 pc'"
    and t: "t = set_record q ih1 (set_attempt i pc' s)" and unheard: "\<forall>w r. l \<noteq> LReply p w r"
  shows "parked p wid t \<and> spent_on p t = spent_on p s \<and> \<not> is_call p l"
proof -
  have "q \<noteq> p"
  proof
    assume qp: "q = p"
    have "gs_attempts s ! i \<in> set (gs_attempts s)" using i(1) by simp
    then have calm: "attempt_calm pc" using parked i(2) qp by (force simp: parked_def)
    from step show False by cases (use calm unheard qp in auto)
  qed
  then have "spent_on p t = spent_on p s" by (simp add: t spent_on_def)
  moreover have "is_call p l \<Longrightarrow> p = q" by (rule attempt_step_calls(3) [OF step])
  moreover have "gs_attempts t = (gs_attempts s)[i := \<lparr>ga_ih = q, ga_pc = pc'\<rparr>]"
    using i(2) by (simp add: t set_attempt_def set_record_def)
  then have "\<forall>a \<in> set (gs_attempts t). ga_ih a = p \<longrightarrow> a \<in> set (gs_attempts s)"
    using \<open>q \<noteq> p\<close> by (auto dest!: set_update_subset_insert [THEN subsetD])
  ultimately show ?thesis
    using parked_frame [OF parked, of t] \<open>q \<noteq> p\<close> by (auto simp: t set_record_def set_attempt_def)
qed

lemma parked_step:
  assumes wf: "tracker_wf (gs_tracker s)" and parked: "parked p wid s" and out: "\<not> departing wid (gs_poll s)"
    and step: "gs_step s l t" and unheard: "\<forall>w r. l \<noteq> LReply p w r"
  shows "parked p wid t \<and> spent_on p t = spent_on p s \<and> \<not> is_call p l"
proof -
  obtain ih where ih: "heap (gs_tracker s) p = Some ih" "assigned ih = wid" using parked by (auto simp: parked_def)
  have h: "\<forall>h \<in> set (gs_handlers s). \<forall>w. gh_pc h \<noteq> HRegistered p w" and j: "\<forall>j \<in> set (jobs_of (gs_poll s)). j_ih j \<noteq> p"
    using parked by (simp_all add: parked_def)
  note frame = parked_frame [OF parked] and handler = parked_set_handler [OF parked]
  have moved: ?thesis
    if t: "t = set_handler i pc (s\<lparr>gs_tracker := u\<rparr>)" and sp: "spent_on p (s\<lparr>gs_tracker := u\<rparr>) = spent_on p s"
      and "\<forall>w. pc \<noteq> HRegistered p w" "\<not> is_call p l" for i pc u
    using parked_set_handler [OF parked_tracker [OF parked sp] that(3)] that(4) sp unfolding t by simp
  show ?thesis using step
  proof cases
    case (gs_register i w q t')
    then have q: "q \<noteq> p" using ih(1) wf by (auto simp: register_Inr tracker_wf_def)
    show ?thesis by (rule moved [OF gs_register(2)]) (use q gs_register(1,4) in \<open>auto simp: spent_on_def register_Inr\<close>)
  next
    case (gs_duplicate i w err t')
    show ?thesis by (rule moved [OF gs_duplicate(2)]) (use gs_duplicate(1,4) in \<open>auto simp: register_Inl\<close>)
  next
    case (gs_return i q out)
    show ?thesis by (rule moved [OF gs_return(2)]) (use gs_return(1) in \<open>auto simp: spent_on_def\<close>)
  next
    case (gs_launch i q w)
    have "\<lparr>gh_req = handler_req i s, gh_pc = HRegistered q w\<rparr> \<in> set (gs_handlers s)"
      using gs_launch(3) by (auto simp: handler_at_def in_set_conv_nth)
    then have q: "q \<noteq> p" using h by force
    have sp: "spent_on p t = spent_on p s" using gs_launch(2) by (simp add: launch_def spent_on_def)
    have "parked p wid t"
      unfolding gs_launch(2) by (rule parked_frame [OF handler(1) [of "HWaiting q" i]]) (use q in \<open>auto simp: launch_def spent_on_def\<close>)
    then show ?thesis using sp gs_launch(1) by simp
  next
    case (gs_receive i q ih0 r ih1)
    then have sp: "spent_on p t = spent_on p s" using ih(1) by (auto simp: spent_on_def take_result_def)
    have "parked p wid t"
      unfolding gs_receive(2) by (rule parked_frame [OF handler(1) [of "HReturning q (outcome_of r)" i]])
        (use sp handler(2) gs_receive(2) in \<open>auto simp: set_record_def\<close>)
    then show ?thesis using sp gs_receive(1) by simp
  next
    case (gs_attempt i q pc ih0 ih1 pc')
    show ?thesis by (rule parked_attempt [OF parked gs_attempt(2-5) gs_attempt(1) unheard])
  next
    case (gs_poll_claim d ws ks draws t' jobs over)
    have no: "\<not> stranded d ih" using out ih(2) gs_poll_claim(3) by (simp add: stranded_def)
    then have "heap t' p = Some ih" unfolding reroute_claim_spec(5) [OF wf gs_poll_claim(4,5)] using ih(1) by simp
    then have sp: "spent_on p t = spent_on p s" using ih(1) gs_poll_claim(2) by (simp add: spent_on_def)
    have "\<forall>j \<in> set jobs. j_ih j \<noteq> p"
      using reroute_claim_jobs [OF wf gs_poll_claim(4,5) ih(1)] no count_if_pos [of "\<lambda>j. j_ih j = p" jobs] by force
    then have "parked p wid t" by (intro frame sp) (simp_all add: gs_poll_claim(2))
    then show ?thesis using sp gs_poll_claim(1) by simp
  next
    case (gs_poll_fire k js)
    then have q: "j_ih k \<noteq> p" using j by simp
    have sp: "spent_on p t = spent_on p s" using gs_poll_fire(2) by (simp add: launch_def spent_on_def)
    have "parked p wid t" by (intro frame sp) (use q gs_poll_fire(2,3) in \<open>auto simp: launch_def\<close>)
    then show ?thesis using sp gs_poll_fire(1) by simp
  next
    case (gs_arrive req)
    have sp: "spent_on p t = spent_on p s" using gs_arrive(2) by (simp add: spent_on_def)
    have "parked p wid t" by (intro frame sp) (auto simp: gs_arrive(2))
    then show ?thesis using sp gs_arrive(1) by simp
  next
    case gs_poll_failed
    then show ?thesis using parked by simp
  qed (use handler in \<open>simp_all\<close>, (intro conjI frame; simp add: spent_on_def)+)
qed

lemma forsaken_exec:
  assumes "exec (stays_out wid p) s ls t" and "gs_inv s" and "forsaken p wid s"
  shows "gs_inv t \<and> forsaken p wid t \<and> spent_on p t = spent_on p s \<and> (\<forall>l \<in> set ls. \<not> is_call p l)"
  using assms(1)
proof (induction rule: exec.induct)
  case exec_nil
  then show ?case using assms by simp
next
  case (exec_snoc ls t l u)
  then have step: "gs_step t l u" and unheard: "\<forall>w r. l \<noteq> LReply p w r" by (auto simp: stays_out_def)
  have inv: "gs_inv t" and f: "forsaken p wid t" and wf: "tracker_wf (gs_tracker t)"
    using exec_snoc.IH by (simp_all add: gs_inv_def refs_ok_def)
  have "parked p wid t" "\<not> departing wid (gs_poll t)" using f by (simp_all add: forsaken_def)
  from parked_step [OF wf this step unheard] have "parked p wid u" "spent_on p u = spent_on p t" "\<not> is_call p l" by blast+
  moreover have "forsaken p wid u" using \<open>parked p wid u\<close> forsaken_view [OF f exec_snoc(2)] by (simp add: forsaken_def)
  ultimately show ?case using exec_snoc.IH gs_inv_step [OF inv step] by auto
qed

section \<open>The race that leaves a request behind\<close>

text \<open>
  \<open>w1\<close> is picked for the request; before it is registered the poll drops \<open>w1\<close>, finds nothing on it and is over. Then the request is
  registered with \<open>w1\<close> and sent there.
\<close>

abbreviation ex_late :: "wire_worker list \<Rightarrow> poll_pc \<Rightarrow> gateway_system" where
  "ex_late v pp \<equiv> ex_gs v NewRequestTracker (HPicked (ex_wire ''w1'')) [] pp"

abbreviation ex_left :: "handler_pc \<Rightarrow> attempt_pc list \<Rightarrow> poll_pc \<Rightarrow> gateway_system" where
  "ex_left h as pp \<equiv> ex_gs [ex_wire ''w2''] (ex_table ''w1'' 1 1 {} False []) h as pp"

lemma ex_poll_passes:
  "exec gs_step (ex_late [ex_wire ''w1''] PIdle) [LTau, LTau, LTau, LTau, LTau] (ex_late [ex_wire ''w2''] PIdle)"
proof -
  let ?w = "ex_wire ''w2''"
  have 1: "gs_step (ex_late [ex_wire ''w1''] PIdle) LTau (ex_late [ex_wire ''w1''] (PFetched [?w]))"
    using gs_poll_fetch [of "ex_late [ex_wire ''w1''] PIdle" "\<lparr>lw_Workers = [?w]\<rparr>"] by (simp add: ex_gs_def)
  have 2: "gs_step (ex_late [ex_wire ''w1''] (PFetched [?w])) LTau (ex_late [?w] (PDeparted {''w1''}))"
    using gs_poll_departed [of "ex_late [ex_wire ''w1''] (PFetched [?w])" "[?w]"] by (simp add: ex_gs_def departedIDs_eq)
  have 3: "gs_step (ex_late [?w] (PDeparted {''w1''})) LTau (ex_late [?w] (PCandidates {''w1''} [?w]))"
    using gs_poll_snapshot [of "ex_late [?w] (PDeparted {''w1''})" "{''w1''}"] by (simp add: ex_gs_def healthyExcept_def)
  have 4: "gs_step (ex_late [?w] (PCandidates {''w1''} [?w])) LTau (ex_late [?w] (PFiring []))"
    using gs_poll_claim [of "ex_late [?w] (PCandidates {''w1''} [?w])" "{''w1''}" "[?w]" "[]"]
    by (simp add: ex_gs_def NewRequestTracker_def iterates_def reroute_claim_def)
  have 5: "gs_step (ex_late [?w] (PFiring [])) LTau (ex_late [?w] PIdle)"
    using gs_poll_end [of "ex_late [?w] (PFiring [])"] by (simp add: ex_gs_def)
  show ?thesis
    by (rule run_cons [OF 1 run_cons [OF 2 run_cons [OF 3 run_cons [OF 4 run_cons [OF 5 exec_nil]]]]])
qed

lemma ex_late_dispatch:
  "exec gs_step (ex_late [ex_wire ''w2''] PIdle) [LTau, LTau, LCall 0 (ex_wire ''w1'') ex_request]
     (ex_left (HWaiting 0) [AAir (ex_wire ''w1'')] PIdle)"
proof -
  let ?w = "ex_wire ''w1''"
  let ?ih = "\<lparr>ih_req = ex_request, assigned = ''w1'', attempts = 1, dispatched = 1, tried = {}, claimed = False, ih_result = []\<rparr>"
  have "register ex_request ''w1'' NewRequestTracker = (Inr 0, ex_table ''w1'' 1 1 {} False [])"
    by (simp add: register_def NewRequestTracker_def ex_table_def new_inflight_def)
  then have 1: "gs_step (ex_late [ex_wire ''w2''] PIdle) LTau (ex_left (HRegistered 0 ?w) [] PIdle)"
    using gs_register [of 0 ?w "ex_late [ex_wire ''w2''] PIdle" 0 "ex_table ''w1'' 1 1 {} False []"] by (simp add: ex_defs)
  have 2: "gs_step (ex_left (HRegistered 0 ?w) [] PIdle) LTau (ex_left (HWaiting 0) [AStart ?w] PIdle)"
    using gs_launch [of 0 0 ?w "ex_left (HRegistered 0 ?w) [] PIdle"] by (simp add: ex_defs)
  have 3: "gs_step (ex_left (HWaiting 0) [AStart ?w] PIdle) (LCall 0 ?w ex_request) (ex_left (HWaiting 0) [AAir ?w] PIdle)"
    using ex_attempt [OF as_call [of "[ex_wire ''w2'']" 0 ?ih ?w, simplified], of 0 "[AStart ?w]"] by simp
  show ?thesis by (rule run_cons [OF 1 run_cons [OF 2 run_cons [OF 3 exec_nil]]])
qed

lemma ex_left_reachable: "reachable gs_init gs_step (ex_left (HWaiting 0) [AAir (ex_wire ''w1'')] PIdle)"
proof -
  have "exec gs_step gateway_new ([LTau, LTau, LTau] @ [LTau]) (ex_late [ex_wire ''w1''] PIdle)"
    by (rule exec_append [OF exec_single [where step = gs_step, OF ex_first_dispatch(1)] ex_admitted])
  from exec_append [OF ex_late_dispatch exec_append [OF ex_poll_passes this]]
  show ?thesis unfolding reachable_def gs_init_def by blast
qed

lemma ex_left_forsaken: "forsaken 0 ''w1'' (ex_left (HWaiting 0) [AAir (ex_wire ''w1'')] PIdle)"
  by (simp add: forsaken_def parked_def ex_gs_def ex_table_def)

section \<open>Properties\<close>

text \<open>
  C17. A request the slow path misses. The comment on \<^verbatim>\<open>rerouteFrom\<close> promises to re-dispatch every request stranded on a departed worker;
  but \<^verbatim>\<open>pollOnce\<close> looks only at the workers that leave the view in this poll. Whenever a request is assigned to a worker that has left
  already, no poll and no other goroutine ever calls another worker for it, while its calls stay out (a frozen worker's do, until
  \<^verbatim>\<open>attemptTimeout\<close>) and the worker stays away, whatever budget is left and however many workers are healthy. The state is
  reachable: \<^verbatim>\<open>Generate\<close> picks a worker and registers the request under another lock, and a poll fits between the two.
\<close>

theorem late_registration_is_never_rerouted:
  assumes "reachable gs_init gs_step s" and "forsaken p wid s" and "exec (stays_out wid p) s ls t"
  shows "(\<forall>v req. LCall p v req \<notin> set ls) \<and> spent_on p t = spent_on p s \<and> forsaken p wid t"
proof -
  have "gs_inv s" by (rule gs.sinv_reachable [OF assms(1)])
  from forsaken_exec [OF assms(3) this assms(2)] show ?thesis by fastforce
qed

theorem late_registration_is_never_rerouted_witness:
  "\<exists>s t. reachable gs_init gs_step s \<and> handler_at 0 (HWaiting 0) s \<and> gs_view s = [ex_wire ''w2''] \<and> spent_on 0 s = Some (''w1'', 1)
     \<and> exec (stays_out ''w1'' 0) s [LTau, LTau] t \<and> spent_on 0 t = Some (''w1'', 1) \<and> forsaken 0 ''w1'' t"
proof -
  let ?s = "ex_left (HWaiting 0) [AAir (ex_wire ''w1'')]"
  have "gs_step (?s PIdle) LTau (?s (PFetched [ex_wire ''w2'']))"
    using gs_poll_fetch [of "?s PIdle" "\<lparr>lw_Workers = [ex_wire ''w2'']\<rparr>"] by (simp add: ex_gs_def)
  then have 1: "stays_out ''w1'' 0 (?s PIdle) LTau (?s (PFetched [ex_wire ''w2'']))" by (simp add: stays_out_def ex_gs_def)
  have "gs_step (?s (PFetched [ex_wire ''w2''])) LTau (?s PIdle)"
    using gs_poll_same [of "?s (PFetched [ex_wire ''w2''])" "[ex_wire ''w2'']"] by (simp add: ex_gs_def departedIDs_eq)
  then have 2: "stays_out ''w1'' 0 (?s (PFetched [ex_wire ''w2''])) LTau (?s PIdle)" by (simp add: stays_out_def ex_gs_def)
  have run: "exec (stays_out ''w1'' 0) (?s PIdle) [LTau, LTau] (?s PIdle)"
    by (rule exec_cons [where step = "stays_out ''w1'' 0", OF 1 exec_single [where step = "stays_out ''w1'' 0", OF 2]])
  have sp: "spent_on 0 (?s PIdle) = Some (''w1'', 1)" by (simp add: spent_on_def ex_gs_def ex_table_def)
  have "handler_at 0 (HWaiting 0) (?s PIdle)" "gs_view (?s PIdle) = [ex_wire ''w2'']" by (simp_all add: ex_gs_def handler_at_def)
  with late_registration_is_never_rerouted [OF ex_left_reachable ex_left_forsaken run] ex_left_reachable run sp
  show ?thesis by blast
qed

end
