(* ===== verification/Failover.thy ===== *)
theory Failover
  imports Deployment Control_Plane_Time Gateway_Rescue
begin

text \<open>
  The deployed system in time: the scanner sweeps at the ticks of its ticker, the gateway polls at the ticks of its own (\<^verbatim>\<open>PollLoop\<close> in
  \<^verbatim>\<open>internal/gateway/gateway.go\<close>), a call of \<^verbatim>\<open>ListWorkers\<close> is answered or fails within a latency, and computing takes no
  time. The theory bounds how long a request stays with a worker that fell silent.
\<close>

section \<open>The timed deployment\<close>

record timed_deployment =
  td_sys :: deployment
  td_scan :: time
  td_poll :: time
  td_asked :: "time option"

datatype td_label = TdAct dp_label | TdPoll

abbreviation td_gw :: "timed_deployment \<Rightarrow> gateway_system" where
  "td_gw s \<equiv> dp_gw (td_sys s)"

abbreviation td_clock :: "timed_deployment \<Rightarrow> time" where
  "td_clock s \<equiv> cp_clock (dp_cp (td_sys s))"

abbreviation td_interval :: "timed_deployment \<Rightarrow> duration" where
  "td_interval s \<equiv> PollInterval (cfg (cp_det (dp_cp (td_sys s))))"

text \<open>A ticker of interval \<open>iv\<close> keeps one tick that is not taken, and drops the ones that come before it is.\<close>

definition next_tick :: "duration \<Rightarrow> time \<Rightarrow> time \<Rightarrow> time" where
  "next_tick iv due now = due + iv * ((now - due) div iv + 1)"

fun plain :: "dp_label \<Rightarrow> bool" where
  "plain (DpControl l) = untimed l"
| "plain (DpGateway l) = True"
| "plain l = False"

inductive td_step :: "float_env \<Rightarrow> duration \<Rightarrow> duration \<Rightarrow> timed_deployment \<Rightarrow> td_label \<Rightarrow> timed_deployment \<Rightarrow> bool"
  for fe :: float_env and iv :: duration and lat :: duration and s :: timed_deployment where
  td_act: "dp_step fe (td_sys s) l u \<Longrightarrow> plain l \<Longrightarrow> td_step fe iv lat s (TdAct l) (s\<lparr>td_sys := u\<rparr>)"
| td_sweep: "dp_step fe (td_sys s) (DpControl (SnapshotL (td_scan s))) u \<Longrightarrow> td_scan s = td_clock s \<Longrightarrow>
    td_step fe iv lat s (TdAct (DpControl (SnapshotL (td_scan s)))) (s\<lparr>td_sys := u, td_scan := td_scan s + td_interval s\<rparr>)"
| td_ask: "gs_poll (td_gw s) = PIdle \<Longrightarrow> td_asked s = None \<Longrightarrow> td_poll s \<le> td_clock s \<Longrightarrow>
    td_step fe iv lat s TdPoll (s\<lparr>td_poll := next_tick iv (td_poll s) (td_clock s), td_asked := Some (td_clock s)\<rparr>)"
| td_listed: "td_asked s = Some a \<Longrightarrow> dp_reply (td_sys s) = None \<Longrightarrow> dp_step fe (td_sys s) (DpListed resp) u \<Longrightarrow>
    td_step fe iv lat s (TdAct (DpListed resp)) (s\<lparr>td_sys := u\<rparr>)"
| td_delivered: "td_asked s = Some a \<Longrightarrow> dp_step fe (td_sys s) DpDelivered u \<Longrightarrow>
    td_step fe iv lat s (TdAct DpDelivered) (s\<lparr>td_sys := u, td_asked := None\<rparr>)"
| td_lost: "td_asked s = Some a \<Longrightarrow> dp_step fe (td_sys s) DpLost u \<Longrightarrow>
    td_step fe iv lat s (TdAct DpLost) (s\<lparr>td_sys := u, td_asked := None\<rparr>)"
| td_delay: "dp_step fe (td_sys s) (DpControl TickL) u \<Longrightarrow> cp_scan (dp_cp (td_sys s)) = ScanIdle \<Longrightarrow> calm (td_gw s) \<Longrightarrow>
    cp_clock (dp_cp u) \<le> td_scan s \<Longrightarrow> cp_clock (dp_cp u) \<le> (case td_asked s of None \<Rightarrow> td_poll s | Some a \<Rightarrow> a + lat) \<Longrightarrow>
    td_step fe iv lat s (TdAct (DpControl TickL)) (s\<lparr>td_sys := u\<rparr>)"

text \<open>The gateway polls once at its start.\<close>

definition td_init :: "duration \<Rightarrow> duration \<Rightarrow> timed_deployment \<Rightarrow> bool" where
  "td_init iv lat s \<longleftrightarrow> 0 < iv \<and> 0 \<le> lat \<and> dp_init (td_sys s) \<and> 0 < td_interval s \<and> td_scan s = td_clock s + td_interval s
     \<and> td_poll s = td_clock s \<and> td_asked s = None"

definition td_plane :: "timed_deployment \<Rightarrow> timed_plane" where
  "td_plane s = \<lparr>tp_cp = dp_cp (td_sys s), tp_due = td_scan s\<rparr>"

definition td_inv :: "duration \<Rightarrow> duration \<Rightarrow> timed_deployment \<Rightarrow> bool" where
  "td_inv iv lat s \<longleftrightarrow> 0 < iv \<and> 0 \<le> lat \<and> tp_inv (td_plane s) \<and> gs_inv (td_gw s) \<and> poll_apart (td_gw s)
     \<and> td_poll s \<le> td_clock s + iv
     \<and> (case td_asked s of
          None \<Rightarrow> dp_reply (td_sys s) = None
        | Some a \<Rightarrow> gs_poll (td_gw s) = PIdle \<and> a \<le> td_clock s \<and> td_clock s \<le> a + lat \<and> td_poll s \<le> a + iv)"

lemma td_plane_sel [simp]: "tp_cp (td_plane s) = dp_cp (td_sys s)" "tp_due (td_plane s) = td_scan s"
  by (simp_all add: td_plane_def)

lemma dp_controlE: "dp_step fe s (DpControl l) u \<Longrightarrow> \<exists>c. cp_step fe (dp_cp s) l c \<and> u = s\<lparr>dp_cp := c\<rparr>"
  by (erule dp_step.cases) auto

lemma dp_listedE:
  "dp_step fe s (DpListed resp) u \<Longrightarrow> gs_poll (dp_gw s) = PIdle \<and> cp_step fe (dp_cp s) (ListWorkersL resp) (dp_cp s)
     \<and> u = s\<lparr>dp_reply := Some resp\<rparr>"
  by (erule dp_step.cases) (auto elim: cp_step.cases)

lemma dp_deliveredE:
  assumes "dp_step fe s DpDelivered u"
  obtains resp where "dp_reply s = Some resp" and "gs_poll (dp_gw s) = PIdle"
    and "gs_step (dp_gw s) LTau ((dp_gw s)\<lparr>gs_poll := PFetched (lw_Workers resp)\<rparr>)"
    and "u = s\<lparr>dp_gw := (dp_gw s)\<lparr>gs_poll := PFetched (lw_Workers resp)\<rparr>, dp_reply := None\<rparr>"
  using assms by (cases rule: dp_step.cases) auto

lemma dp_lostE: "dp_step fe s DpLost u \<Longrightarrow> u = s\<lparr>dp_reply := None\<rparr>"
  by (erule dp_step.cases) auto

text \<open>What the control plane does in it.\<close>

fun silent :: "string \<Rightarrow> td_label \<Rightarrow> bool" where
  "silent wid (TdAct (DpControl l)) = (\<not> concerns wid l)"
| "silent wid l = True"

lemma plane_step:
  assumes "td_step fe iv lat s l t"
  shows "td_plane t = td_plane s \<or> (\<exists>l'. tp_step fe (td_plane s) l' (td_plane t) \<and> (silent wid l \<longrightarrow> \<not> concerns wid l'))"
  using assms
proof cases
  case (td_act l' u)
  show ?thesis
  proof (cases l')
    case (DpControl k)
    then obtain c where c: "cp_step fe (dp_cp (td_sys s)) k c" "u = (td_sys s)\<lparr>dp_cp := c\<rparr>" "untimed k"
      using dp_controlE td_act by fastforce
    then have "tp_step fe (td_plane s) k (td_plane t)"
      using tp_act [of fe "td_plane s" k c] td_act(2) by (simp add: td_plane_def)
    then show ?thesis using td_act(1) DpControl by auto
  next
    case (DpGateway k)
    then show ?thesis using td_act by (auto simp: td_plane_def elim: dp_step.cases)
  qed (use td_act in auto)
next
  case (td_sweep u)
  obtain c where c: "cp_step fe (dp_cp (td_sys s)) (SnapshotL (td_scan s)) c" "u = (td_sys s)\<lparr>dp_cp := c\<rparr>"
    using dp_controlE [OF td_sweep(3)] by blast
  then have "tp_step fe (td_plane s) (SnapshotL (td_scan s)) (td_plane t)"
    using tp_scan [of fe "td_plane s" c] td_sweep(2,4) by (simp add: td_plane_def)
  then show ?thesis by (intro disjI2 exI conjI) auto
next
  case (td_delay u)
  obtain c where c: "cp_step fe (dp_cp (td_sys s)) TickL c" "u = (td_sys s)\<lparr>dp_cp := c\<rparr>"
    using dp_controlE [OF td_delay(3)] by blast
  then have "tp_step fe (td_plane s) TickL (td_plane t)"
    using tp_delay [of fe "td_plane s" c] td_delay(2,4,6) by (simp add: td_plane_def)
  then show ?thesis by (intro disjI2 exI conjI) auto
next
  case (td_listed a resp u)
  then show ?thesis using dp_listedE [OF td_listed(5)] by (simp add: td_plane_def)
next
  case (td_delivered a u)
  have "dp_cp u = dp_cp (td_sys s)" by (rule dp_deliveredE [OF td_delivered(4)]) simp
  then show ?thesis using td_delivered(2) by (simp add: td_plane_def)
next
  case (td_lost a u)
  then show ?thesis using dp_lostE [OF td_lost(4)] by (simp add: td_plane_def)
qed (simp add: td_plane_def)

text \<open>While the gateway waits for the listing the view stays.\<close>

lemma poll_stays_idle:
  "gs_step s l t \<Longrightarrow> gs_poll s = PIdle \<Longrightarrow> \<not> fetches s t \<Longrightarrow> gs_poll t = PIdle \<and> gs_view t = gs_view s"
  using poll_moves [of s l t] by (auto simp: fetches_def)

lemma dp_gatewayE:
  "dp_step fe s (DpGateway l) u \<Longrightarrow> \<exists>g. gs_step (dp_gw s) l g \<and> \<not> fetches (dp_gw s) g \<and> u = s\<lparr>dp_gw := g\<rparr>"
  by (erule dp_step.cases) auto

lemma next_tick_le:
  assumes "0 < iv"
  shows "next_tick iv due now \<le> now + iv"
  using minus_mod_eq_mult_div [of "now - due" iv] pos_mod_sign [OF assms, of "now - due"]
  unfolding next_tick_def distrib_left by linarith

lemma tp_delay_clock: "tp_step fe s l t \<Longrightarrow> l \<noteq> TickL \<Longrightarrow> cp_clock (tp_cp t) = cp_clock (tp_cp s)"
  by (erule tp_step.cases) (auto dest: cp_step_frame(2) cp_snapshotD)

lemma td_inv_step:
  assumes inv: "td_inv iv lat s" and step: "td_step fe iv lat s l t"
  shows "td_inv iv lat t"
proof -
  have old: "tp_inv (td_plane s)" "gs_inv (td_gw s)" "poll_apart (td_gw s)" and iv: "0 < iv" "0 \<le> lat"
    using inv by (simp_all add: td_inv_def)
  have pl: "tp_inv (td_plane t)" using plane_step [OF step, of wid] tp_inv_step [OF old(1)] old(1) by auto
  show ?thesis using step
  proof cases
    case (td_act l' u)
    show ?thesis
    proof (cases l')
      case (DpControl k)
      then obtain c where "cp_step fe (dp_cp (td_sys s)) k c" "u = (td_sys s)\<lparr>dp_cp := c\<rparr>" "untimed k"
        using dp_controlE td_act by fastforce
      then show ?thesis using inv pl td_act(2) cp_step_frame(2) [of fe "dp_cp (td_sys s)" k c]
        by (auto simp: td_inv_def split: option.splits)
    next
      case (DpGateway k)
      then obtain g where "gs_step (td_gw s) k g" "\<not> fetches (td_gw s) g" "u = (td_sys s)\<lparr>dp_gw := g\<rparr>"
        using dp_gatewayE td_act(3) by blast
      then show ?thesis
        using inv pl td_act(2) gs_inv_step [OF old(2)] poll_apart_step [OF old(3)] poll_stays_idle [of "td_gw s" k g]
        by (auto simp: td_inv_def split: option.splits)
    qed (use td_act in auto)
  next
    case (td_sweep u)
    then obtain c where c: "cp_step fe (dp_cp (td_sys s)) (SnapshotL (td_scan s)) c" "u = (td_sys s)\<lparr>dp_cp := c\<rparr>"
      using dp_controlE by blast
    have "cp_clock c = td_clock s" using cp_snapshotD [OF c(1)] by auto
    then show ?thesis using inv pl c(2) td_sweep(2) by (auto simp: td_inv_def split: option.splits)
  next
    case td_ask
    then show ?thesis using inv pl iv next_tick_le [OF iv(1)] by (simp add: td_inv_def)
  next
    case (td_listed a resp u)
    then show ?thesis using inv pl dp_listedE [OF td_listed(5)] by (auto simp: td_inv_def)
  next
    case (td_delivered a u)
    from td_delivered(4) obtain resp where r: "dp_reply (td_sys s) = Some resp" "gs_poll (td_gw s) = PIdle"
      "gs_step (td_gw s) LTau ((td_gw s)\<lparr>gs_poll := PFetched (lw_Workers resp)\<rparr>)"
      "u = (td_sys s)\<lparr>dp_gw := (td_gw s)\<lparr>gs_poll := PFetched (lw_Workers resp)\<rparr>, dp_reply := None\<rparr>"
      by (rule dp_deliveredE)
    then show ?thesis using inv pl td_delivered(2) gs_inv_step [OF old(2)] by (auto simp: td_inv_def poll_apart_def)
  next
    case (td_lost a u)
    then show ?thesis using inv pl dp_lostE [OF td_lost(4)] by (auto simp: td_inv_def)
  next
    case (td_delay u)
    then obtain c where c: "cp_step fe (dp_cp (td_sys s)) TickL c" "u = (td_sys s)\<lparr>dp_cp := c\<rparr>" using dp_controlE by blast
    obtain d where "0 < d" "c = (dp_cp (td_sys s))\<lparr>cp_clock := td_clock s + d\<rparr>" using cp_tickD [OF c(1)] by blast
    then show ?thesis using inv pl td_delay(2,7) c(2) by (auto simp: td_inv_def split: option.splits)
  qed
qed

interpretation td: state_invariant "td_init iv lat" "td_step fe iv lat" "td_inv iv lat"
proof unfold_locales
  show "td_inv iv lat s" if i: "td_init iv lat s" for s
  proof -
    have "tp_init (td_plane s)" using i by (simp add: td_init_def tp_init_def dp_init_def)
    then have "tp_inv (td_plane s)" by (rule tp.sinv_init)
    then show ?thesis
      using i gs_inv_init by (auto simp: td_init_def td_inv_def dp_init_def gs_init_def poll_apart_def gateway_new_def)
  qed
qed (rule td_inv_step)

text \<open>
  Time goes on: in every state of an execution the clock can move, a poll or a sweep is due, an answer is, the scanner or the drain
  has a step, or the gateway has one that lowers the potential of \<open>Gateway_Drain\<close>.
\<close>

fun timely_label :: "td_label \<Rightarrow> bool" where
  "timely_label (TdAct (DpControl l)) = (l = TickL \<or> \<not> untimed l \<or> scanner_label l \<or> (\<exists>ev. l = DrainL ev))"
| "timely_label (TdAct (DpGateway l)) = False"
| "timely_label l = True"

lemma scanner_goes_on:
  assumes inv: "td_inv iv lat s" and busy: "cp_scan (dp_cp (td_sys s)) \<noteq> ScanIdle"
  shows "\<exists>l t. td_step fe iv lat s l t \<and> timely_label l"
proof -
  have ut: "untimed l" if "scanner_label l \<or> (\<exists>ev. l = DrainL ev)" for l using that by (cases l) auto
  have "cp_inv (dp_cp (td_sys s))" using inv by (simp add: td_inv_def tp_inv_def)
  from scan_progress [OF this busy, of fe] obtain l c
    where l: "cp_step fe (dp_cp (td_sys s)) l c" "scanner_label l \<or> (\<exists>ev. l = DrainL ev)" by blast
  from td_act [OF dp_control [OF l(1)], of iv lat] ut [OF l(2)] l(2) show ?thesis by force
qed

lemma quiet_time_goes_on:
  assumes inv: "td_inv iv lat s" and idle: "cp_scan (dp_cp (td_sys s)) = ScanIdle" and calm: "calm (td_gw s)"
  shows "\<exists>l t. td_step fe iv lat s l t \<and> timely_label l"
proof -
  let ?c = "dp_cp (td_sys s)" and ?wait = "case td_asked s of None \<Rightarrow> td_poll s | Some a \<Rightarrow> a + lat"
  have le: "td_clock s \<le> td_scan s" using inv by (simp add: td_inv_def tp_inv_def)
  consider "td_clock s = td_scan s" | "td_asked s = None" "td_poll s \<le> td_clock s"
    | a where "td_asked s = Some a" "td_clock s = a + lat" | "td_clock s < td_scan s" "td_clock s < ?wait"
    using le inv by (cases "td_asked s") (force simp: td_inv_def)+
  then show ?thesis
  proof cases
    case 1
    have "finite (dom (workers (cp_reg ?c)))" using inv by (simp add: td_inv_def tp_inv_def cp_inv_def reg_wf_def)
    then obtain ks where "iterates (workers (cp_reg ?c)) ks" using iterates_exists by blast
    from cp_snapshot [OF idle _ this, of "td_scan s" fe] 1 dp_control [of fe "td_sys s"]
    obtain u where "dp_step fe (td_sys s) (DpControl (SnapshotL (td_scan s))) u" by fastforce
    from td_sweep [OF this] 1 show ?thesis by force
  next
    case 2
    have "gs_poll (td_gw s) = PIdle" using calm by (simp add: calm_def)
    from td_ask [OF this 2] show ?thesis by force
  next
    case (3 a)
    from td_lost [OF 3(1) dp_lost] show ?thesis by force
  next
    case 4
    let ?d = "min (td_scan s) ?wait - td_clock s"
    have "cp_step fe ?c TickL (?c\<lparr>cp_clock := cp_clock ?c + ?d\<rparr>)" using 4 by (intro cp_tick) simp
    from td_delay [OF dp_control [OF this] idle calm, of lat iv] show ?thesis by force
  qed
qed

lemma deployment_goes_on:
  assumes inv: "td_inv iv lat s"
  shows "\<exists>l t. td_step fe iv lat s l t \<and> (timely_label l \<or> drain_weight (td_gw t) < drain_weight (td_gw s))"
proof -
  have gi: "gs_inv (td_gw s)" using inv by (simp add: td_inv_def)
  consider "cp_scan (dp_cp (td_sys s)) \<noteq> ScanIdle" | "cp_scan (dp_cp (td_sys s)) = ScanIdle" "calm (td_gw s)"
    | "\<not> calm (td_gw s)" by blast
  then show ?thesis
  proof cases
    case 1
    then show ?thesis using scanner_goes_on [OF inv] by blast
  next
    case 2
    then show ?thesis using quiet_time_goes_on [OF inv] by blast
  next
    case 3
    then obtain l g where g: "gs_step (td_gw s) l g" "drain_weight g < drain_weight (td_gw s)" using busy_drains [OF gi] by blast
    then have nf: "\<not> fetches (td_gw s) g"
      using gs_step_poll_start [OF g(1)] by (fastforce simp: fetches_def split: poll_pc.splits)
    from td_act [OF dp_gateway [OF g(1) nf], of fe iv lat] g(2) show ?thesis by force
  qed
qed

section \<open>The rescue\<close>

text \<open>
  What stays true of a request that the silent worker holds: \<open>E\<close> is when the worker is out of the registry, \<open>M\<close> how long until
  the next poll starts at the latest. While the view has the worker, that poll has not been answered; when it has been, the claim follows.
\<close>

definition before_poll :: "time \<Rightarrow> timed_deployment \<Rightarrow> bool" where
  "before_poll D s \<longleftrightarrow> td_asked s = None \<and> td_clock s < D \<and> td_poll s < D"

definition unpolled :: "string \<Rightarrow> time \<Rightarrow> duration \<Rightarrow> timed_deployment \<Rightarrow> bool" where
  "unpolled wid E M s \<longleftrightarrow> wid \<in> wi_WorkerId ` set (gs_view (td_gw s))
     \<and> (case td_asked s of
          None \<Rightarrow> before_poll (E + M) s
        | Some a \<Rightarrow> a < E + M \<and> (\<forall>resp. dp_reply (td_sys s) = Some resp \<longrightarrow>
             lw_Workers resp \<noteq> [] \<and> (E \<le> a \<longrightarrow> wid \<notin> wi_WorkerId ` set (lw_Workers resp))))"

definition polled :: "string \<Rightarrow> time \<Rightarrow> duration \<Rightarrow> duration \<Rightarrow> timed_deployment \<Rightarrow> bool" where
  "polled wid E M lat s \<longleftrightarrow> td_asked s = None \<and> td_clock s < E + M + lat
     \<and> (case gs_poll (td_gw s) of
          PFetched f \<Rightarrow> f \<noteq> [] \<and> wid \<notin> wi_WorkerId ` set f \<and> wid \<in> wi_WorkerId ` set (gs_view (td_gw s))
        | PDeparted d \<Rightarrow> wid \<in> d \<and> gs_view (td_gw s) \<noteq> []
        | PCandidates d ws \<Rightarrow> wid \<in> d
        | _ \<Rightarrow> False)"

definition not_yet :: "string \<Rightarrow> time \<Rightarrow> duration \<Rightarrow> duration \<Rightarrow> timed_deployment \<Rightarrow> bool" where
  "not_yet wid E M lat s \<longleftrightarrow> polled wid E M lat s
     \<or> unpolled wid E M s \<and> (gs_poll (td_gw s) \<noteq> PIdle \<longrightarrow> td_asked s = None) \<and> \<not> departing wid (gs_poll (td_gw s))
       \<and> (\<forall>f. gs_poll (td_gw s) = PFetched f \<longrightarrow> wid \<in> wi_WorkerId ` set f)"

lemma not_yet_clock:
  "not_yet wid E M lat s \<Longrightarrow> td_inv iv lat s \<Longrightarrow> td_clock s < E + M + lat"
  by (auto simp: not_yet_def polled_def unpolled_def before_poll_def td_inv_def split: option.splits)

text \<open>A step of the gateway: the poll loop goes on, and the claim is made.\<close>

lemma not_yet_gateway:
  assumes ny: "not_yet wid E M lat s" and apart: "poll_apart (td_gw s)" and step: "gs_step (td_gw s) l g"
    and nf: "\<not> fetches (td_gw s) g"
  shows "not_yet wid E M lat (s\<lparr>td_sys := (td_sys s)\<lparr>dp_gw := g\<rparr>\<rparr>)
     \<or> departing wid (gs_poll (td_gw s)) \<and> (\<exists>jobs. gs_poll g = PFiring jobs)"
proof -
  have nobody: "healthyExcept d (gs_view (td_gw s)) \<noteq> []" if "gs_poll (td_gw s) = PDeparted d" "gs_view (td_gw s) \<noteq> []" for d
    using apart that by (fastforce simp: poll_apart_def healthyExcept_def filter_empty_conv neq_Nil_conv)
  consider "gs_poll g = gs_poll (td_gw s)" "gs_view g = gs_view (td_gw s)"
    | "\<not> (gs_poll g = gs_poll (td_gw s) \<and> gs_view g = gs_view (td_gw s))" by blast
  then show ?thesis
  proof cases
    case 1
    then show ?thesis
      using ny by (auto simp: not_yet_def polled_def unpolled_def before_poll_def split: option.splits poll_pc.splits)
  next
    case 2
    show ?thesis
    proof (cases "polled wid E M lat s")
      case True
      then show ?thesis
        using 2 poll_moves [OF step] nobody
        by (cases "gs_poll (td_gw s)") (auto simp: not_yet_def polled_def departedIDs_eq split: if_splits)
    next
      case False
      then show ?thesis
        using ny 2 poll_moves [OF step] nf
        by (cases "gs_poll (td_gw s)")
          (auto simp: not_yet_def unpolled_def before_poll_def fetches_def departedIDs_eq split: if_splits)
    qed
  qed
qed

text \<open>The request is out of the table, or called on another worker, or about to be, or the poll that moves it is yet to come.\<close>

definition on_the_way :: "ptr \<Rightarrow> string \<Rightarrow> time \<Rightarrow> duration \<Rightarrow> duration \<Rightarrow> td_label list \<Rightarrow> timed_deployment \<Rightarrow> bool" where
  "on_the_way p wid E M lat ls s \<longleftrightarrow> \<not> listed_in (td_gw s) p
     \<or> (\<exists>l. TdAct (DpGateway l) \<in> set ls \<and> calls_elsewhere p wid l)
     \<or> p \<in> dom (heap (gs_tracker (td_gw s))) \<and> elsewhere p wid (td_gw s) \<and> td_clock s < E + M + lat
     \<or> held p wid (td_gw s) \<and> not_yet wid E M lat s"

lemma on_the_way_gateway:
  assumes inv: "td_inv iv lat s" and otw: "on_the_way p wid E M lat ls s" and p: "p \<in> dom (heap (gs_tracker (td_gw s)))"
    and step: "gs_step (td_gw s) l g" and nf: "\<not> fetches (td_gw s) g"
  shows "on_the_way p wid E M lat (ls @ [TdAct (DpGateway l)]) (s\<lparr>td_sys := (td_sys s)\<lparr>dp_gw := g\<rparr>\<rparr>)"
proof -
  have gi: "gs_inv (td_gw s)" and apart: "poll_apart (td_gw s)" using inv by (simp_all add: td_inv_def)
  obtain ih ih' where "heap (gs_tracker (td_gw s)) p = Some ih" "heap (gs_tracker g) p = Some ih'" "moves_on (td_gw s) ih g ih' p"
    using gs_step_moves [OF gi step] p by blast
  then have mv: "listed_in g p \<Longrightarrow> listed_in (td_gw s) p" "p \<in> dom (heap (gs_tracker g))"
    by (auto simp: moves_on_def)
  consider "\<not> listed_in (td_gw s) p" | k where "TdAct (DpGateway k) \<in> set ls" "calls_elsewhere p wid k"
    | "elsewhere p wid (td_gw s)" "td_clock s < E + M + lat"
    | "held p wid (td_gw s)" "not_yet wid E M lat s" "listed_in (td_gw s) p"
    using otw by (auto simp: on_the_way_def)
  then show ?thesis
  proof cases
    case 3
    then show ?thesis using elsewhere_step [OF 3(1) step] mv(2) by (auto simp: on_the_way_def)
  next
    case 4
    then have "td_clock s < E + M + lat" using not_yet_clock inv by blast
    then show ?thesis
      using held_step [OF gi apart 4(1) step] not_yet_gateway [OF 4(2) apart step nf] 4(3) mv(2) by (auto simp: on_the_way_def)
  qed (use mv in \<open>auto simp: on_the_way_def\<close>)
qed

text \<open>The steps that leave the gateway as it is.\<close>

lemma on_the_way_still:
  assumes "on_the_way p wid E M lat ls s" and "td_gw t = td_gw s" and "td_clock t = td_clock s"
    and "held p wid (td_gw s) \<Longrightarrow> not_yet wid E M lat s \<Longrightarrow> not_yet wid E M lat t"
  shows "on_the_way p wid E M lat (ls @ [l]) t"
  using assms by (auto simp: on_the_way_def)

lemma not_yet_same:
  assumes "not_yet wid E M lat s" and "td_gw t = td_gw s" and "td_clock t = td_clock s" and "td_poll t = td_poll s"
    and "td_asked t = td_asked s" and "dp_reply (td_sys t) = dp_reply (td_sys s)"
  shows "not_yet wid E M lat t"
  using assms by (auto simp: not_yet_def polled_def unpolled_def before_poll_def split: option.splits poll_pc.splits)

text \<open>A listing made after the eviction is without the worker.\<close>

lemma listing_without:
  assumes "tp_inv (td_plane s)" and "fading wid w e T (td_plane s)" and "T + td_interval s \<le> td_clock s"
    and "cp_step fe (dp_cp (td_sys s)) (ListWorkersL resp) c"
  shows "wid \<notin> wi_WorkerId ` set (lw_Workers resp)"
proof -
  have none: "workers (cp_reg (dp_cp (td_sys s))) wid = None" using assms(2,3) by (auto simp: fading_def)
  have wf: "reg_wf (cp_reg (dp_cp (td_sys s)))" using assms(1) by (simp add: tp_inv_def cp_inv_def)
  obtain ks where ks: "iterates (workers (cp_reg (dp_cp (td_sys s)))) ks" "srv_ListWorkers ks (cp_reg (dp_cp (td_sys s))) = Inr resp"
    using assms(4) by (cases rule: cp_step.cases) auto
  show ?thesis
  proof
    assume "wid \<in> wi_WorkerId ` set (lw_Workers resp)"
    then obtain i where i: "i \<in> set (ListWorkers ks (cp_reg (dp_cp (td_sys s))))" "ID i = wid"
      using ks(2) by (auto simp: srv_ListWorkers_def)
    then have "workers (cp_reg (dp_cp (td_sys s))) (ID i) = Some i" using reg.snapshot_mem [OF wf ks(1)] by simp
    then show False using i(2) none by simp
  qed
qed

lemma on_the_way_control:
  assumes otw: "on_the_way p wid E M lat ls s" and step: "dp_step fe (td_sys s) (DpControl l) u"
    and clock: "cp_clock (dp_cp u) = td_clock s"
  shows "on_the_way p wid E M lat (ls @ [k]) (s\<lparr>td_sys := u, td_scan := x\<rparr>)"
proof -
  from dp_controlE [OF step] have "dp_gw u = td_gw s" "dp_reply u = dp_reply (td_sys s)" by auto
  then show ?thesis using clock by (intro on_the_way_still [OF otw]) (auto intro: not_yet_same)
qed

lemma on_the_way_delay:
  assumes otw: "on_the_way p wid E M lat ls s" and step: "dp_step fe (td_sys s) (DpControl TickL) u"
    and calm: "calm (td_gw s)"
    and le: "cp_clock (dp_cp u) \<le> (case td_asked s of None \<Rightarrow> td_poll s | Some a \<Rightarrow> a + lat)"
  shows "on_the_way p wid E M lat (ls @ [k]) (s\<lparr>td_sys := u\<rparr>)"
proof -
  from dp_controlE [OF step] have u: "dp_gw u = td_gw s" "dp_reply u = dp_reply (td_sys s)" by auto
  have idle: "gs_poll (td_gw s) = PIdle" and "\<not> elsewhere p wid (td_gw s)"
    using calm by (auto simp: calm_def elsewhere_def)
  moreover have "not_yet wid E M lat (s\<lparr>td_sys := u\<rparr>)" if "not_yet wid E M lat s"
    using that idle u le by (auto simp: not_yet_def polled_def unpolled_def before_poll_def split: option.splits)
  ultimately show ?thesis using otw u by (auto simp: on_the_way_def)
qed

lemma not_yet_asked:
  assumes "not_yet wid E M lat s" and "td_asked s = None" and "gs_poll (td_gw s) = PIdle" and "dp_reply (td_sys s) = None"
  shows "not_yet wid E M lat (s\<lparr>td_poll := x, td_asked := Some (td_clock s)\<rparr>)"
  using assms by (auto simp: not_yet_def polled_def unpolled_def before_poll_def)

lemma not_yet_listed:
  assumes "not_yet wid E M lat s" and "td_asked s = Some a" and "lw_Workers resp \<noteq> []"
    and "E \<le> a \<Longrightarrow> wid \<notin> wi_WorkerId ` set (lw_Workers resp)"
  shows "not_yet wid E M lat (s\<lparr>td_sys := (td_sys s)\<lparr>dp_reply := Some resp\<rparr>\<rparr>)"
  using assms by (auto simp: not_yet_def polled_def unpolled_def split: poll_pc.splits)

lemma not_yet_delivered:
  assumes ny: "not_yet wid E M lat s" and inv: "td_inv iv lat s" and M: "M = max iv lat" and asked: "td_asked s = Some a"
    and reply: "dp_reply (td_sys s) = Some resp"
  shows "not_yet wid E M lat (s\<lparr>td_sys := (td_sys s)\<lparr>dp_gw := (td_gw s)\<lparr>gs_poll := PFetched (lw_Workers resp)\<rparr>, dp_reply := None\<rparr>,
     td_asked := None\<rparr>)"
proof -
  have t: "td_clock s \<le> a + lat" "td_poll s \<le> a + iv" using inv asked by (auto simp: td_inv_def)
  have u: "unpolled wid E M s" using ny asked by (auto simp: not_yet_def polled_def)
  show ?thesis
  proof (cases "wid \<in> wi_WorkerId ` set (lw_Workers resp)")
    case True
    then have "a < E" using u asked reply by (auto simp: unpolled_def)
    then have "td_clock s < E + M" "td_poll s < E + M" using t M by simp_all
    then show ?thesis using True u by (auto simp: not_yet_def unpolled_def before_poll_def)
  next
    case False
    have "a < E + M" "lw_Workers resp \<noteq> []" using u asked reply by (auto simp: unpolled_def)
    then have "td_clock s < E + M + lat" using t(1) by simp
    then show ?thesis using False u \<open>lw_Workers resp \<noteq> []\<close> by (auto simp: not_yet_def polled_def unpolled_def)
  qed
qed

text \<open>The steps of the whole system.\<close>

lemma on_the_way_step:
  assumes inv: "td_inv iv lat s" and step: "td_step fe iv lat s l t" and M: "M = max iv lat"
    and fade: "fading wid w e T (td_plane s)" and E: "E = T + td_interval s"
    and otw: "on_the_way p wid E M lat ls s" and p: "p \<in> dom (heap (gs_tracker (td_gw s)))"
    and kept: "l \<noteq> TdAct DpLost" and others: "\<And>resp. l = TdAct (DpListed resp) \<Longrightarrow> lw_Workers resp \<noteq> []"
  shows "on_the_way p wid E M lat (ls @ [l]) t"
  using step
proof cases
  case (td_act l' u)
  show ?thesis
  proof (cases l')
    case (DpControl k)
    then obtain c where c: "cp_step fe (dp_cp (td_sys s)) k c" "u = (td_sys s)\<lparr>dp_cp := c\<rparr>" "untimed k"
      using dp_controlE td_act by fastforce
    then have "cp_clock (dp_cp u) = td_clock s" by (simp add: cp_step_frame(2))
    from on_the_way_control [OF otw td_act(3) [unfolded DpControl] this, of l "td_scan s"] td_act(2) show ?thesis by simp
  next
    case (DpGateway k)
    then obtain g where g: "gs_step (td_gw s) k g" "\<not> fetches (td_gw s) g" "u = (td_sys s)\<lparr>dp_gw := g\<rparr>"
      using dp_gatewayE td_act(3) by blast
    show ?thesis using on_the_way_gateway [OF inv otw p g(1,2)] td_act(1,2) DpGateway g(3) by simp
  qed (use td_act in auto)
next
  case (td_sweep u)
  obtain c where c: "cp_step fe (dp_cp (td_sys s)) (SnapshotL (td_scan s)) c" "u = (td_sys s)\<lparr>dp_cp := c\<rparr>"
    using dp_controlE [OF td_sweep(3)] by blast
  then have "cp_clock (dp_cp u) = td_clock s" using cp_snapshotD [OF c(1)] by auto
  from on_the_way_control [OF otw td_sweep(3) this] td_sweep(2) show ?thesis by simp
next
  case td_ask
  have "dp_reply (td_sys s) = None" using inv td_ask(4) by (simp add: td_inv_def)
  then show ?thesis unfolding td_ask(2) using td_ask(3,4) by (intro on_the_way_still [OF otw]) (simp_all add: not_yet_asked)
next
  case (td_listed a resp u)
  from dp_listedE [OF td_listed(5)] have u: "cp_step fe (dp_cp (td_sys s)) (ListWorkersL resp) (dp_cp (td_sys s))"
    "u = (td_sys s)\<lparr>dp_reply := Some resp\<rparr>" by auto
  have "tp_inv (td_plane s)" "a \<le> td_clock s" using inv td_listed(3) by (auto simp: td_inv_def)
  then have "wid \<notin> wi_WorkerId ` set (lw_Workers resp)" if "E \<le> a"
    using listing_without [OF _ fade _ u(1)] that E by simp
  then have "not_yet wid E M lat t" if "not_yet wid E M lat s"
    unfolding td_listed(2) u(2) using others [OF td_listed(1)] by (intro not_yet_listed [OF that td_listed(3)])
  then show ?thesis using td_listed(2) u(2) by (intro on_the_way_still [OF otw]) simp_all
next
  case (td_delivered a u)
  from td_delivered(4) obtain resp where r: "dp_reply (td_sys s) = Some resp" and idle: "gs_poll (td_gw s) = PIdle"
    and "gs_step (td_gw s) LTau ((td_gw s)\<lparr>gs_poll := PFetched (lw_Workers resp)\<rparr>)"
    and u: "u = (td_sys s)\<lparr>dp_gw := (td_gw s)\<lparr>gs_poll := PFetched (lw_Workers resp)\<rparr>, dp_reply := None\<rparr>"
    by (rule dp_deliveredE)
  have "not_yet wid E M lat t" if "not_yet wid E M lat s"
    unfolding td_delivered(2) u by (rule not_yet_delivered [OF that inv M td_delivered(3) r])
  moreover have "held p wid (td_gw s) \<Longrightarrow> held p wid (td_gw t)" by (erule held_frame) (simp_all add: td_delivered(2) u)
  moreover have "elsewhere p wid (td_gw s) \<Longrightarrow> elsewhere p wid (td_gw t)"
    by (auto simp: elsewhere_def td_delivered(2) u idle)
  moreover have "listed_in (td_gw t) p = listed_in (td_gw s) p" "td_clock t = td_clock s"
    "heap (gs_tracker (td_gw t)) = heap (gs_tracker (td_gw s))" by (simp_all add: td_delivered(2) u)
  ultimately show ?thesis using otw by (auto simp: on_the_way_def)
next
  case (td_lost a u)
  then show ?thesis using kept by simp
next
  case (td_delay u)
  show ?thesis unfolding td_delay(2) by (rule on_the_way_delay [OF otw td_delay(3,5,7)])
qed

lemma td_interval_step: "td_step fe iv lat s l t \<Longrightarrow> td_interval t = td_interval s"
  using plane_step [of fe iv lat s l t] tp_cfg by (auto simp: td_plane_def) (metis td_plane_def td_plane_sel(1))

lemma heap_keeps:
  assumes "td_inv iv lat s" and "td_step fe iv lat s l t" and "p \<in> dom (heap (gs_tracker (td_gw s)))"
  shows "p \<in> dom (heap (gs_tracker (td_gw t)))"
  using assms(2)
proof cases
  case (td_act l' u)
  show ?thesis
  proof (cases l')
    case (DpControl k)
    then show ?thesis using td_act assms(3) dp_controlE by fastforce
  next
    case (DpGateway k)
    then obtain g where g: "gs_step (td_gw s) k g" "u = (td_sys s)\<lparr>dp_gw := g\<rparr>" using dp_gatewayE td_act(3) by blast
    have "gs_inv (td_gw s)" using assms(1) by (simp add: td_inv_def)
    then show ?thesis using gs_step_moves [OF _ g(1)] assms(3) td_act(2) g(2) by fastforce
  qed (use td_act in auto)
qed (use assms(3) in \<open>auto dest!: dp_controlE dp_listedE dp_lostE elim: dp_deliveredE\<close>)

lemma on_the_way_exec:
  assumes ok: "float_ok fe" "dyadic_ok fe" "erfc_tail fe" and run: "exec (td_step fe iv lat) s ls t" and inv: "td_inv iv lat s"
    and fade: "fading wid w e (verdict_due e j) (td_plane s)" and gu: "given_up_after fe (cfg (cp_det (dp_cp (td_sys s)))) w e j"
    and id: "ID w = wid" and otw: "on_the_way p wid (verdict_due e j + td_interval s) (max iv lat) lat [] s"
    and p: "p \<in> dom (heap (gs_tracker (td_gw s)))"
    and quiet: "\<forall>l \<in> set ls. silent wid l" and kept: "TdAct DpLost \<notin> set ls"
    and others: "\<forall>resp. TdAct (DpListed resp) \<in> set ls \<longrightarrow> lw_Workers resp \<noteq> []"
  shows "on_the_way p wid (verdict_due e j + td_interval s) (max iv lat) lat ls t \<and> td_inv iv lat t
     \<and> fading wid w e (verdict_due e j) (td_plane t) \<and> cfg (cp_det (dp_cp (td_sys t))) = cfg (cp_det (dp_cp (td_sys s)))
     \<and> p \<in> dom (heap (gs_tracker (td_gw t)))"
  using run quiet kept others
proof (induction rule: exec.induct)
  case exec_nil
  then show ?case using inv fade otw p by simp
next
  case (exec_snoc ls t l u)
  then have IH: "on_the_way p wid (verdict_due e j + td_interval s) (max iv lat) lat ls t" "td_inv iv lat t"
    "fading wid w e (verdict_due e j) (td_plane t)" "cfg (cp_det (dp_cp (td_sys t))) = cfg (cp_det (dp_cp (td_sys s)))"
    "p \<in> dom (heap (gs_tracker (td_gw t)))" by auto
  have l: "silent wid l" "l \<noteq> TdAct DpLost" "\<And>resp. l = TdAct (DpListed resp) \<Longrightarrow> lw_Workers resp \<noteq> []"
    using exec_snoc.prems by auto
  have tp: "tp_inv (td_plane t)" using IH(2) by (simp add: td_inv_def)
  have c: "given_up_after fe (cfg (cp_det (tp_cp (td_plane t)))) w e j" using gu IH(4) by simp
  have "fading wid w e (verdict_due e j) (td_plane u) \<and> cfg (cp_det (dp_cp (td_sys u))) = cfg (cp_det (dp_cp (td_sys t)))"
    using plane_step [OF exec_snoc(2), of wid]
  proof
    assume "td_plane u = td_plane t"
    then show ?thesis using IH(3) by (simp add: td_plane_def)
  next
    assume "\<exists>l'. tp_step fe (td_plane t) l' (td_plane u) \<and> (silent wid l \<longrightarrow> \<not> concerns wid l')"
    then obtain l' where "exec (tp_step fe) (td_plane t) [l'] (td_plane u)" "\<not> concerns wid l'"
      using l(1) by (blast intro: exec_single)
    from fading_exec [OF ok this(1) tp IH(3) c id] this(2) show ?thesis by simp
  qed
  moreover have E: "verdict_due e j + td_interval s = verdict_due e j + td_interval t" using IH(4) by simp
  have "on_the_way p wid (verdict_due e j + td_interval s) (max iv lat) lat (ls @ [l]) u"
    by (rule on_the_way_step [OF IH(2) exec_snoc(2) refl IH(3) E IH(1,5) l(2,3)])
  ultimately show ?case
    using td.sinv_step [OF IH(2) exec_snoc(2)] heap_keeps [OF IH(2) exec_snoc(2) IH(5)] IH(4) by simp
qed

section \<open>Properties\<close>

text \<open>
  C5. Failover in time. Let a worker with a history fall silent while it holds a request: the request is assigned to it, has budget
  left, and all its attempts are calls of this worker or over. Suppose that from then on the worker sends nothing, no \<^verbatim>\<open>ListWorkers\<close> call
  of the gateway fails, and every listing names another worker. Then, however the worker failed (it may be frozen and never answer) and whatever
  the other workers, clients and goroutines do, once the clock has passed \<open>2 ^ j\<close> seconds of silence, one interval of the scanner, the larger
  of the poll interval and the latency of a listing, and one more latency, another worker has been called for the request, or the request is
  over: answered, or given up by its client. With the constants of this system that is nine seconds and the latency when a listing takes no longer
  than a poll interval, less than a third of \<^verbatim>\<open>attemptTimeout\<close>.
\<close>

theorem stranded_request_moves_on_in_time:
  assumes "float_ok fe" and "dyadic_ok fe" and "erfc_tail fe"
    and "td_inv iv lat s" and "cp_scan (dp_cp (td_sys s)) = ScanIdle" and "gs_poll (td_gw s) = PIdle" and "td_asked s = None"
    and "workers (cp_reg (dp_cp (td_sys s))) wid = Some w" and "entries (cp_det (dp_cp (td_sys s))) wid = Some e"
    and "given_up_after fe (cfg (cp_det (dp_cp (td_sys s)))) w e j" and "td_clock s < verdict_due e j"
    and "wid \<in> wi_WorkerId ` set (gs_view (td_gw s))" and "held p wid (td_gw s)"
    and "exec (td_step fe iv lat) s ls t" and "\<forall>l \<in> set ls. silent wid l" and "TdAct DpLost \<notin> set ls"
    and "\<forall>resp. TdAct (DpListed resp) \<in> set ls \<longrightarrow> (\<exists>v \<in> set (lw_Workers resp). wi_WorkerId v \<noteq> wid)"
    and "verdict_due e j + td_interval s + max iv lat + lat \<le> td_clock t"
  shows "(\<exists>v req. TdAct (DpGateway (LCall p v req)) \<in> set ls \<and> wi_WorkerId v \<noteq> wid)
     \<or> p \<notin> ran (requests (gs_tracker (td_gw t)))"
proof -
  let ?T = "verdict_due e j" and ?E = "verdict_due e j + td_interval s"
  have tp: "tp_inv (td_plane s)" using assms(4) by (simp add: td_inv_def)
  then have id: "ID w = wid" using assms(8) by (simp add: tp_inv_def cp_inv_def reg_wf_def)
  have fade: "fading wid w e ?T (td_plane s)" using fading_start [OF tp, of wid w e ?T] assms(5,8,9,11) by simp
  have "0 < td_interval s" "td_poll s \<le> td_clock s + iv" "0 < iv" using assms(4) by (auto simp: td_inv_def tp_inv_def)
  moreover have "iv \<le> max iv lat" by simp
  ultimately have "td_clock s < ?E + max iv lat" "td_poll s < ?E + max iv lat" using assms(11) by linarith+
  then have "before_poll (?E + max iv lat) s" using assms(7) by (simp add: before_poll_def)
  then have "not_yet wid ?E (max iv lat) lat s" using assms(6,7,12) by (simp add: not_yet_def unpolled_def)
  then have otw: "on_the_way p wid ?E (max iv lat) lat [] s" using assms(13) by (simp add: on_the_way_def)
  have p: "p \<in> dom (heap (gs_tracker (td_gw s)))" using heldD [OF assms(13)] by blast
  have others: "\<forall>resp. TdAct (DpListed resp) \<in> set ls \<longrightarrow> lw_Workers resp \<noteq> []" using assms(17) by fastforce
  have call: "\<exists>v req. l = LCall p v req \<and> wi_WorkerId v \<noteq> wid" if "calls_elsewhere p wid l" for l
    using that by (cases l) auto
  from on_the_way_exec [OF assms(1-3,14,4) fade assms(10) id otw p assms(15,16) others]
  have "on_the_way p wid ?E (max iv lat) lat ls t" "td_inv iv lat t" by blast+
  then show ?thesis using call not_yet_clock assms(18) unfolding on_the_way_def listed_in_def by fastforce
qed

text \<open>
  The sample worker freezes with a request on it. The sweep at eight seconds evicts it; just before the gateway's poll at 8.9 seconds
  another worker registers, and leaves again as soon as it is listed. At 9.6 seconds the frozen call is still in the air.
\<close>

definition ex_stuck :: "gateway_system \<Rightarrow> time \<Rightarrow> control_plane \<Rightarrow> time \<Rightarrow> timed_deployment" where
  "ex_stuck g poll c due = \<lparr>td_sys = ex_deployed c g None, td_scan = due, td_poll = poll, td_asked = None\<rparr>"

lemma ex_stuck_sel [simp]:
  "td_sys (ex_stuck g poll c due) = ex_deployed c g None" "td_scan (ex_stuck g poll c due) = due" "td_poll (ex_stuck g poll c due) = poll"
  "td_asked (ex_stuck g poll c due) = None" "dp_cp (ex_deployed c g r) = c" "dp_gw (ex_deployed c g r) = g" "dp_reply (ex_deployed c g r) = r"
  by (simp_all add: ex_stuck_def ex_deployed_def)

lemma ex_frozen_inv: "gs_inv ex_frozen"
proof -
  obtain s where "reachable tg_init tg_step s" "tg_sys s = ex_frozen" using ex_frozen_run by blast
  then show ?thesis using tg.sinv_reachable [of s] by (simp add: tg_inv_def)
qed

lemma ex_frozen_calm: "calm ex_frozen"
  by (simp add: calm_def ex_frozen_def ex_gs_def handler_calm_def ex_table_def)

text \<open>While the gateway waits, and until its next poll, a run of the control plane is one of the deployment.\<close>

lemma ex_stuck_step:
  assumes step: "tp_step fe \<lparr>tp_cp = c, tp_due = d\<rparr> l \<lparr>tp_cp = c', tp_due = d'\<rparr>" and le: "cp_clock c' \<le> poll" and calm: "calm g"
  shows "td_step fe iv lat (ex_stuck g poll c d) (TdAct (DpControl l)) (ex_stuck g poll c' d')"
proof -
  have dp: "dp_step fe (td_sys (ex_stuck g poll c d)) (DpControl l) (ex_deployed c' g None)" if "cp_step fe c l c'"
    using dp_control [of fe "ex_deployed c g None" l c'] that by (simp add: ex_deployed_def)
  show ?thesis using step
  proof cases
    case (tp_act k)
    then show ?thesis using td_act [OF dp, of iv lat] by (simp add: ex_stuck_def)
  next
    case (tp_scan k)
    then show ?thesis using td_sweep [of fe "ex_stuck g poll c d" "ex_deployed c' g None" iv lat] dp by (simp add: ex_stuck_def ex_deployed_def)
  next
    case (tp_delay k)
    then show ?thesis
      using td_delay [of fe "ex_stuck g poll c d" "ex_deployed c' g None" lat iv] dp le calm by (simp add: ex_stuck_def ex_deployed_def)
  qed
qed

lemma tp_clock_mono: "tp_step fe s l t \<Longrightarrow> cp_clock (tp_cp s) \<le> cp_clock (tp_cp t)"
  by (erule tp_step.cases) (auto dest: cp_step_frame(2) cp_snapshotD cp_tickD)

lemma ex_stuck_exec:
  "exec (tp_step fe) s ls t \<Longrightarrow> cp_clock (tp_cp t) \<le> poll \<Longrightarrow> calm g \<Longrightarrow>
     exec (td_step fe iv lat) (ex_stuck g poll (tp_cp s) (tp_due s)) (map (\<lambda>l. TdAct (DpControl l)) ls) (ex_stuck g poll (tp_cp t) (tp_due t))"
proof (induction rule: exec.induct)
  case (exec_snoc ls t l u)
  have "cp_clock (tp_cp t) \<le> poll" using tp_clock_mono [OF exec_snoc(2)] exec_snoc.prems by simp
  moreover have "td_step fe iv lat (ex_stuck g poll (tp_cp t) (tp_due t)) (TdAct (DpControl l)) (ex_stuck g poll (tp_cp u) (tp_due u))"
    using exec_snoc(2) exec_snoc.prems by (intro ex_stuck_step) (cases t; cases u; simp)+
  ultimately show ?case using exec_snoc.IH exec_snoc.prems by auto
qed auto

lemma ex_stuck_inv: "td_inv 1000000000 100000000 (ex_stuck ex_frozen 8900000000 ex_almost 8000000000)"
  using ex_tp_inv ex_frozen_inv
  by (simp add: td_inv_def td_plane_def poll_apart_def ex_frozen_def ex_gs_def) (simp add: ex_almost_def)

lemma ex_stuck_held: "held 0 ''w1'' ex_frozen"
  by (simp add: held_def ex_frozen_def ex_gs_def ex_table_def maxAttempts_def)

text \<open>Neither do steps of the gateway that fetch no listing depend on the plane.\<close>

definition unfetched_step :: "gateway_system \<Rightarrow> gs_label \<Rightarrow> gateway_system \<Rightarrow> bool" where
  "unfetched_step g l g' \<longleftrightarrow> gs_step g l g' \<and> (\<forall>fresh. gs_poll g' \<noteq> PFetched fresh)"

lemma ex_stuck_gateway:
  "exec unfetched_step g ls g' \<Longrightarrow>
     exec (td_step fe iv lat) (ex_stuck g poll c d) (map (\<lambda>l. TdAct (DpGateway l)) ls) (ex_stuck g' poll c d)"
proof (induction rule: exec.induct)
  case (exec_snoc ls t l u)
  then have "dp_step fe (td_sys (ex_stuck t poll c d)) (DpGateway l) (ex_deployed c u None)"
    using ex_dp_gateway [of t l u] by (simp add: unfetched_step_def)
  from td_act [OF this, of iv lat] have "td_step fe iv lat (ex_stuck t poll c d) (TdAct (DpGateway l)) (ex_stuck u poll c d)"
    by (simp add: ex_stuck_def)
  with exec_snoc.IH show ?case by auto
qed auto

text \<open>What the poll does in the gateway: the request moves on to \<open>w2\<close>.\<close>

definition ex_moved :: "attempt_pc list \<Rightarrow> poll_pc \<Rightarrow> gateway_system" where
  "ex_moved as pp = ex_gs [ex_wire ''w2''] (ex_table ''w2'' 2 2 {} False []) (HWaiting 0) (AAir (ex_wire ''w1'') # as) pp"

abbreviation ex_moving :: "gs_label list" where
  "ex_moving \<equiv> [LTau, LTau, LTau, LTau, LTau, LCall 0 (ex_wire ''w2'') ex_request]"

lemma ex_moves_on:
  "exec unfetched_step (ex_frozen\<lparr>gs_poll := PFetched [ex_wire ''w2'']\<rparr>) ex_moving (ex_moved [AAir (ex_wire ''w2'')] PIdle)"
proof -
  let ?w1 = "ex_wire ''w1''" and ?w2 = "ex_wire ''w2''"
  let ?t = "ex_table ''w1'' 1 1 {} False []" and ?j = "\<lparr>j_reqID = ''r1'', j_ih = 0, j_target = ex_wire ''w2''\<rparr>"
  let ?st = "\<lambda>v pp. ex_gs [v] ?t (HWaiting 0) [AAir (ex_wire ''w1'')] pp"
  let ?ih = "\<lparr>ih_req = ex_request, assigned = ''w2'', attempts = 2, dispatched = 2, tried = {}, claimed = False, ih_result = []\<rparr>"
  have 0: "ex_frozen\<lparr>gs_poll := PFetched [?w2]\<rparr> = ?st ?w1 (PFetched [?w2])" by (simp add: ex_frozen_def ex_gs_def)
  have 1: "gs_step (?st ?w1 (PFetched [?w2])) LTau (?st ?w2 (PDeparted {''w1''}))"
    using gs_poll_departed [of "?st ?w1 (PFetched [?w2])" "[?w2]"] by (simp add: ex_gs_def departedIDs_eq)
  have 2: "gs_step (?st ?w2 (PDeparted {''w1''})) LTau (?st ?w2 (PCandidates {''w1''} [?w2]))"
    using gs_poll_snapshot [of "?st ?w2 (PDeparted {''w1''})" "{''w1''}"] by (simp add: ex_gs_def healthyExcept_def)
  have "reroute_claim {''w1''} [?w2] (\<lambda>_. 0) [''r1''] ?t = (ex_table ''w2'' 2 2 {} False [], [?j], [])"
    by (simp add: reroute_claim_def reroute_entry_def ex_table_def maxAttempts_def reroute_inflight_def)
  moreover have "iterates (requests ?t) [''r1'']" by (simp add: iterates_def ex_table_def)
  ultimately have 3: "gs_step (?st ?w2 (PCandidates {''w1''} [?w2])) LTau (ex_moved [] (PFiring [?j]))"
    using gs_poll_claim [of "?st ?w2 (PCandidates {''w1''} [?w2])" "{''w1''}" "[?w2]" "[''r1'']" "\<lambda>_. 0" "ex_table ''w2'' 2 2 {} False []" "[?j]" "[]"]
    by (simp add: ex_gs_def ex_moved_def)
  have 4: "gs_step (ex_moved [] (PFiring [?j])) LTau (ex_moved [AStart ?w2] (PFiring []))"
    using gs_poll_fire [of "ex_moved [] (PFiring [?j])" ?j "[]"] by (simp add: ex_moved_def ex_gs_def launch_def)
  have 5: "gs_step (ex_moved [AStart ?w2] (PFiring [])) LTau (ex_moved [AStart ?w2] PIdle)"
    using gs_poll_end [of "ex_moved [AStart ?w2] (PFiring [])"] by (simp add: ex_moved_def ex_gs_def)
  have 6: "gs_step (ex_moved [AStart ?w2] PIdle) (LCall 0 ?w2 ex_request) (ex_moved [AAir ?w2] PIdle)"
    using ex_attempt [OF as_call [of "[?w2]" 0 ?ih ?w2, simplified], of 1 "[AAir ?w1, AStart ?w2]"] by (simp add: ex_moved_def)
  have u: "unfetched_step g l (ex_gs v t h as pp)" if "gs_step g l (ex_gs v t h as pp)" "\<forall>fresh. pp \<noteq> PFetched fresh" for g l v t h as pp
    using that by (simp add: unfetched_step_def ex_gs_def)
  show ?thesis
    unfolding 0 using u [OF 1] u [OF 2] u [OF 3 [unfolded ex_moved_def]] u [OF 4 [unfolded ex_moved_def]] u [OF 5 [unfolded ex_moved_def]]
      u [OF 6 [unfolded ex_moved_def]] unfolding ex_moved_def
    by (intro exec_cons [where step = unfetched_step]) auto
qed

lemma ex_moved_calm: "calm (ex_moved [AAir (ex_wire ''w2'')] PIdle)"
  by (simp add: calm_def ex_moved_def ex_gs_def handler_calm_def ex_table_def)

text \<open>The poll: \<open>w2\<close> registers, is listed and delivered, the request moves on, \<open>w2\<close> leaves.\<close>

abbreviation ex_polling :: "td_label list" where
  "ex_polling \<equiv> [TdAct (DpControl (RegisterL \<lparr>reg_WorkerId = ''w2'', reg_Address = ''w2'', reg_Capacity = 1\<rparr>)), TdPoll,
     TdAct (DpListed \<lparr>lw_Workers = [ex_wire ''w2'']\<rparr>), TdAct DpDelivered]
     @ map (\<lambda>l. TdAct (DpGateway l)) ex_moving @ [TdAct (DpControl (DeregisterL \<lparr>dereg_WorkerId = ''w2''\<rparr>))]"

lemma ex_polled:
  "exec (td_step fe 1000000000 100000000) (ex_stuck ex_frozen 8900000000 (ex_swept 8900000000) 9000000000) ex_polling
     (ex_stuck (ex_moved [AAir (ex_wire ''w2'')] PIdle) 9900000000 (ex_swept 8900000000) 9000000000)"
proof -
  let ?n = "8900000000" and ?d = "9000000000" and ?iv = "1000000000" and ?lat = "100000000"
  let ?reg = "\<lparr>reg_WorkerId = ''w2'', reg_Address = ''w2'', reg_Capacity = 1\<rparr>" and ?resp = "\<lparr>lw_Workers = [ex_wire ''w2'']\<rparr>"
  let ?c = "(ex_swept ?n)\<lparr>cp_reg := snd (srv_Register ?n ?reg (cp_reg (ex_swept ?n)))\<rparr>"
  let ?s = "ex_stuck ex_frozen ?n ?c ?d" and ?f = "ex_frozen\<lparr>gs_poll := PFetched [ex_wire ''w2'']\<rparr>"
  let ?asked = "?s\<lparr>td_poll := 9900000000, td_asked := Some ?n\<rparr>"
  let ?listed = "?asked\<lparr>td_sys := ex_deployed ?c ex_frozen (Some ?resp)\<rparr>"
  have c: "cp_clock ?c = ?n" by simp
  have "cp_step fe (ex_swept ?n) (RegisterL ?reg) ?c" using cp_register [OF surjective_pairing, of fe "ex_swept ?n" ?reg] by simp
  with tp_act [of fe "\<lparr>tp_cp = ex_swept ?n, tp_due = ?d\<rparr>" "RegisterL ?reg" ?c]
  have "tp_step fe \<lparr>tp_cp = ex_swept ?n, tp_due = ?d\<rparr> (RegisterL ?reg) \<lparr>tp_cp = ?c, tp_due = ?d\<rparr>" by simp
  from ex_stuck_step [OF this _ ex_frozen_calm, of ?n]
  have 1: "td_step fe ?iv ?lat (ex_stuck ex_frozen ?n (ex_swept ?n) ?d) (TdAct (DpControl (RegisterL ?reg))) ?s" by simp
  have 2: "td_step fe ?iv ?lat ?s TdPoll ?asked"
    using td_ask [of ?s fe ?iv ?lat] by (simp add: next_tick_def ex_frozen_def ex_gs_def)
  have "iterates (workers (cp_reg ?c)) [''w2'']" by (simp add: srv_Register_def iterates_def)
  moreover have "srv_ListWorkers [''w2''] (cp_reg ?c) = Inr ?resp" by (simp add: srv_Register_def srv_ListWorkers_def ListWorkers_def ex_wire_def range_values_def to_wire_def fresh_info_def List.map_filter_def)
  ultimately have "cp_step fe ?c (ListWorkersL ?resp) ?c" by (rule cp_list)
  then have "dp_step fe (td_sys ?asked) (DpListed ?resp) (ex_deployed ?c ex_frozen (Some ?resp))"
    using dp_listed [of "ex_deployed ?c ex_frozen None" fe ?resp ?c] by (simp add: ex_deployed_def ex_stuck_def ex_frozen_def ex_gs_def)
  from td_listed [OF _ _ this, of ?n ?iv ?lat] have 3: "td_step fe ?iv ?lat ?asked (TdAct (DpListed ?resp)) ?listed" by (simp add: ex_stuck_def ex_deployed_def)
  have "gs_step ex_frozen LTau ?f" using gs_poll_fetch [of ex_frozen ?resp] by (simp add: ex_frozen_def ex_gs_def)
  then have "dp_step fe (td_sys ?listed) DpDelivered (ex_deployed ?c ?f None)"
    using dp_delivered [of "ex_deployed ?c ex_frozen (Some ?resp)" ?resp ?f fe] by (simp add: ex_deployed_def ex_frozen_def ex_gs_def)
  from td_delivered [OF _ this, of ?n ?iv ?lat]
  have 4: "td_step fe ?iv ?lat ?listed (TdAct DpDelivered) (ex_stuck ?f 9900000000 ?c ?d)" by (simp add: ex_stuck_def)
  note 5 = ex_stuck_gateway [OF ex_moves_on, of fe ?iv ?lat 9900000000 ?c ?d]
  have "cp_step fe ?c (DeregisterL \<lparr>dereg_WorkerId = ''w2''\<rparr>) (ex_swept ?n)"
    using cp_deregister [OF surjective_pairing, of fe ?c "\<lparr>dereg_WorkerId = ''w2''\<rparr>"]
    by (simp add: srv_Deregister_def Deregister_def srv_Register_def Register_def ex_swept_def ex_almost_def ex_cp_def)
  with tp_act [of fe "\<lparr>tp_cp = ?c, tp_due = ?d\<rparr>" "DeregisterL \<lparr>dereg_WorkerId = ''w2''\<rparr>" "ex_swept ?n"]
  have "tp_step fe \<lparr>tp_cp = ?c, tp_due = ?d\<rparr> (DeregisterL \<lparr>dereg_WorkerId = ''w2''\<rparr>) \<lparr>tp_cp = ex_swept ?n, tp_due = ?d\<rparr>" by simp
  from ex_stuck_step [OF this _ ex_moved_calm, of 9900000000 ?iv ?lat]
  have 6: "td_step fe ?iv ?lat (ex_stuck (ex_moved [AAir (ex_wire ''w2'')] PIdle) 9900000000 ?c ?d)
      (TdAct (DpControl (DeregisterL \<lparr>dereg_WorkerId = ''w2''\<rparr>))) (ex_stuck (ex_moved [AAir (ex_wire ''w2'')] PIdle) 9900000000 (ex_swept ?n) ?d)" by simp
  have "exec (td_step fe ?iv ?lat) (ex_stuck ex_frozen ?n (ex_swept ?n) ?d) [TdAct (DpControl (RegisterL ?reg)), TdPoll, TdAct (DpListed ?resp), TdAct DpDelivered]
      (ex_stuck ?f 9900000000 ?c ?d)"
    by (rule exec_cons, rule 1, rule exec_cons, rule 2, rule exec_cons, rule 3, rule exec_single, rule 4)
  from exec_append [OF exec_append [OF exec_single [where step = "td_step fe ?iv ?lat", OF 6] 5] this] show ?thesis by simp
qed

lemma ex_failover_run:
  "\<exists>before after. exec (td_step exact_env 1000000000 100000000) (ex_stuck ex_frozen 8900000000 ex_almost 8000000000)
       (map (\<lambda>l. TdAct (DpControl l)) before @ ex_polling @ map (\<lambda>l. TdAct (DpControl l)) after)
       (ex_stuck (ex_moved [AAir (ex_wire ''w2'')] PIdle) 9900000000 (ex_swept 9600000000) 10000000000)
     \<and> (\<forall>l \<in> set before \<union> set after. \<not> concerns ''w1'' l)"
proof -
  let ?st = "\<lambda>n d. \<lparr>tp_cp = ex_swept n, tp_due = d\<rparr>" and ?sw = "\<lambda>n :: time. [SnapshotL n, JudgeL [], ScanDoneL]"
  obtain ls where ls: "exec (tp_step exact_env) \<lparr>tp_cp = ex_almost, tp_due = 8000000000\<rparr> ls (?st 8500000000 8500000000)"
    "\<forall>l \<in> set ls. \<not> concerns ''w1'' l" using ex_evicted_run by blast
  have d: "exec (tp_step exact_env) (?st n d) [TickL] (?st m d)" if "n < m" "m \<le> d" for n m d
    using exec_single [where step = "tp_step exact_env", OF ex_swept_delay [OF that]] .
  have sw: "exec (tp_step exact_env) (?st n n) (?sw n) (?st n m)" if "m = n + 500000000" for n m
    using ex_swept_sweep [of exact_env n] that by simp
  have b: "exec (tp_step exact_env) \<lparr>tp_cp = ex_almost, tp_due = 8000000000\<rparr> (ls @ ?sw 8500000000 @ [TickL]) (?st 8900000000 9000000000)"
    by (rule exec_append [OF exec_append [OF d sw] ls(1)]) simp_all
  have a: "exec (tp_step exact_env) (?st 8900000000 9000000000) ([TickL] @ ?sw 9000000000 @ [TickL] @ ?sw 9500000000 @ [TickL]) (?st 9600000000 10000000000)"
    by (rule exec_append [OF exec_append [OF exec_append [OF exec_append [OF d sw] d] sw] d]) simp_all
  have "\<forall>l \<in> set (ls @ ?sw 8500000000 @ [TickL]) \<union> set ([TickL] @ ?sw 9000000000 @ [TickL] @ ?sw 9500000000 @ [TickL]). \<not> concerns ''w1'' l"
    using ls(2) by auto
  moreover note exec_append [OF exec_append [OF
        ex_stuck_exec [OF a _ ex_moved_calm, of 9900000000 1000000000 100000000, unfolded timed_plane.simps ex_swept_sel, simplified] ex_polled]
      ex_stuck_exec [OF b _ ex_frozen_calm, of 8900000000 1000000000 100000000, simplified]]
  ultimately show ?thesis
    by (intro exI [of _ "ls @ ?sw 8500000000 @ [TickL]"] exI [of _ "[TickL] @ ?sw 9000000000 @ [TickL] @ ?sw 9500000000 @ [TickL]"]) simp
qed

theorem stranded_request_moves_on_in_time_witness:
  "\<exists>ls t. exec (td_step exact_env 1000000000 100000000) (ex_stuck ex_frozen 8900000000 ex_almost 8000000000) ls t
     \<and> td_clock t = 9600000000 \<and> 0 \<in> ran (requests (gs_tracker (td_gw t)))
     \<and> (\<exists>v req. TdAct (DpGateway (LCall 0 v req)) \<in> set ls \<and> wi_WorkerId v \<noteq> ''w1'')"
proof -
  let ?s = "ex_stuck ex_frozen 8900000000 ex_almost 8000000000"
  let ?t = "ex_stuck (ex_moved [AAir (ex_wire ''w2'')] PIdle) 9900000000 (ex_swept 9600000000) 10000000000"
  let ?c = "map (\<lambda>l. TdAct (DpControl l))"
  obtain before after where x: "exec (td_step exact_env 1000000000 100000000) ?s (?c before @ ex_polling @ ?c after) ?t"
    and q: "\<forall>l \<in> set before \<union> set after. \<not> concerns ''w1'' l" using ex_failover_run by blast
  have waits: "0 \<in> ran (requests (gs_tracker (td_gw ?t)))" by (auto simp: ex_moved_def ex_gs_def ex_table_def ran_def)
  have "(\<exists>v req. TdAct (DpGateway (LCall 0 v req)) \<in> set (?c before @ ex_polling @ ?c after) \<and> wi_WorkerId v \<noteq> ''w1'')
     \<or> 0 \<notin> ran (requests (gs_tracker (td_gw ?t)))"
    by (rule stranded_request_moves_on_in_time [where w = ex_worker and e = ex_entry and j = 3, OF exact_env_ok exact_env_tail ex_stuck_inv _ _ _ _ _ _ _ _ _ x])
      (use q ex_given_up ex_stuck_held in \<open>auto simp: ex_almost_def verdict_due_def ex_frozen_def ex_gs_def ex_config_def\<close>)
  with waits x show ?thesis by (intro exI [of _ "?c before @ ex_polling @ ?c after"] exI [of _ ?t]) simp
qed

end
