(* ===== verification/Spec2Isabelle.thy ===== *)
theory Spec2Isabelle
  imports Control_Plane_Process Worker_Process Gateway_Process Gateway_Types Gateway_Stragglers Chain_System
    Demo_Run Locks Failover
begin

text \<open>
  Verification of \<^verbatim>\<open>llm-inference-cp\<close>, a control plane and a gateway for a fleet of inference workers, in Go.

  The program. Workers register with the control plane and heartbeat once a second. The control plane keeps
  their records (\<^verbatim>\<open>internal/registry\<close>), serves them over gRPC (\<^verbatim>\<open>internal/controlplane\<close>), and runs a
  phi-accrual failure detector (\<^verbatim>\<open>internal/detector\<close>) that turns silence into a suspicion score, evicts dead
  workers from the registry and emits an event for each. The gateway (\<^verbatim>\<open>internal/gateway\<close>) polls the list of
  workers, admits a client's request under its id, and races attempts for it: a failed attempt is
  replaced at once (the fast path), a request whose worker has left the list gets one more attempt (the slow path),
  the first result wins, and the budget of three dispatches is shared by both paths. \<^verbatim>\<open>cmd/worker\<close> is
  a worker with a mock inference handler, \<^verbatim>\<open>cmd/democlient\<close> a batch client.

  The theories, from the bottom up.
  \<^item> \<open>Prelude\<close>: iteration over Go maps, random choice, bounded channels, executions of step relations, the locales
    \<open>trace_invariant\<close> and \<open>state_invariant\<close>, counting lemmas. \<open>Go_Runtime\<close>: time, durations, floats, errors.
    \<open>Wire\<close>: the protobuf messages.
  \<^item> \<open>Fact_Store\<close>: a worker's record and the locale \<open>fact_store\<close>, the laws of the registry its clients use.
    \<open>Registry\<close>: \<^verbatim>\<open>internal/registry/registry.go\<close>, the mutex-guarded map as the record \<open>worker_registry\<close>, one
    function per method; it interprets \<open>fact_store\<close>. \<open>Server\<close>: \<^verbatim>\<open>internal/controlplane/server.go\<close>.
  \<^item> \<open>Sliding_Window\<close> and \<open>Detector\<close>: \<^verbatim>\<open>internal/detector/detector.go\<close>, the ring buffer (it interprets \<open>sample_window\<close>), the score,
    the state machine and the sweep \<^verbatim>\<open>scanOnce\<close> with its three phases. \<open>Control_Plane\<close>: handlers, scanner and
    event drain interleaved as the step relation \<open>cp_step\<close>. \<open>Detection\<close>: which silence is detected, which
    workers are never suspected, and which are never evicted (\<open>ghost\<close>). \<open>Control_Plane_Time\<close>: \<open>cp_step\<close> with the scanner's ticker
    (\<open>tp_step\<close>), and how long a silent worker stays in the registry.
  \<^item> \<open>Go_Process\<close>: what the three server processes share, a context that signals cancel, the goroutine in \<^verbatim>\<open>Serve\<close>,
    \<^verbatim>\<open>GracefulStop\<close>, the \<^verbatim>\<open>WaitGroup\<close> (\<open>core_step\<close>), and the locale \<open>server_process\<close>, the contract of a process built on it.
    \<open>Gateway_Process\<close> (\<^verbatim>\<open>cmd/gateway/main.go\<close>, \<^verbatim>\<open>PollLoop\<close>, \<^verbatim>\<open>Close\<close>), \<open>Control_Plane_Process\<close>
    (\<^verbatim>\<open>cmd/controlplane/main.go\<close>, \<^verbatim>\<open>Detector.Run\<close>) and \<open>Worker_Process\<close> (\<^verbatim>\<open>cmd/worker/main.go\<close>) interpret it: a function for the
    start-up with its fatal errors, a step relation for the running process (\<open>gp_step\<close>, \<open>cpp_step\<close>, \<open>wp_step\<close>).
  \<^item> \<open>Worker\<close>: \<^verbatim>\<open>cmd/worker/main.go\<close>, the handler and the heartbeat loop.
  \<^item> \<open>Tracker\<close>: \<^verbatim>\<open>internal/gateway/tracker.go\<close>, records of requests in a heap (attempts hold them by pointer), the
    latch and its channel (they interpret \<open>first_wins\<close>), the table. \<open>Gateway\<close>: the operations of
    \<^verbatim>\<open>internal/gateway/gateway.go\<close>, each on the state its lock guards. \<open>Retry_Chain\<close>: \<^verbatim>\<open>Generate\<close>, \<^verbatim>\<open>attempt\<close> and \<^verbatim>\<open>attemptFailed\<close>
    for one request with nobody else running, as mutually recursive functions.
  \<^item> \<open>Gateway_System\<close>: the running gateway, handlers, attempts and the poll loop interleaved as the step relation
    \<open>gs_step\<close>, one step per critical section, latch or channel operation or RPC event. \<open>Gateway_Invariant\<close>: its invariant
    \<open>gs_inv\<close>. \<open>Gateway_Traces\<close>: calls and wins counted along executions, and where results come from.
    \<open>Gateway_Work\<close>: a potential that bounds the work per request. \<open>Gateway_Drain\<close>: one that bounds the work of the whole
    gateway once no request is admitted. \<open>Gateway_Safety\<close>: its properties. \<open>Gateway_Types\<close>: the types Go does not check.
    \<open>Gateway_Time\<close>: \<open>gs_step\<close> with a clock and the deadline \<^verbatim>\<open>attemptTimeout\<close> of every call (\<open>tg_step\<close>), how long a request can
    take. \<open>Gateway_Stragglers\<close>: what a request does whose client has left. \<open>Gateway_Rescue\<close>: the slow path for one request, and the
    request it misses. \<open>Chain_System\<close>: the
    sequential \<^verbatim>\<open>Generate\<close> of \<open>Retry_Chain\<close> is an execution of \<open>gs_step\<close>.
  \<^item> \<open>Lock_Discipline\<close> and \<open>Locks\<close>: the five mutexes of the program. For each function that takes or needs one, the sequence of
    its acquisitions, releases, accesses to shared fields and waits; goroutines that run these in any interleaving
    (\<open>lk_step\<close>), a checker of the discipline, and the locale \<open>lock_program\<close>, interpreted on the program's own sequences.
  \<^item> \<open>Deployment\<close>: the control plane of \<open>Control_Plane\<close> and the gateway of \<open>Gateway_System\<close> as one system (\<open>dp_step\<close>), with the
    listing that travels between them. \<open>Failover\<close>: both with a clock, the two tickers and the latency of the listing
    (\<open>td_step\<close>), and how long a request stays with a worker that fell silent.
  \<^item> \<open>Demo_Client\<close> and \<open>Demo_Run\<close>: \<^verbatim>\<open>cmd/democlient/main.go\<close>, ids, outcomes, tally and exit code; the concurrent
    batch (\<open>client_step\<close>), the report, the JSON file and the exit status. This theory: properties that span the components.

  What the properties show. For the gateway, under every interleaving: at most three calls and one winner per
  request, genuine answers, explained errors, no admitted request forgotten, bounded work, no blocked sender, an exact gauge of
  attempts, a table without leaks, and with the clock running an end of every request within 90 seconds; for one request on its own: the complete contract of \<^verbatim>\<open>Generate\<close>, the
  masking of two crashes and the cost of exhaustion. For the detector: the score's range and monotonicity, the
  sweep worker by worker, no death without evidence, a bound on the time to an eviction, the interleaved scanner as a refinement of \<^verbatim>\<open>scanOnce\<close>, its
  termination and progress. For the registry, server and workers: the contracts of the operations and recovery after
  restarts. For the processes: the gateway accepts, polls and dials only when it may (\<open>process_discipline\<close>), its clean exit
  has answered every request (attempts may outlive it), its shutdown terminates, the control plane's does unless the scanner blocks on the event channel, a worker's last call is its
  \<^verbatim>\<open>Deregister\<close>. For the batch client: the order of completion does not matter and no loss goes unreported. For the mutexes: no data race on
  the fields they guard, no deadlock, no mutex held across a wait. Across the components: the gateway calls only registered
  addresses and every answer comes from a registered worker; a
  request on a worker that fell silent moves on within a bounded time;
  the way from a crash to the retry, from an eviction back to service, from a clean exit out of the view, and from a
  failed start to a ghost. Some properties and lemmas state
  behaviour the code's comments do not expect: \<open>exhausted_while_in_flight\<close>, \<open>reroute_may_repeat_a_failed_worker\<close>,
  \<open>heartbeat_during_sweep_does_not_save\<close>, \<open>control_plane_shutdown_can_hang\<close>, \<open>failed_start_leaves_a_ghost\<close>,
  \<open>close_under_running_attempt\<close>, \<open>abandoned_request_is_retried\<close>, \<open>late_registration_is_never_rerouted\<close>.

  Bounds. No definition uses fuel. \<open>attempt\<close>/\<open>attemptFailed\<close> terminate by the retry budget
  (\<open>maxAttempts - dispatched\<close>); the bound of 21 steps per request in \<open>Gateway_Work\<close> is seven for each of the three
  dispatches. \<open>shutdown_left\<close> bounds the gateway's shutdown by the weights of the handlers, attempts and polls in progress;
  \<open>4 * k + 1\<close> bounds a batch of \<open>k\<close> requests. The 90 seconds of \<open>Gateway_Time\<close> are \<open>maxAttempts * attemptTimeout\<close>, one deadline of 30
  seconds for each dispatch the budget allows; \<^verbatim>\<open>cmd/democlient\<close> gives up after 60 seconds unless told otherwise. The bound of \<open>Failover\<close> adds
  the silence that makes the score reach its cap (eight seconds for one-second heartbeats), one interval of the scanner's ticker, the larger of the
  poll interval and the latency of a listing (a ticker drops the ticks a slow poll misses), and one latency more. That time goes on
  in the timed systems is \<open>gateway_time_diverges\<close>, \<open>plane_goes_on\<close> and \<open>deployment_goes_on\<close>.

  Parameters. Clocks, random draws, iteration orders of maps, float rounding with \<^verbatim>\<open>math.Erfc\<close> and \<^verbatim>\<open>math.Log10\<close>
  (record \<open>float_env\<close>, facts \<open>float_ok\<close>, \<open>dyadic_ok\<close>, \<open>erfc_tail\<close>, \<open>near_ok\<close>), the answers of workers, \<^verbatim>\<open>grpc.NewClient\<close>, \<^verbatim>\<open>net.Listen\<close>,
  \<^verbatim>\<open>os.Create\<close>, the JSON encoder and \<^verbatim>\<open>grpc.Server\<close> (record \<open>grpc_server\<close>, its documented behaviour \<open>grpc_ok\<close>) are arguments. A
  context's timeout is the \<^verbatim>\<open>DeadlineExceeded\<close> error it makes a call return, at any time in \<open>gs_step\<close> and no later than the
  deadline in \<open>tg_step\<close>; a ticker may tick at any time in \<open>cp_step\<close> and \<open>gs_step\<close>, and ticks on time in \<open>tp_step\<close> and \<open>td_step\<close>. In
  the timed relations computing takes no time; the latency of a listing is a parameter of \<open>td_step\<close>. Each float operation of the
  source is rounded on its own: a compiler that fuses a multiplication with an addition (Go allows it on some
  architectures) is not modelled. \<open>float_ok\<close> takes rounding, \<^verbatim>\<open>math.Erfc\<close> and \<^verbatim>\<open>math.Log10\<close> to be monotone, which their
  documentation does not promise word for word; \<open>exact_env\<close> is an instance.

  Not modelled: the parsing of the command line (the flags and their defaults are \<open>worker_flags\<close>
  and \<open>demo_flags\<close>), the minting of uuids, logging (with its helper \<^verbatim>\<open>keysOf\<close>) and the wording of printed lines,
  gRPC reflection, the generated gRPC stubs and the protobuf plumbing, tests, scripts. Go's memory model is not modelled: the step
  relations take a critical section as one step, which \<open>Locks\<close> justifies for the fields the mutexes guard (its acts are single
  acquisitions and accesses); atomics and channels are taken to be the operations the Go documentation says they are.
\<close>

section \<open>Across the components\<close>

text \<open>
  The four binaries started without flags: each of them calls an address another one listens on. The client's deadline
  for the whole batch is shorter than the time the gateway may spend on one request.
\<close>

lemma default_addresses_meet:
  "wf_cp default_worker_flags = ''localhost'' @ listenAddr" "controlPlaneAddr = ''localhost'' @ listenAddr"
  "df_addr default_demo_flags = gatewayAddr" "wf_addr default_worker_flags \<notin> {gatewayAddr, ''localhost'' @ listenAddr}"
  by (simp_all add: default_worker_flags_def default_demo_flags_def listenAddr_def controlPlaneAddr_def gatewayAddr_def)

lemma default_timeout_is_short:
  "2 * attemptTimeout \<le> default_timeout" "default_timeout < maxAttempts * attemptTimeout"
  by (simp_all add: default_timeout_def attemptTimeout_def maxAttempts_def)

text \<open>
  One dispatch as the deployed system does it: the gateway's worker RPC is answered by the mock worker's
  handler; how its wait ended (\<open>out\<close>) is left open.
\<close>

definition mock_fleet ::
  "(nat \<Rightarrow> wait_outcome) \<Rightarrow> (nat \<Rightarrow> wire_worker list) \<Rightarrow> (nat \<Rightarrow> nat) \<Rightarrow> chain_env" where
  "mock_fleet out view draw =
     \<lparr>ce_dispatch = (\<lambda>k w req. worker_Generate \<lparr>workerID = wi_WorkerId w, workerAddr = wi_Address w, delay = 0\<rparr>
        req (out k)),
      ce_view = view, ce_draw = draw\<rparr>"

lemma mock_fleet_dispatch:
  "ce_dispatch (mock_fleet out view draw) k w req =
     (case out k of
        DelayElapsed \<Rightarrow> Inr \<lparr>resp_RequestId = req_RequestId req,
          resp_Output = ''mock-output for: '' @ req_Prompt req, resp_WorkerId = wi_WorkerId w\<rparr>
      | CtxDone e \<Rightarrow> Inl (from_context_error e))"
  by (simp add: mock_fleet_def worker_Generate_def Let_def split: wait_outcome.split)

lemma view_after_poll: "fst (pollOnce (Inr lw) draws tks view t) = lw_Workers lw"
  by (simp add: pollOnce_def Let_def split: prod.split)

lemma listed_ids:
  assumes "reg_wf r" and "iterates (workers r) ks" and "srv_ListWorkers ks r = Inr lw"
  shows "wi_WorkerId ` set (lw_Workers lw) = dom (workers r)"
proof -
  have "lw_Workers lw = map to_wire (ListWorkers ks r)" using assms(3) by (auto simp: srv_ListWorkers_def)
  then have "wi_WorkerId ` set (lw_Workers lw) = set (map wi_WorkerId (map to_wire (ListWorkers ks r)))"
    by (simp only: list.set_map)
  also have "\<dots> = dom (workers r)"
    unfolding srv_ListWorkers_ids(2) [OF assms(1,2)] using assms(2) by (simp add: iterates_def)
  finally show ?thesis .
qed

text \<open>A registered worker is in the view after the next poll.\<close>

lemma registered_in_view:
  assumes "reg_wf r" and "iterates (workers r) ks" and "workers r (ID i) = Some i"
    and "pollOnce (srv_ListWorkers ks r) draws tks view t = (view', t', jobs)"
  shows "to_wire i \<in> set view'"
proof -
  have "i \<in> set (ListWorkers ks r)" using reg.snapshot_mem [OF assms(1,2)] assms(3) by simp
  moreover have "view' = map to_wire (ListWorkers ks r)"
    using assms(4) view_after_poll [of "\<lparr>lw_Workers = map to_wire (ListWorkers ks r)\<rparr>" draws tks view t]
    by (simp add: srv_ListWorkers_def)
  ultimately show ?thesis by simp
qed

text \<open>A call of a worker and the handler's step that serves it.\<close>

fun arrives :: "rpc \<Rightarrow> cp_label \<Rightarrow> bool" where
  "arrives (CallRegister q) (RegisterL q') = (q' = q)"
| "arrives (CallHeartbeat q) (HeartbeatL q' res) = (q' = q)"
| "arrives (CallDeregister q) (DeregisterL q') = (q' = q)"
| "arrives _ _ = False"

text \<open>Two workers: \<open>w1\<close> has been silent for ten seconds, \<open>w2\<close> has just registered.\<close>

definition ex_two :: worker_registry where
  "ex_two = \<lparr>workers = [''w1'' \<mapsto> ex_worker, ''w2'' \<mapsto> fresh_info ''w2'' ''host:2'' 10 9000000000]\<rparr>"

section \<open>Properties\<close>

text \<open>
  From the crash to the retry. A sweep that declares a worker dead evicts it from the registry; the
  gateway's next poll sees it gone, and every request in flight that is assigned to it and has budget gets
  a new attempt on a worker that is still registered. The dead worker is in the view no more.
\<close>

lemma crash_reaches_the_stranded_requests:
  assumes "0 < WindowSize (cfg d)" and "entries_wf (cfg d) (entries d)" and "reg_wf r"
    and "iterates (workers r) ks" and "length (events d) + card (dom (workers r)) \<le> events_capacity"
    and "workers r wid = Some w" and "dies fe (cfg d) now (entries d) w"
    and "scanOnce fe now ks r d = Some (r', d', pending)" and "iterates (workers r') ks'"
    and "workers r' \<noteq> Map.empty"
    and "tracker_wf t" and "iterates (requests t) tks" and "wid \<in> wi_WorkerId ` set view"
    and "requests t i = Some p" and "heap t p = Some ih" and "assigned ih = wid" and "dispatched ih < maxAttempts"
    and "pollOnce (srv_ListWorkers ks' r') draws tks view t = (view', t', jobs)"
  shows "wid \<notin> wi_WorkerId ` set view'
     \<and> (\<exists>j \<in> set jobs. j_reqID j = i \<and> j_ih j = p \<and> wi_WorkerId (j_target j) \<in> dom (workers r'))"
proof -
  from scanOnce_ok [OF assms(1-5), of fe now] obtain r2 d2 and deaths :: "dead_event list"
    where sweep: "scanOnce fe now ks r d = Some (r2, d2, [])"
      and r2: "workers r2 = workers r |` (- (WorkerID ` set deaths))"
      and dead: "WorkerID ` set deaths = {wid. \<exists>w. workers r wid = Some w \<and> dies fe (cfg d) now (entries d) w}"
    by blast
  have r': "workers r' = workers r |` (- (WorkerID ` set deaths))" using sweep r2 assms(8) by simp
  have gone: "wid \<notin> dom (workers r')" using assms(6,7) by (auto simp: r' dead)
  have wf': "reg_wf r'"
  proof -
    have "finite (dom (workers r'))" using assms(9) by (rule iterates_finite)
    moreover have "ID v = i" if "workers r' i = Some v" for i v
      using that assms(3) by (auto simp: r' reg_wf_def restrict_map_def split: if_splits)
    ultimately show ?thesis by (simp add: reg_wf_def)
  qed
  obtain lw where lw: "srv_ListWorkers ks' r' = Inr lw" by (simp add: srv_ListWorkers_def)
  have ids: "wi_WorkerId ` set (lw_Workers lw) = dom (workers r')" by (rule listed_ids [OF wf' assms(9) lw])
  have ne: "lw_Workers lw \<noteq> []" using ids assms(10) by (metis dom_eq_empty_conv image_is_empty set_empty)
  note poll = pollOnce_ok [OF assms(11,12) ne assms(18) [unfolded lw]]
  have "stranded (departedIDs view (lw_Workers lw)) ih"
    using assms(13,16,17) ids gone by (auto simp: stranded_def departedIDs_eq)
  then have "i \<in> set (map j_reqID jobs)"
    using poll assms(12,14,15) by (auto simp: iterates_def)
  then obtain j where j: "j \<in> set jobs" "j_reqID j = i" by auto
  have "requests t (j_reqID j) = Some (j_ih j)" "j_target j \<in> set (lw_Workers lw)" using poll j(1) by auto
  then have "j_ih j = p" "wi_WorkerId (j_target j) \<in> dom (workers r')" using j(2) assms(14) ids by auto
  moreover have "wid \<notin> wi_WorkerId ` set view'" using poll ids gone by simp
  ultimately show ?thesis using j by blast
qed

lemma crash_reaches_the_stranded_requests_witness:
  "\<exists>r' d' view' t' jobs. scanOnce exact_env 10000000000 [''w1'', ''w2''] ex_two
       \<lparr>cfg = ex_config, entries = ex_ents, events = []\<rparr> = Some (r', d', [])
     \<and> pollOnce (srv_ListWorkers [''w2''] r') (\<lambda>_. 0) [''r1''] [ex_wire ''w1''] ex_tracker = (view', t', jobs)
     \<and> ''w1'' \<notin> wi_WorkerId ` set view' \<and> (\<exists>j \<in> set jobs. j_reqID j = ''r1'')"
proof -
  let ?d = "\<lparr>cfg = ex_config, entries = ex_ents, events = []\<rparr>"
  have wf: "reg_wf ex_two" "iterates (workers ex_two) [''w1'', ''w2'']"
    by (auto simp: ex_two_def reg_wf_def iterates_def split: if_splits)
  have win: "0 < WindowSize (cfg ?d)" "entries_wf (cfg ?d) (entries ?d)"
    by (simp_all add: entries_wf_def ex_ents_def)
  have room: "length (events ?d) + card (dom (workers ex_two)) \<le> events_capacity"
    by (simp add: ex_two_def events_capacity_def card_insert_if)
  from scanOnce_ok [OF win wf room, of exact_env 10000000000] obtain r' d' and deaths :: "dead_event list"
    where s: "scanOnce exact_env 10000000000 [''w1'', ''w2''] ex_two ?d = Some (r', d', [])"
      and r': "workers r' = workers ex_two |` (- (WorkerID ` set deaths))"
      and dead: "WorkerID ` set deaths = {wid. \<exists>w. workers ex_two wid = Some w
        \<and> dies exact_env (cfg ?d) 10000000000 (entries ?d) w}"
    by blast
  have "\<not> dies exact_env ex_config 10000000000 ex_ents (fresh_info ''w2'' ''host:2'' 10 9000000000)"
    by (simp add: dies_def judge_def ex_ents_def newSlidingWindow_def)
  then have "WorkerID ` set deaths = {''w1''}"
    using ex_dies unfolding dead by (auto simp: ex_two_def split: if_splits)
  then have w': "workers r' = [''w2'' \<mapsto> fresh_info ''w2'' ''host:2'' 10 9000000000]"
    unfolding r' by (auto simp: ex_two_def restrict_map_def fun_eq_iff)
  have it: "iterates (workers r') [''w2'']" and ne: "workers r' \<noteq> Map.empty"
    unfolding w' by (simp_all add: iterates_def)
  obtain view' t' jobs where p: "pollOnce (srv_ListWorkers [''w2''] r') (\<lambda>_. 0) [''r1''] [ex_wire ''w1''] ex_tracker
      = (view', t', jobs)" by (metis prod_cases3)
  have w1: "workers ex_two ''w1'' = Some ex_worker" by (simp add: ex_two_def)
  have d1: "dies exact_env (cfg ?d) 10000000000 (entries ?d) ex_worker" using ex_dies by simp
  have q: "''w1'' \<in> wi_WorkerId ` set [ex_wire ''w1'']" "requests ex_tracker ''r1'' = Some 0"
    by (simp_all add: ex_tracker_def)
  obtain ih where ih: "heap ex_tracker 0 = Some ih" "assigned ih = ''w1''" "dispatched ih < maxAttempts"
    by (simp add: ex_tracker_def maxAttempts_def)
  from crash_reaches_the_stranded_requests [OF win wf room w1 d1 s it ne ex_tracker_wf q ih p]
  show ?thesis using s p by blast
qed

text \<open>
  From the eviction back to service. A worker that was evicted by mistake (paused, or cut off from the network) and is
  alive is registered again by its next heartbeat turn that gets through, and after the gateway's next poll it is back in
  the view, under the same id and with its address, so requests can be routed to it again.
\<close>

lemma evicted_worker_returns:
  assumes "reg_wf r" and "workers r (workerID w) = None" and "r' = worker_tick w now None r"
    and "iterates (workers r') ks" and "pollOnce (srv_ListWorkers ks r') draws tks view t = (view', t', jobs)"
  shows "\<lparr>wi_WorkerId = workerID w, wi_Address = workerAddr w\<rparr> \<in> set view'
     \<and> (\<exists>draw. pickWorker draw view' = Inr \<lparr>wi_WorkerId = workerID w, wi_Address = workerAddr w\<rparr>)"
proof -
  let ?i = "fresh_info (workerID w) (workerAddr w) workerCapacity now"
  have wf': "reg_wf r'" using assms(1,3) worker_tick_wf by simp
  have "workers r' (ID ?i) = Some ?i" using worker_tick_unknown [OF assms(2)] assms(3) by simp
  with registered_in_view [OF wf' assms(4) this assms(5)]
  have v: "\<lparr>wi_WorkerId = workerID w, wi_Address = workerAddr w\<rparr> \<in> set view'" by (simp add: to_wire_def)
  then obtain draw where "pick_random draw view' = \<lparr>wi_WorkerId = workerID w, wi_Address = workerAddr w\<rparr>"
    using pick_random_onto by metis
  with v show ?thesis by (intro conjI exI [of _ draw]) (auto simp: pickWorker_def)
qed

lemma evicted_worker_returns_witness:
  "\<lparr>wi_WorkerId = ''w1'', wi_Address = ''host:1''\<rparr> \<in> set (fst (pollOnce (srv_ListWorkers [''w1'']
     (worker_tick \<lparr>workerID = ''w1'', workerAddr = ''host:1'', delay = 0\<rparr> 7 None NewWorkerRegistry)) (\<lambda>_. 0) []
     [] NewRequestTracker))"
proof -
  let ?w = "\<lparr>workerID = ''w1'', workerAddr = ''host:1'', delay = 0\<rparr>"
  let ?r = "worker_tick ?w 7 None NewWorkerRegistry"
  have none: "workers NewWorkerRegistry (workerID ?w) = None" by (simp add: NewWorkerRegistry_def)
  have it: "iterates (workers ?r) [''w1'']"
    using worker_tick_dom [of ?w 7 NewWorkerRegistry] by (simp add: iterates_def NewWorkerRegistry_def)
  obtain view' t' jobs where p: "pollOnce (srv_ListWorkers [''w1''] ?r) (\<lambda>_. 0) [] [] NewRequestTracker
      = (view', t', jobs)" by (metis prod_cases3)
  from evicted_worker_returns [OF reg_wf_new none refl it p] show ?thesis unfolding p by simp
qed

text \<open>
  End to end over the mock workers: an admitted request that is answered is answered under its own id, with
  the mock output for its own prompt, signed by the last worker that was called; an error is the terminal
  cancellation of a call or the exhaustion report, and timeouts alone never reach the client as such.
\<close>

lemma end_to_end_mock_answer:
  assumes "req_RequestId req \<noteq> ''''" and "view \<noteq> []" and "requests t (req_RequestId req) = None"
  shows "\<exists>res t' calls. Generate (mock_fleet out views draws) draw req view t = Some (res, t', calls)
     \<and> requests t' = requests t \<and> calls \<noteq> [] \<and> length calls \<le> 3
     \<and> (case res of
          Inr resp \<Rightarrow> resp = Some \<lparr>resp_RequestId = req_RequestId req,
              resp_Output = ''mock-output for: '' @ req_Prompt req, resp_WorkerId = wi_WorkerId (last calls)\<rparr>
        | Inl e \<Rightarrow> e = from_context_error CtxCanceled
            \<or> e = exhausted_error (int (length calls)) (from_context_error CtxDeadlineExceeded))"
proof -
  let ?E = "mock_fleet out views draws"
  obtain r t' calls where g: "Generate ?E draw req view t = Some (outcome_of r, t', calls)"
      "chain_spec ?E req calls r" "int (length calls) \<le> maxAttempts" "requests t' = requests t"
    using Generate_admitted [OF assms, of ?E draw] by blast
  have "case outcome_of r of
          Inr resp \<Rightarrow> resp = Some \<lparr>resp_RequestId = req_RequestId req,
              resp_Output = ''mock-output for: '' @ req_Prompt req, resp_WorkerId = wi_WorkerId (last calls)\<rparr>
        | Inl e \<Rightarrow> e = from_context_error CtxCanceled
            \<or> e = exhausted_error (int (length calls)) (from_context_error CtxDeadlineExceeded)"
  proof (cases "out (length calls)")
    case DelayElapsed
    then show ?thesis using g(2) by (simp add: chain_spec_def mock_fleet_dispatch)
  next
    case (CtxDone e)
    then show ?thesis using g(2)
      by (cases e) (simp_all add: chain_spec_def mock_fleet_dispatch retryable_iff)
  qed
  moreover have "length calls \<le> 3" using g(3) by (simp add: maxAttempts_def)
  ultimately show ?thesis using g chain_specD(1) [OF g(2)] by blast
qed

lemma end_to_end_mock_answer_witness:
  "\<exists>res t' calls. Generate (mock_fleet (\<lambda>_. DelayElapsed) (\<lambda>_. ex_fleet) (\<lambda>_. 0)) 0 ex_request ex_fleet NewRequestTracker
       = Some (res, t', calls) \<and> length calls \<le> 3"
  using end_to_end_mock_answer [of ex_request ex_fleet NewRequestTracker "\<lambda>_. DelayElapsed" "\<lambda>_. ex_fleet" "\<lambda>_. 0" 0]
  by (fastforce simp: ex_fleet_def NewRequestTracker_def)

text \<open>
  C23. A start that fails leaves a ghost. The worker's \<^verbatim>\<open>main\<close> registers before it listens and gives up with
  \<^verbatim>\<open>log.Fatalf\<close> when the listener cannot be opened, without deregistering. From then on, however long the control plane
  runs and whatever the other workers do, it lists the address at which nobody answers, and the gateway's
  view after a poll has it as a target: the detector never evicts it, because it has no second sample.
\<close>

theorem failed_start_leaves_a_ghost:
  assumes "cp_inv s" and "0 \<le> PhiSuspect (cfg (cp_det s))" and "0 \<le> PhiDead (cfg (cp_det s))"
    and "unseen (workerID w) s" and "dial addr = Inr conn" and "listen (workerAddr w) = Some err"
    and "reply (register_call w) = fst (srv_Register (cp_clock s) (register_call w) (cp_reg s))"
    and "cp_step fe s (RegisterL (register_call w)) t"
    and "exec (cp_step fe) t ls u" and "\<forall>l \<in> set ls. \<not> concerns (workerID w) l"
    and "iterates (workers (cp_reg u)) ks"
    and "pollOnce (srv_ListWorkers ks (cp_reg u)) draws tks view tr = (view', tr', jobs)"
  shows "worker_main w addr dial reply listen
       = ([CallRegister (register_call w)],
          Fatal ''failed to listen on %s: %v'' [ArgString (workerAddr w), ArgErr err])
     \<and> \<lparr>wi_WorkerId = workerID w, wi_Address = workerAddr w\<rparr> \<in> set view'"
proof
  show "worker_main w addr dial reply listen
       = ([CallRegister (register_call w)],
          Fatal ''failed to listen on %s: %v'' [ArgString (workerAddr w), ArgErr err])"
    using assms(5-7) by (simp add: worker_main_def srv_Register_def)
  let ?i = "fresh_info (workerID w) (workerAddr w) workerCapacity (cp_clock s)"
  have c: "reg_WorkerId (register_call w) = workerID w" "reg_Address (register_call w) = workerAddr w"
    "reg_Capacity (register_call w) = workerCapacity" by (simp_all add: register_call_def)
  have "ghost (workerID w) ?i t" "cp_det t = cp_det s"
    using registered_unseen_ghost [of "register_call w" s fe t] assms(4,8) c by simp_all
  with ghost_exec [OF assms(9) this(1) cp_inv_step [OF assms(1,8)]] assms(2,3,10)
  have u: "workers (cp_reg u) (ID ?i) = Some ?i" "reg_wf (cp_reg u)" by (simp_all add: ghost_def cp_inv_def)
  show "\<lparr>wi_WorkerId = workerID w, wi_Address = workerAddr w\<rparr> \<in> set view'"
    using registered_in_view [OF u(2) assms(11) u(1) assms(12)] by (simp add: to_wire_def)
qed

theorem failed_start_leaves_a_ghost_witness:
  "\<exists>t. cp_step exact_env ex_cp (RegisterL (register_call \<lparr>workerID = ''w9'', workerAddr = ''host:9'', delay = 0\<rparr>)) t
     \<and> \<lparr>wi_WorkerId = ''w9'', wi_Address = ''host:9''\<rparr> \<in>
         set (fst (pollOnce (srv_ListWorkers [''w1'', ''w9''] (cp_reg t)) (\<lambda>_. 0) [] [] NewRequestTracker))"
proof -
  let ?w = "\<lparr>workerID = ''w9'', workerAddr = ''host:9'', delay = 0\<rparr>"
  let ?s = "ex_cp" and ?q = "register_call ?w"
  let ?t = "?s\<lparr>cp_reg := snd (srv_Register (cp_clock ?s) ?q (cp_reg ?s))\<rparr>"
  have step: "cp_step exact_env ?s (RegisterL ?q) ?t"
    using cp_register [of ?s ?q "fst (srv_Register (cp_clock ?s) ?q (cp_reg ?s))"] by simp
  have phi: "0 \<le> PhiSuspect (cfg (cp_det ?s))" "0 \<le> PhiDead (cfg (cp_det ?s))" by simp_all
  have new: "unseen (workerID ?w) ?s" by (simp add: unseen_def ex_ents_def)
  have it: "iterates (workers (cp_reg ?t)) [''w1'', ''w9'']"
    by (auto simp: iterates_def srv_Register_def register_call_def)
  obtain view' tr' jobs where p: "pollOnce (srv_ListWorkers [''w1'', ''w9''] (cp_reg ?t)) (\<lambda>_. 0) [] [] NewRequestTracker
      = (view', tr', jobs)" by (metis prod_cases3)
  have "\<lparr>wi_WorkerId = ''w9'', wi_Address = ''host:9''\<rparr> \<in> set view'"
    using failed_start_leaves_a_ghost [OF ex_cp_inv phi new, where dial = "\<lambda>_. Inr 0"
        and listen = "\<lambda>_. Some (GoError Unknown [] [])" and reply = "\<lambda>_. fst (srv_Register (cp_clock ?s) ?q (cp_reg ?s))",
        OF refl refl refl step exec_nil _ it p] by simp
  then show ?thesis using step p by auto
qed

text \<open>
  C33. A clean exit reaches the gateway. When a worker's main has returned and the calls it sent have all arrived
  at the control plane, in their order and interleaved with anything else that happens there, the worker is registered
  no more, and the gateway's next poll drops it from the view. No heartbeat of it comes late and brings it back.
\<close>

theorem clean_exit_leaves_the_view:
  assumes "exec (wp_step g) (worker_start w interval) ls s" and "exited (wp_core s)"
    and "cp_inv c" and "exec (cp_step fe) c cls c'"
    and "list_all2 arrives (rpcs_of w ls) (filter (concerns (workerID w)) cls)"
    and "iterates (workers (cp_reg c')) ks"
    and "pollOnce (srv_ListWorkers ks (cp_reg c')) draws tks view tr = (view', tr', jobs)"
  shows "workers (cp_reg c') (workerID w) = None \<and> workerID w \<notin> wi_WorkerId ` set view'"
proof -
  from worker_exit_calls(2) [OF assms(1,2)] obtain cs where cs: "rpcs_of w ls = cs @ [CallDeregister (deregister_call w)]" by blast
  then obtain fs l where fs: "filter (concerns (workerID w)) cls = fs @ [l]" "arrives (CallDeregister (deregister_call w)) l"
    using assms(5) by (auto simp: list_all2_append1 list_all2_Cons1)
  then have l: "l = DeregisterL (deregister_call w)" by (cases l) auto
  from filter_snoc [OF fs(1)] obtain a b where ab: "cls = a @ l # b" "\<forall>x \<in> set b. \<not> concerns (workerID w) x" by blast
  from assms(4) [unfolded ab(1)] obtain u v where u: "exec (cp_step fe) v b c'" "cp_step fe u l v"
    using exec_split [of "cp_step fe" c "a @ [l]" b c'] by (auto elim: exec_snocE)
  have "workers (cp_reg v) (workerID w) = None"
    using deregistered_absent u(2) l by (fastforce simp: deregister_call_def)
  then have none: "workers (cp_reg c') (workerID w) = None" by (rule absent_exec [OF u(1) _ ab(2)])
  have wf: "reg_wf (cp_reg c')" using cp.sinv_exec [OF assms(4,3)] by (simp add: cp_inv_def)
  obtain lw where lw: "srv_ListWorkers ks (cp_reg c') = Inr lw" by (simp add: srv_ListWorkers_def)
  have "view' = lw_Workers lw" using assms(7) view_after_poll [of lw draws tks view tr] by (simp add: lw)
  with listed_ids [OF wf assms(6) lw] none show ?thesis by auto
qed

text \<open>The sample worker's run: its heartbeat is unknown, it registers, and it leaves.\<close>

theorem clean_exit_leaves_the_view_witness:
  "\<exists>cls c' resp. exec (cp_step exact_env) ex_cp cls c' \<and> RegisterL (register_call ex_me) \<in> set cls
     \<and> srv_ListWorkers [] (cp_reg c') = Inr resp \<and> workers (cp_reg c') ''w1'' = None"
proof -
  obtain s where s: "exec (wp_step sample_server) (wp_at (ex_wup\<lparr>ctx_done := True\<rparr>) ex_answered BeatSelect) ex_worker_stops s"
      "exited (wp_core s)" using ex_worker_stops_exec by blast
  let ?ls = "(ex_worker_beats @ [WCore CSignal]) @ ex_worker_stops"
  have e: "exec (wp_step sample_server) (worker_start ex_me 1000000000) ?ls s"
    by (rule exec_append [OF s(1) ex_worker_told])
  have rpcs: "rpcs_of ex_me ?ls = [CallHeartbeat (heartbeat_call ex_me), CallRegister (register_call ex_me),
      CallDeregister (deregister_call ex_me)]"
    by (simp add: rpcs_of_def ex_worker_beats_def ex_worker_stops_def after_heartbeat_def ex_not_found_def)
  let ?r0 = "cp_reg ex_cp" and ?now = "cp_clock ex_cp"
  let ?r1 = "snd (srv_Heartbeat ?now (heartbeat_call ex_me) ?r0)"
  let ?r2 = "snd (srv_Register ?now (register_call ex_me) ?r1)"
  let ?r3 = "snd (srv_Deregister (deregister_call ex_me) ?r2)"
  let ?c = "\<lambda>r. ex_cp\<lparr>cp_reg := r\<rparr>"
  let ?res = "fst (srv_Heartbeat ?now (heartbeat_call ex_me) ?r0)"
  let ?cls = "[HeartbeatL (heartbeat_call ex_me) ?res, RegisterL (register_call ex_me), DeregisterL (deregister_call ex_me)]"
  have "cp_step exact_env ex_cp (HeartbeatL (heartbeat_call ex_me) ?res) (?c ?r1)"
    by (rule cp_heartbeat) simp
  moreover have "cp_step exact_env (?c ?r1) (RegisterL (register_call ex_me)) (?c ?r2)"
    using cp_register [of "?c ?r1" "register_call ex_me" _ ?r2] by (simp add: srv_Register_def)
  moreover have "cp_step exact_env (?c ?r2) (DeregisterL (deregister_call ex_me)) (?c ?r3)"
    using cp_deregister [of "deregister_call ex_me" "?c ?r2" _ ?r3] by (simp add: srv_Deregister_def)
  ultimately have c: "exec (cp_step exact_env) ex_cp ?cls (?c ?r3)" by (blast intro: exec_cons)
  have arr: "list_all2 arrives (rpcs_of ex_me ?ls) (filter (concerns (workerID ex_me)) ?cls)"
    unfolding rpcs by (simp add: heartbeat_call_def register_call_def deregister_call_def)
  have it: "iterates (workers (cp_reg (?c ?r3))) []"
    by (auto simp: iterates_def srv_Deregister_def srv_Register_def srv_Heartbeat_def Deregister_def Heartbeat_def
        heartbeat_call_def register_call_def deregister_call_def ex_me_def Let_def)
  obtain view' tr' jobs where p: "pollOnce (srv_ListWorkers [] (cp_reg (?c ?r3))) (\<lambda>_. 0) [] [] NewRequestTracker
      = (view', tr', jobs)" by (metis prod_cases3)
  have "workers (cp_reg (?c ?r3)) ''w1'' = None"
    using clean_exit_leaves_the_view [OF e s(2) ex_cp_inv c arr it p] by (simp add: ex_me_def)
  moreover obtain resp where "srv_ListWorkers [] (cp_reg (?c ?r3)) = Inr resp" by (simp add: srv_ListWorkers_def)
  ultimately show ?thesis using c by (intro exI [of _ ?cls] exI [of _ "?c ?r3"]) auto
qed

end
